(* ===== verification/Prelude.thy ===== *)
theory Prelude
  imports Main "HOL-Library.Word"
begin

text \<open>
  Types and generic facts shared by every component: the machine integers of the C code,
  \<open>for\<close> loops over counters, fixed blocks of memory read by index, and the fact
  collections the component theories extend.
\<close>

unbundle bit_operations_syntax

section \<open>Machine integers\<close>

type_synonym u8 = "8 word"
type_synonym u16 = "16 word"
type_synonym u32 = "32 word"
type_synonym u64 = "64 word"

text \<open>\<^verbatim>\<open>UINT32_MAX\<close> of \<^verbatim>\<open>stdint.h\<close>.\<close>

abbreviation UINT32_MAX :: u32 where
  "UINT32_MAX \<equiv> 0xFFFFFFFF"

lemma unat_u8_less [simp]: "unat (x :: u8) < 256"
  using unsigned_less [of x] by simp

lemma unat_u16_less [simp]: "unat (x :: u16) < 65536"
  using unsigned_less [of x] by simp

lemma unat_u32_less [simp]: "unat (x :: u32) < 4294967296"
  using unsigned_less [of x] by simp

lemma unat_of_nat_u16 [simp]: "n < 65536 \<Longrightarrow> unat (of_nat n :: u16) = n"
  by (simp add: unat_of_nat)

lemma unat_of_nat_u32 [simp]: "n < 4294967296 \<Longrightarrow> unat (of_nat n :: u32) = n"
  by (simp add: unat_of_nat)

text \<open>A sum on \<open>32 word\<close> that does not wrap.\<close>

lemma unat_plus_u32:
  "unat (a :: u32) + unat b < 4294967296 \<Longrightarrow> unat (a + b) = unat a + unat b"
  by (simp add: unat_word_ariths)

text \<open>Widening keeps the value.\<close>

lemma unat_ucast_u32_u64 [simp]: "unat (ucast (x :: u32) :: u64) = unat x"
proof -
  have "unat x < 2 ^ 64" by (rule less_trans [OF unat_u32_less]) simp
  then show ?thesis by (simp add: unsigned_ucast_eq take_bit_nat_eq_self)
qed

lemma unat_ucast_u16_u32 [simp]: "unat (ucast (x :: u16) :: u32) = unat x"
proof -
  have "unat x < 2 ^ 32" by (rule less_trans [OF unat_u16_less]) simp
  then show ?thesis by (simp add: unsigned_ucast_eq take_bit_nat_eq_self)
qed

lemma unat_ucast_u8_u32 [simp]: "unat (ucast (x :: u8) :: u32) = unat x"
proof -
  have "unat x < 2 ^ 32" by (rule less_trans [OF unat_u8_less]) simp
  then show ?thesis by (simp add: unsigned_ucast_eq take_bit_nat_eq_self)
qed

section \<open>Allocation\<close>

text \<open>
  \<^verbatim>\<open>calloc\<close> and \<^verbatim>\<open>realloc\<close> may refuse. An allocator says, for the array asked for and the number
  of elements wanted, whether it is granted; every function that allocates takes one. An
  array is only ever reallocated to a larger capacity, so a request is never repeated and
  nothing is lost by making the answer depend on the request alone.
\<close>

datatype alloc_site =
    A_language | A_dense | A_field_at | A_aliasable | A_action_counts | A_accepts_end
  | A_parser_states | A_parser_nodes
  | A_spec | A_spec_trees | A_spec_nodes | A_spec_links | A_spec_heads | A_spec_children
  | A_spec_edges | A_spec_slices | A_spec_scratch | A_spec_prefix_tree | A_spec_capture_id
  | A_filter_arena | A_filter_scratch | A_filter_declined | A_filter_cells

type_synonym allocator = "alloc_site \<Rightarrow> nat \<Rightarrow> bool"

section \<open>Loops that can stop early\<close>

text \<open>A \<^verbatim>\<open>for\<close> loop over the values \<open>xs\<close> whose body can leave the function with an error.\<close>

fun fold_err :: "('a \<Rightarrow> 's \<Rightarrow> 'e + 's) \<Rightarrow> 'a list \<Rightarrow> 's \<Rightarrow> 'e + 's" where
  "fold_err f [] s = Inr s"
| "fold_err f (x # xs) s = (case f x s of Inl e \<Rightarrow> Inl e | Inr s' \<Rightarrow> fold_err f xs s')"

lemma fold_err_Inr_fold:
  assumes "\<And>x s. x \<in> set xs \<Longrightarrow> I s \<Longrightarrow> f x s = Inr (g x s) \<and> I (g x s)" and "I s"
  shows "fold_err f xs s = Inr (fold g xs s)"
  using assms by (induction xs arbitrary: s) simp_all

text \<open>An invariant of the body is an invariant of the loop.\<close>

lemma fold_err_invariant:
  assumes "fold_err f xs s = Inr s'" and "I s"
    and "\<And>x s s'. x \<in> set xs \<Longrightarrow> I s \<Longrightarrow> f x s = Inr s' \<Longrightarrow> I s'"
  shows "I s'"
  using assms
proof (induction xs arbitrary: s)
  case Nil
  then show ?case by simp
next
  case (Cons x xs)
  obtain t where t: "f x s = Inr t" "fold_err f xs t = Inr s'"
    using Cons.prems(1) by (auto split: sum.splits)
  have "I t" using Cons.prems(2,3) t(1) by auto
  then show ?case using Cons.IH [OF t(2)] Cons.prems(3) by auto
qed

text \<open>What holds of the state right after the pass over \<open>x\<close>, and is kept, holds at the end.\<close>

lemma fold_err_established:
  assumes "fold_err f xs s = Inr s'" and "x \<in> set xs" and "I s"
    and inv: "\<And>x s s'. x \<in> set xs \<Longrightarrow> I s \<Longrightarrow> f x s = Inr s' \<Longrightarrow> I s'"
    and est: "\<And>s s'. I s \<Longrightarrow> f x s = Inr s' \<Longrightarrow> Q s'"
    and keep: "\<And>y s s'. y \<in> set xs \<Longrightarrow> I s \<Longrightarrow> Q s \<Longrightarrow> f y s = Inr s' \<Longrightarrow> Q s'"
  shows "Q s'"
proof -
  obtain ys zs where xs: "xs = ys @ x # zs"
    using \<open>x \<in> set xs\<close> by (meson split_list)
  have app: "fold_err f (as @ bs) s = (case fold_err f as s of Inl e \<Rightarrow> Inl e | Inr t \<Rightarrow> fold_err f bs t)"
    for as bs s by (induction as arbitrary: s) (auto split: sum.splits)
  obtain t u where t: "fold_err f ys s = Inr t" and u: "f x t = Inr u" and v: "fold_err f zs u = Inr s'"
    using assms(1) by (auto simp: xs app split: sum.splits)
  have It: "I t"
    using fold_err_invariant [where I = I, OF t \<open>I s\<close>] inv by (auto simp: xs)
  have "I u \<and> Q u"
    using inv [OF _ It u] est [OF It u] by (simp add: xs)
  have "I b \<and> Q b" if "y \<in> set zs" "I a \<and> Q a" "f y a = Inr b" for y a b
    using that inv [of y a b] keep [of y a b] by (simp add: xs)
  then have "I s' \<and> Q s'"
    using fold_err_invariant [where I = "\<lambda>s. I s \<and> Q s", OF v \<open>I u \<and> Q u\<close>] by blast
  then show ?thesis by simp
qed

lemma fold_err_total:
  assumes "\<And>x s. x \<in> set xs \<Longrightarrow> \<exists>s'. f x s = Inr s'"
  shows "\<exists>s'. fold_err f xs s = Inr s'"
  using assms
proof (induction xs arbitrary: s)
  case Nil
  then show ?case by simp
next
  case (Cons x xs)
  then obtain s' where "f x s = Inr s'" by fastforce
  with Cons show ?case by simp
qed

text \<open>A loop whose body may not return.\<close>

fun fold_opt :: "('a \<Rightarrow> 's \<Rightarrow> 's option) \<Rightarrow> 'a list \<Rightarrow> 's \<Rightarrow> 's option" where
  "fold_opt f [] s = Some s"
| "fold_opt f (x # xs) s = Option.bind (f x s) (fold_opt f xs)"

lemma fold_opt_mono [partial_function_mono]:
  assumes "\<And>x s. mono_option (\<lambda>g. F g x s)"
  shows "mono_option (\<lambda>g. fold_opt (F g) xs s)"
proof (induction xs arbitrary: s)
  case Nil
  show ?case by (simp add: option.const_mono)
next
  case (Cons x xs)
  show ?case unfolding fold_opt.simps by (intro bind_mono assms Cons.IH)
qed

lemma fold_opt_invariant:
  assumes "fold_opt f xs s = Some s'" and "I s"
    and "\<And>x s s'. x \<in> set xs \<Longrightarrow> I s \<Longrightarrow> f x s = Some s' \<Longrightarrow> I s'"
  shows "I s'"
  using assms by (induction xs arbitrary: s) (auto simp: bind_eq_Some_conv)

section \<open>Writing into an array\<close>

lemma length_fold_update [simp]: "length (fold (\<lambda>(k, v) d. d[k := v]) ws d) = length d"
  by (induction ws arbitrary: d) auto

text \<open>A run of writes to distinct cells: each cell holds what was written to it.\<close>

lemma fold_update_nth:
  assumes "distinct (map fst ws)" and "j < length d"
  shows "fold (\<lambda>(k, v) d. d[k := v]) ws d ! j = (case map_of ws j of None \<Rightarrow> d ! j | Some v \<Rightarrow> v)"
  using assms
proof (induction ws arbitrary: d)
  case Nil
  then show ?case by simp
next
  case (Cons w ws)
  obtain k v where w: "w = (k, v)" by (cases w)
  have "map_of ws k = None" using Cons.prems(1) by (simp add: w map_of_eq_None_iff)
  then show ?case
    using Cons.IH [of "d[k := v]"] Cons.prems by (auto simp: w nth_list_update split: option.splits)
qed

lemma fold_update_other:
  assumes "j \<notin> fst ` set ws"
  shows "fold (\<lambda>(k, v) d. d[k := v]) ws d ! j = d ! j"
  using assms by (induction ws arbitrary: d) (auto simp: nth_list_update_neq)

text \<open>Cells of a table stored by rows of \<open>w\<close> columns.\<close>

lemma row_index_eq:
  fixes p q i j w :: nat
  assumes "i < w" and "j < w"
  shows "p * w + i = q * w + j \<longleftrightarrow> p = q \<and> i = j"
proof
  assume eq: "p * w + i = q * w + j"
  then have "(p * w + i) div w = (q * w + j) div w" by simp
  then have "p = q" using assms by simp
  with eq show "p = q \<and> i = j" by simp
qed simp

lemma row_index_less:
  fixes p i w n :: nat
  assumes "p < n" and "i < w"
  shows "p * w + i < n * w"
proof -
  have "p * w + i < Suc p * w" using assms(2) by simp
  also have "\<dots> \<le> n * w" using assms(1) by (intro mult_le_mono1) simp
  finally show ?thesis .
qed

lemma take_length_takeWhile [simp]: "take (length (takeWhile P xs)) xs = takeWhile P xs"
  by (metis takeWhile_eq_take)

lemma takeWhile_eq_filter:
  assumes "list_all (\<lambda>x. \<not> P x) (drop (length (takeWhile P xs)) xs)"
  shows "takeWhile P xs = filter P xs"
proof -
  have "filter P (dropWhile P xs) = []"
    using assms by (simp add: dropWhile_eq_drop filter_empty_conv list_all_iff)
  moreover have "filter P (takeWhile P xs) = takeWhile P xs"
    by (metis filter_True set_takeWhileD)
  moreover have "filter P xs = filter P (takeWhile P xs) @ filter P (dropWhile P xs)"
    by (metis filter_append takeWhile_dropWhile_id)
  ultimately show ?thesis by simp
qed

end
