(* ===== verification/Tables.thy ===== *)
theory Tables
  imports Prelude
begin

text \<open>
  The generated grammar tables of \<^verbatim>\<open>tree_sitter/parser.h\<close> and the loaded language of
  \<^verbatim>\<open>tf_language.h\<close>, with the accessors the driver reads them through.

  A table the grammar generator emits is reached through a bare pointer, without a length:
  it is a function from the index to the cell. An array this library allocates has a
  length: it is a list, and the facts about loading say that every read stays inside it.
\<close>

section \<open>The generated tables\<close>

type_synonym TSStateId = u16
type_synonym TSSymbol = u16
type_synonym TSFieldId = u16

definition ts_builtin_sym_error :: TSSymbol where
  "ts_builtin_sym_error = - 1"

definition ts_builtin_sym_end :: TSSymbol where
  "ts_builtin_sym_end = 0"

definition tf_builtin_sym_error_repeat :: TSSymbol where
  "tf_builtin_sym_error_repeat = ts_builtin_sym_error - 1"

record TSFieldMapEntry =
  fm_field_id :: TSFieldId
  fm_child_index :: u8
  fm_inherited :: bool

record TSMapSlice =
  slice_index :: u16
  slice_length :: u16

record TSSymbolMetadata =
  md_visible :: bool
  md_named :: bool
  md_supertype :: bool

record TSLexerMode =
  lex_state :: u16
  external_lex_state :: u16
  reserved_word_set_id :: u16

text \<open>
  \<^verbatim>\<open>TSParseAction\<close> is a union told apart by its \<^verbatim>\<open>type\<close> tag: a datatype with the tags as
  constructors and the fields of the member the tag selects.
\<close>

datatype TSParseAction =
    is_Shift: Shift (shift_state: TSStateId) (shift_extra: bool) (shift_repetition: bool)
  | Reduce (reduce_child_count: u8) (reduce_symbol: TSSymbol)
      (reduce_dynamic_precedence: "16 word") (reduce_production_id: u16)
  | Accept
  | Recover

text \<open>
  \<^verbatim>\<open>TSParseActionEntry\<close> is an untagged union of an action and an entry header. A cell is
  both readings of its bytes; which one the generator wrote is not recorded, in the model
  as in the code.
\<close>

record TSParseActionEntry =
  pa_action :: TSParseAction
  pa_count :: u8
  pa_reusable :: bool

text \<open>
  A generated lex function is a \<^verbatim>\<open>switch\<close> over its states written with the macros
  \<^verbatim>\<open>ACCEPT_TOKEN\<close>, \<^verbatim>\<open>ADVANCE\<close>, \<^verbatim>\<open>SKIP\<close> and \<^verbatim>\<open>END_STATE\<close>. A state accepts a token or not,
  and then looks at the lookahead character and at the end-of-file flag to decide where to
  go. This is the grammar's code, so it stays a parameter of the language.
\<close>

datatype lex_move = ADVANCE TSStateId | SKIP TSStateId | END_STATE

record lex_row =
  row_accept :: "TSSymbol option"
  row_move :: "int \<Rightarrow> bool \<Rightarrow> lex_move"

text \<open>
  \<^verbatim>\<open>alias_map\<close> is read up to a terminating 0, so it is a list here: running off its end is
  an outcome the model can tell.
\<close>

record TSLanguage =
  abi_version :: u32
  symbol_count :: u32
  alias_count :: u32
  token_count :: u32
  external_token_count :: u32
  state_count :: u32
  large_state_count :: u32
  production_id_count :: u32
  field_count :: u32
  max_alias_sequence_length :: u16
  parse_table :: "nat \<Rightarrow> u16"
  small_parse_table :: "nat \<Rightarrow> u16"
  small_parse_table_map :: "nat \<Rightarrow> u32"
  parse_actions :: "nat \<Rightarrow> TSParseActionEntry"
  symbol_names :: "nat \<Rightarrow> string"
  field_names :: "nat \<Rightarrow> string"
  field_map_slices :: "nat \<Rightarrow> TSMapSlice"
  field_map_entries :: "nat \<Rightarrow> TSFieldMapEntry"
  symbol_metadata :: "nat \<Rightarrow> TSSymbolMetadata"
  public_symbol_map :: "nat \<Rightarrow> TSSymbol"
  alias_map :: "u16 list"
  alias_sequences :: "nat \<Rightarrow> TSSymbol"
  lex_modes :: "nat \<Rightarrow> TSLexerMode"
  lex_fn :: "TSStateId \<Rightarrow> lex_row"
  keyword_lex_fn :: "TSStateId \<Rightarrow> lex_row"
  keyword_capture_token :: TSSymbol
  reserved_words :: "nat \<Rightarrow> TSSymbol"
  max_reserved_word_set_size :: u16

section \<open>Character sets\<close>

text \<open>
  \<^verbatim>\<open>set_contains\<close>: the binary search the generated lexers use for large character sets. The
  loop keeps \<^verbatim>\<open>index\<close> and \<^verbatim>\<open>size\<close> (\<open>sz\<close>); a range is a pair of its first and last character. The
  final read is of \<^verbatim>\<open>ranges[index]\<close>, so the caller must pass at least one range.
\<close>

type_synonym TSCharacterRange = "int \<times> int"

function set_contains_loop :: "TSCharacterRange list \<Rightarrow> nat \<Rightarrow> nat \<Rightarrow> int \<Rightarrow> bool" where
  "set_contains_loop ranges index sz lookahead =
     (if sz > 1 then
        let half_size = sz div 2;
            mid_index = index + half_size;
            range = ranges ! mid_index
        in if lookahead \<ge> fst range \<and> lookahead \<le> snd range then True
           else set_contains_loop ranges (if lookahead > snd range then mid_index else index)
                  (sz - half_size) lookahead
      else
        let range = ranges ! index
        in lookahead \<ge> fst range \<and> lookahead \<le> snd range)"
  by pat_completeness auto
termination
  by (relation "measure (\<lambda>(_, _, sz, _). sz)") auto

declare set_contains_loop.simps [simp del]

definition set_contains :: "TSCharacterRange list \<Rightarrow> nat \<Rightarrow> int \<Rightarrow> bool" where
  "set_contains ranges len lookahead = set_contains_loop ranges 0 (len - 0) lookahead"

section \<open>The loaded language\<close>

record TFLanguage =
  ts :: TSLanguage
  dense :: "u16 list"
  action_counts :: "u8 list"
  field_at :: "TSFieldId list"
  field_at_width :: u32
  aliasable :: "bool list"
  accepts_end :: "bool list"

text \<open>The start state's cell of a table with \<open>width\<close> columns, as \<^verbatim>\<open>size_t\<close> arithmetic.\<close>

definition tf_lookup :: "TFLanguage \<Rightarrow> TSStateId \<Rightarrow> TSSymbol \<Rightarrow> u16" where
  "tf_lookup self state symbol =
     dense self ! (unat state * unat (symbol_count (ts self)) + unat symbol)"

text \<open>
  The actions after the entry header, as many as the filtered count says: the pointer and
  the count \<^verbatim>\<open>tf_actions\<close> returns, in one list.
\<close>

definition tf_actions :: "TFLanguage \<Rightarrow> TSStateId \<Rightarrow> TSSymbol \<Rightarrow> TSParseAction list" where
  "tf_actions self state symbol =
     (let index = unat (tf_lookup self state symbol)
      in map (\<lambda>i. pa_action (parse_actions (ts self) (index + 1 + i)))
           [0..<unat (action_counts self ! index)])"

definition tf_next_state :: "TFLanguage \<Rightarrow> TSStateId \<Rightarrow> TSSymbol \<Rightarrow> TSStateId" where
  "tf_next_state self state symbol =
     (if symbol = ts_builtin_sym_error \<or> symbol = tf_builtin_sym_error_repeat then 0
      else if unat symbol < unat (token_count (ts self)) then
        let index = unat (tf_lookup self state symbol);
            count = unat (pa_count (parse_actions (ts self) index))
        in if count > 0 then
             (case pa_action (parse_actions (ts self) (index + 1 + (count - 1))) of
                Shift s extra _ \<Rightarrow> if extra then state else s
              | _ \<Rightarrow> 0)
           else 0
      else tf_lookup self state symbol)"

text \<open>
  \<^verbatim>\<open>tf_alias_sequence\<close> returns a pointer to the production's row, or \<^verbatim>\<open>NULL\<close> for production 0:
  here the row as a function of the child index.
\<close>

definition tf_alias_sequence :: "TFLanguage \<Rightarrow> nat \<Rightarrow> (nat \<Rightarrow> TSSymbol) option" where
  "tf_alias_sequence self production_id =
     (if production_id \<noteq> 0
      then Some (\<lambda>i. alias_sequences (ts self)
                       (production_id * unat (max_alias_sequence_length (ts self)) + i))
      else None)"

definition tf_alias_at :: "TFLanguage \<Rightarrow> nat \<Rightarrow> nat \<Rightarrow> TSSymbol" where
  "tf_alias_at self production_id child_index =
     (if production_id \<noteq> 0
      then alias_sequences (ts self)
             (production_id * unat (max_alias_sequence_length (ts self)) + child_index)
      else 0)"

text \<open>The entries between the \<^verbatim>\<open>start\<close> and \<^verbatim>\<open>end\<close> pointers \<^verbatim>\<open>tf_field_map\<close> hands back.\<close>

definition tf_field_map :: "TSLanguage \<Rightarrow> nat \<Rightarrow> TSFieldMapEntry list" where
  "tf_field_map t production_id =
     (if field_count t = 0 then []
      else let slice = field_map_slices t production_id
           in map (\<lambda>i. field_map_entries t (unat (slice_index slice) + i))
                [0..<unat (slice_length slice)])"

definition tf_symbol_metadata :: "TFLanguage \<Rightarrow> TSSymbol \<Rightarrow> TSSymbolMetadata" where
  "tf_symbol_metadata self symbol =
     (if symbol = ts_builtin_sym_error
      then \<lparr>md_visible = True, md_named = True, md_supertype = False\<rparr>
      else if symbol = tf_builtin_sym_error_repeat
      then \<lparr>md_visible = False, md_named = False, md_supertype = False\<rparr>
      else symbol_metadata (ts self) (unat symbol))"

definition tf_public_symbol :: "TFLanguage \<Rightarrow> TSSymbol \<Rightarrow> TSSymbol" where
  "tf_public_symbol self symbol =
     (if symbol = ts_builtin_sym_error then symbol
      else public_symbol_map (ts self) (unat symbol))"

definition tf_lex_mode :: "TFLanguage \<Rightarrow> TSStateId \<Rightarrow> TSLexerMode" where
  "tf_lex_mode self state = lex_modes (ts self) (unat state)"

text \<open>The scan of one reserved-word row: \<open>n\<close> columns left, stopping early at a 0.\<close>

fun reserved_scan :: "(nat \<Rightarrow> TSSymbol) \<Rightarrow> nat \<Rightarrow> nat \<Rightarrow> TSSymbol \<Rightarrow> bool" where
  "reserved_scan words i 0 symbol = False"
| "reserved_scan words i (Suc n) symbol =
     (if words i = symbol then True
      else if words i = 0 then False
      else reserved_scan words (Suc i) n symbol)"

definition tf_is_reserved_word :: "TFLanguage \<Rightarrow> TSStateId \<Rightarrow> TSSymbol \<Rightarrow> bool" where
  "tf_is_reserved_word self state symbol =
     (let set_id = reserved_word_set_id (lex_modes (ts self) (unat state));
          width = unat (max_reserved_word_set_size (ts self))
      in if set_id = 0 then False
         else reserved_scan (reserved_words (ts self)) (unat set_id * width) width symbol)"

definition tf_foldable :: "TFLanguage \<Rightarrow> TSSymbol \<Rightarrow> bool" where
  "tf_foldable self symbol =
     (\<not> aliasable self ! unat symbol \<and> \<not> md_visible (tf_symbol_metadata self symbol))"

end
