(* ===== verification/Language.thy ===== *)
theory Language
  imports Tables
begin

text \<open>
  Loading a grammar (\<^verbatim>\<open>tf_language.c\<close>): the checks on the generated tables and the arrays the
  loader expands them into. The lemmas relate every array to the packed table it is built
  from, and classify the grammars that are refused.
\<close>

section \<open>The loader\<close>

definition tf_language_is_repeat_shift :: "TSParseAction \<Rightarrow> bool" where
  "tf_language_is_repeat_shift action =
     (case action of Shift _ _ repetition \<Rightarrow> repetition | _ \<Rightarrow> False)"

text \<open>The (state, terminal) pairs of the loader's nested loops, in their order.\<close>

definition state_terminals :: "TSLanguage \<Rightarrow> (nat \<times> nat) list" where
  "state_terminals t = List.product [0..<unat (state_count t)] [0..<unat (token_count t)]"

text \<open>One pass of the nested loop of \<^verbatim>\<open>tf_language__action_table_extent\<close>.\<close>

definition extent_step :: "TSLanguage \<Rightarrow> TFLanguage \<Rightarrow> nat \<times> nat \<Rightarrow> nat \<Rightarrow> nat" where
  "extent_step t probe = (\<lambda>(state, symbol) extent.
     let index = unat (tf_lookup probe (of_nat state) (of_nat symbol))
     in if index = 0 then extent
        else let end = index + 1 + unat (pa_count (parse_actions t index))
             in if end > extent then end else extent)"

definition tf_language_action_table_extent :: "TSLanguage \<Rightarrow> TFLanguage \<Rightarrow> nat" where
  "tf_language_action_table_extent t probe = fold (extent_step t probe) (state_terminals t) 1"

subsection \<open>Expanding the parse table\<close>

text \<open>
  A small state's packed row: a group count, then groups of a value, a symbol count and
  that many symbols. \<open>data\<close> is the reading position; \<open>base\<close> is where the state's row starts.
\<close>

fun expand_cells ::
  "(nat \<Rightarrow> u16) \<Rightarrow> nat \<Rightarrow> nat \<Rightarrow> nat \<Rightarrow> u16 \<Rightarrow> u16 list \<Rightarrow> u16 list \<times> nat" where
  "expand_cells table data 0 base section_value d = (d, data)"
| "expand_cells table data (Suc n) base section_value d =
     expand_cells table (data + 1) n base section_value
       (d[base + unat (table data) := section_value])"

fun expand_groups :: "(nat \<Rightarrow> u16) \<Rightarrow> nat \<Rightarrow> nat \<Rightarrow> nat \<Rightarrow> u16 list \<Rightarrow> u16 list" where
  "expand_groups table data 0 base d = d"
| "expand_groups table data (Suc n) base d =
     (let section_value = table data;
          symbols = table (data + 1);
          (d', data') = expand_cells table (data + 2) (unat symbols) base section_value d
      in expand_groups table data' n base d')"

definition expand_state :: "TSLanguage \<Rightarrow> nat \<Rightarrow> u16 list \<Rightarrow> u16 list" where
  "expand_state t state d =
     (let data = unat (small_parse_table_map t (state - unat (large_state_count t)));
          group_count = small_parse_table t data
      in expand_groups (small_parse_table t) (data + 1) (unat group_count)
           (state * unat (symbol_count t)) d)"

definition expand_parse_table :: "TSLanguage \<Rightarrow> u16 list" where
  "expand_parse_table t =
     (let cells = unat (state_count t) * unat (symbol_count t);
          large = unat (large_state_count t) * unat (symbol_count t)
      in fold (expand_state t) [unat (large_state_count t)..<unat (state_count t)]
           (map (parse_table t) [0..<large] @ drop large (replicate cells 0)))"

subsection \<open>Flattening the field maps\<close>

definition width_step :: "TSFieldMapEntry \<Rightarrow> nat \<Rightarrow> nat" where
  "width_step entry width =
     (if \<not> fm_inherited entry \<and> unat (fm_child_index entry) + 1 > width
      then unat (fm_child_index entry) + 1 else width)"

definition field_map_width :: "TSLanguage \<Rightarrow> nat" where
  "field_map_width t =
     fold (\<lambda>production width. fold width_step (tf_field_map t production) width)
       [0..<unat (production_id_count t)] (unat (max_alias_sequence_length t))"

definition field_step ::
  "nat \<Rightarrow> nat \<Rightarrow> TSFieldMapEntry \<Rightarrow> TSFieldId list \<Rightarrow> TSFieldId list" where
  "field_step width production entry arr =
     (let slot = production * width + unat (fm_child_index entry)
      in if \<not> fm_inherited entry \<and> arr ! slot = 0
         then arr[slot := fm_field_id entry] else arr)"

definition flatten_field_map :: "TSLanguage \<Rightarrow> nat \<Rightarrow> TSFieldId list" where
  "flatten_field_map t width =
     fold (\<lambda>production. fold (field_step width production) (tf_field_map t production))
       [0..<unat (production_id_count t)] (replicate (unat (production_id_count t) * width) 0)"

subsection \<open>Symbols a production can rename\<close>

text \<open>
  \<open>alias_map\<close> is a run of (symbol, count, aliases\<dots>) ended by a 0 symbol. \<open>None\<close>: the array
  ended before its terminator, which the code would read past.
\<close>

fun scan_alias_map :: "u16 list \<Rightarrow> bool list \<Rightarrow> bool list option" where
  "scan_alias_map [] flags = None"
| "scan_alias_map [symbol] flags = (if symbol = 0 then Some flags else None)"
| "scan_alias_map (symbol # n # rest) flags =
     (if symbol = 0 then Some flags
      else scan_alias_map (drop (unat n) rest)
             (if unat symbol < length flags then flags[unat symbol := True] else flags))"

subsection \<open>Filtered action counts\<close>

definition entry_actions :: "TSLanguage \<Rightarrow> nat \<Rightarrow> TSParseAction list" where
  "entry_actions t index =
     map (\<lambda>i. pa_action (parse_actions t (index + 1 + i))) [0..<unat (pa_count (parse_actions t index))]"

text \<open>One (state, terminal) pass over the counts: the error leaves \<^verbatim>\<open>tf_language_load\<close>.\<close>

definition count_step ::
  "TSLanguage \<Rightarrow> TFLanguage \<Rightarrow> nat \<Rightarrow> nat \<times> nat \<Rightarrow> u8 list \<Rightarrow> string + u8 list" where
  "count_step t self extent = (\<lambda>(state, symbol) counts.
     let index = unat (tf_lookup self (of_nat state) (of_nat symbol))
     in if index = 0 then Inr counts
        else if index \<ge> extent then
          Inl ''parse table refers to an action index that does not exist''
        else if counts ! index \<noteq> 0 then Inr counts
        else
          let actions = entry_actions t index;
              kept = length (takeWhile (\<lambda>a. \<not> tf_language_is_repeat_shift a) actions)
          in if list_all tf_language_is_repeat_shift (drop kept actions)
             then Inr (counts[index := of_nat kept])
             else Inl ''SHIFT_REPEAT actions are not trailing in an action entry'')"

definition end_accepted :: "TFLanguage \<Rightarrow> nat \<Rightarrow> bool" where
  "end_accepted self state = (tf_actions self (of_nat state) ts_builtin_sym_end = [Accept])"

subsection \<open>The whole load\<close>

text \<open>The language before its action counts are known, and what the counting loop makes of it.\<close>

definition probe_language :: "TSLanguage \<Rightarrow> bool list \<Rightarrow> TFLanguage" where
  "probe_language t al =
     \<lparr>ts = t, dense = expand_parse_table t, action_counts = [],
      field_at = (if field_map_width t > 0 then flatten_field_map t (field_map_width t) else []),
      field_at_width = of_nat (field_map_width t), aliasable = al, accepts_end = []\<rparr>"

definition finish_language :: "TFLanguage \<Rightarrow> u8 list \<Rightarrow> TFLanguage" where
  "finish_language self counts =
     (let self = self\<lparr>action_counts := counts\<rparr>
      in self\<lparr>accepts_end := map (end_accepted self) [0..<unat (state_count (ts self))]\<rparr>)"

definition count_actions :: "TSLanguage \<Rightarrow> TFLanguage \<Rightarrow> string + u8 list" where
  "count_actions t self =
     (let extent = tf_language_action_table_extent t self
      in fold_err (count_step t self extent) (state_terminals t) (replicate extent 0))"

datatype load_error =
    Load_Error string
  | Alias_Map_Overrun \<comment> \<open>the alias map has no terminator: the code reads past it\<close>

text \<open>\<^verbatim>\<open>size_t cells\<close>: 64 bits hold the product of two 32-bit counts.\<close>

definition table_cells :: "TSLanguage \<Rightarrow> u64" where
  "table_cells t = ucast (state_count t) * ucast (symbol_count t)"

definition tf_language_load :: "allocator \<Rightarrow> TSLanguage option \<Rightarrow> load_error + TFLanguage" where
  "tf_language_load mem ts_ptr =
    (case ts_ptr of None \<Rightarrow> Inl (Load_Error ''language is NULL'')
     | Some t \<Rightarrow>
     if abi_version t \<noteq> 15 then Inl (Load_Error ''language ABI version is not 15'')
     else if symbol_count t = 0 \<or> state_count t = 0 \<or> token_count t = 0 \<or> production_id_count t = 0
     then Inl (Load_Error ''language has an empty symbol, state or production table'')
     else if external_token_count t \<noteq> 0
     then Inl (Load_Error ''grammars with an external scanner are not supported'')
     else if \<not> mem A_language 1 then Inl (Load_Error ''out of memory'')
     else if list_ex (\<lambda>state. lex_state (lex_modes t state) = 0xFFFF) [0..<unat (state_count t)]
     then Inl (Load_Error ''grammars with non-terminal extras are not supported'')
     else let cells = table_cells t in
     if cells > 64 * 1024 * 1024 then Inl (Load_Error ''parse table is too large to expand'')
     else if \<not> mem A_dense (unat cells) then Inl (Load_Error ''out of memory'')
     else let width = field_map_width t in
     if width > 0 \<and> \<not> mem A_field_at (unat (production_id_count t) * width)
     then Inl (Load_Error ''out of memory'')
     else if \<not> mem A_aliasable (unat (symbol_count t)) then Inl (Load_Error ''out of memory'')
     else (case scan_alias_map (alias_map t) (replicate (unat (symbol_count t)) False) of
       None \<Rightarrow> Inl Alias_Map_Overrun
     | Some al \<Rightarrow>
       let self = probe_language t al in
       if \<not> mem A_action_counts (tf_language_action_table_extent t self)
       then Inl (Load_Error ''out of memory'')
       else (case count_actions t self of
         Inl e \<Rightarrow> Inl (Load_Error e)
       | Inr counts \<Rightarrow>
         if \<not> mem A_accepts_end (unat (state_count t)) then Inl (Load_Error ''out of memory'')
         else Inr (finish_language self counts))))"

text \<open>Diagnostic names; \<^verbatim>\<open>NULL\<close> for an id out of range. The sum of the counts is 32 bits wide.\<close>

definition tf_language_symbol_name :: "TFLanguage \<Rightarrow> TSSymbol \<Rightarrow> string option" where
  "tf_language_symbol_name self symbol =
     (if symbol = ts_builtin_sym_end then Some ''end of file''
      else if unat symbol \<ge> unat (symbol_count (ts self) + alias_count (ts self)) then None
      else Some (symbol_names (ts self) (unat symbol)))"

definition tf_language_field_name :: "TFLanguage \<Rightarrow> TSFieldId \<Rightarrow> string option" where
  "tf_language_field_name self field =
     (if field = 0 \<or> unat field > unat (field_count (ts self)) then None
      else Some (field_names (ts self) (unat field)))"

section \<open>What the packed tables mean\<close>

text \<open>
  The specification side: the readings of the packed tables the loader replaces. A small
  state's row is a list of groups; the value of a symbol is that of the first group which
  lists it, and 0 when none does.
\<close>

fun packed_groups :: "(nat \<Rightarrow> u16) \<Rightarrow> nat \<Rightarrow> nat \<Rightarrow> (u16 \<times> u16 list) list" where
  "packed_groups table data 0 = []"
| "packed_groups table data (Suc n) =
     (let m = unat (table (data + 1))
      in (table data, map table [data + 2..<data + 2 + m]) # packed_groups table (data + 2 + m) n)"

definition small_groups :: "TSLanguage \<Rightarrow> nat \<Rightarrow> (u16 \<times> u16 list) list" where
  "small_groups t state =
     (let data = unat (small_parse_table_map t (state - unat (large_state_count t)))
      in packed_groups (small_parse_table t) (data + 1) (unat (small_parse_table t data)))"

definition group_lookup :: "(u16 \<times> u16 list) list \<Rightarrow> TSSymbol \<Rightarrow> u16" where
  "group_lookup groups symbol =
     (case find (\<lambda>(v, syms). symbol \<in> set syms) groups of None \<Rightarrow> 0 | Some (v, _) \<Rightarrow> v)"

definition packed_lookup :: "TSLanguage \<Rightarrow> nat \<Rightarrow> TSSymbol \<Rightarrow> u16" where
  "packed_lookup t state symbol =
     (if state < unat (large_state_count t)
      then parse_table t (state * unat (symbol_count t) + unat symbol)
      else group_lookup (small_groups t state) symbol)"

text \<open>
  The shape every generated table has: ids fit in 16 bits, the dense rows come first, and a
  packed row lists a symbol of the grammar at most once.
\<close>

definition wf_tables :: "TSLanguage \<Rightarrow> bool" where
  "wf_tables t \<longleftrightarrow>
     state_count t \<le> 65536 \<and> symbol_count t \<le> 65536 \<and>
     token_count t \<le> symbol_count t \<and> large_state_count t \<le> state_count t \<and>
     list_all (\<lambda>state. let syms = concat (map snd (small_groups t state))
                       in distinct syms \<and> list_all (\<lambda>s. unat s < unat (symbol_count t)) syms)
       [unat (large_state_count t)..<unat (state_count t)]"

text \<open>The field a production gives directly to a child: the first entry that names it.\<close>

definition direct_field :: "TSLanguage \<Rightarrow> nat \<Rightarrow> nat \<Rightarrow> TSFieldId" where
  "direct_field t production child =
     (case find (\<lambda>e. \<not> fm_inherited e \<and> unat (fm_child_index e) = child \<and> fm_field_id e \<noteq> 0)
             (tf_field_map t production)
      of None \<Rightarrow> 0 | Some e \<Rightarrow> fm_field_id e)"

inductive alias_listed :: "u16 list \<Rightarrow> TSSymbol \<Rightarrow> bool" where
  here: "s \<noteq> 0 \<Longrightarrow> alias_listed (s # n # rest) s"
| there: "s' \<noteq> 0 \<Longrightarrow> alias_listed (drop (unat n) rest) s \<Longrightarrow> alias_listed (s' # n # rest) s"

inductive_simps alias_listed_Nil [simp]: "alias_listed [] s"
inductive_simps alias_listed_single [simp]: "alias_listed [x] s"
inductive_simps alias_listed_Cons: "alias_listed (x # n # rest) s"

section \<open>The expanded parse table\<close>

definition group_writes :: "nat \<Rightarrow> (u16 \<times> u16 list) list \<Rightarrow> (nat \<times> u16) list" where
  "group_writes base groups = concat (map (\<lambda>(v, syms). map (\<lambda>s. (base + unat s, v)) syms) groups)"

lemma expand_cells_eq:
  "expand_cells table data n base v d =
     (fold (\<lambda>(k, v) d. d[k := v]) (map (\<lambda>s. (base + unat s, v)) (map table [data..<data + n])) d,
      data + n)"
  by (induction n arbitrary: data d) (simp_all add: upt_conv_Cons del: upt_Suc)

lemma expand_groups_eq:
  "expand_groups table data n base d =
     fold (\<lambda>(k, v) d. d[k := v]) (group_writes base (packed_groups table data n)) d"
  by (induction n arbitrary: data d) (simp_all add: expand_cells_eq group_writes_def Let_def)

lemma expand_state_eq:
  "expand_state t state d =
     fold (\<lambda>(k, v) d. d[k := v])
       (group_writes (state * unat (symbol_count t)) (small_groups t state)) d"
  by (simp add: expand_state_def expand_groups_eq small_groups_def Let_def)

lemma length_expand_state [simp]: "length (expand_state t state d) = length d"
  by (simp add: expand_state_eq)

lemma length_fold_expand_state [simp]: "length (fold (expand_state t) xs d) = length d"
  by (induction xs arbitrary: d) auto

lemma map_of_group_writes:
  "(case map_of (group_writes base groups) (base + unat s) of None \<Rightarrow> 0 | Some v \<Rightarrow> v)
     = group_lookup groups s"
proof (induction groups)
  case Nil
  then show ?case by (simp add: group_writes_def group_lookup_def)
next
  case (Cons g groups)
  obtain v syms where g: "g = (v, syms)" by (cases g)
  have "map_of (map (\<lambda>x. (base + unat x, v)) syms) (base + unat s)
          = (if s \<in> set syms then Some v else None)"
    by (induction syms) (auto simp: word_unat_eq_iff)
  with Cons show ?case
    by (auto simp: group_writes_def group_lookup_def g map_add_def split: if_splits option.splits)
qed

lemma fst_group_writes:
  "map fst (group_writes base groups) = map (\<lambda>s. base + unat s) (concat (map snd groups))"
  by (induction groups) (auto simp: group_writes_def)

lemma distinct_group_writes:
  "distinct (concat (map snd groups)) \<Longrightarrow> distinct (map fst (group_writes base groups))"
  by (simp add: fst_group_writes distinct_map inj_on_def word_unat_eq_iff)

lemma group_writes_row:
  assumes "k \<in> fst ` set (group_writes base groups)"
    and "\<forall>s \<in> set (concat (map snd groups)). unat s < w"
  obtains i where "k = base + i" and "i < w"
proof -
  have "k \<in> set (map fst (group_writes base groups))" using assms(1) by simp
  then show ?thesis using that assms(2) by (auto simp: fst_group_writes)
qed

lemma wf_tables_sizes:
  assumes "wf_tables t"
  shows "unat (state_count t) \<le> 65536" and "unat (symbol_count t) \<le> 65536"
    and "unat (token_count t) \<le> unat (symbol_count t)"
    and "unat (large_state_count t) \<le> unat (state_count t)"
  using assms by (simp_all add: wf_tables_def word_le_nat_alt)

text \<open>The product of two 32-bit counts does not wrap in 64 bits.\<close>

lemma unat_table_cells: "unat (table_cells t) = unat (state_count t) * unat (symbol_count t)"
proof -
  have "unat (state_count t) * unat (symbol_count t) < 4294967296 * 4294967296"
    by (intro mult_strict_mono) simp_all
  then show ?thesis
    by (simp add: table_cells_def unat_word_ariths)
qed

lemma wf_tables_row:
  assumes "wf_tables t" and "state \<in> {unat (large_state_count t)..<unat (state_count t)}"
  shows "distinct (concat (map snd (small_groups t state)))"
    and "\<forall>s \<in> set (concat (map snd (small_groups t state))). unat s < unat (symbol_count t)"
  using assms by (auto simp: wf_tables_def list_all_iff Let_def)

text \<open>A cell of the expansion: its own state's row is written, the other rows are not touched.\<close>

lemma fold_expand_state_nth:
  assumes "wf_tables t" and "set xs \<subseteq> {unat (large_state_count t)..<unat (state_count t)}"
    and "distinct xs" and "unat s < unat (symbol_count t)"
    and "state * unat (symbol_count t) + unat s < length d"
  shows "fold (expand_state t) xs d ! (state * unat (symbol_count t) + unat s) =
     (if state \<in> set xs then
        case map_of (group_writes (state * unat (symbol_count t)) (small_groups t state))
               (state * unat (symbol_count t) + unat s)
        of None \<Rightarrow> d ! (state * unat (symbol_count t) + unat s) | Some v \<Rightarrow> v
      else d ! (state * unat (symbol_count t) + unat s))"
  using assms(2,3,5)
proof (induction xs arbitrary: d)
  case Nil
  then show ?case by simp
next
  case (Cons x xs)
  let ?w = "unat (symbol_count t)"
  let ?j = "state * ?w + unat s"
  have x: "x \<in> {unat (large_state_count t)..<unat (state_count t)}" using Cons.prems(1) by simp
  note row = wf_tables_row [OF assms(1) x]
  have IH: "fold (expand_state t) xs (expand_state t x d) ! ?j =
     (if state \<in> set xs then
        case map_of (group_writes (state * ?w) (small_groups t state)) ?j
        of None \<Rightarrow> expand_state t x d ! ?j | Some v \<Rightarrow> v
      else expand_state t x d ! ?j)"
    using Cons by simp
  show ?case
  proof (cases "x = state")
    case True
    have "expand_state t x d ! ?j =
        (case map_of (group_writes (x * ?w) (small_groups t x)) ?j of None \<Rightarrow> d ! ?j | Some v \<Rightarrow> v)"
      unfolding expand_state_eq
      by (rule fold_update_nth) (use row Cons.prems in \<open>auto intro: distinct_group_writes\<close>)
    then show ?thesis using IH True Cons.prems by simp
  next
    case False
    have "?j \<notin> fst ` set (group_writes (x * ?w) (small_groups t x))"
    proof
      assume "?j \<in> fst ` set (group_writes (x * ?w) (small_groups t x))"
      then obtain i where "?j = x * ?w + i" "i < ?w"
        using row(2) by (rule group_writes_row)
      then show False using False row_index_eq [OF assms(4), of i state x] by simp
    qed
    then have "expand_state t x d ! ?j = d ! ?j"
      unfolding expand_state_eq by (rule fold_update_other)
    then show ?thesis using IH False by (auto split: option.splits)
  qed
qed

lemma length_expand_parse_table:
  assumes "wf_tables t"
  shows "length (expand_parse_table t) = unat (state_count t) * unat (symbol_count t)"
proof -
  have "unat (large_state_count t) * unat (symbol_count t) \<le> unat (state_count t) * unat (symbol_count t)"
    using assms by (simp add: wf_tables_sizes)
  then show ?thesis by (simp add: expand_parse_table_def Let_def)
qed

lemma expand_parse_table_nth:
  assumes wf: "wf_tables t" and state: "state < unat (state_count t)"
    and s: "unat s < unat (symbol_count t)"
  shows "expand_parse_table t ! (state * unat (symbol_count t) + unat s) = packed_lookup t state s"
proof -
  let ?w = "unat (symbol_count t)" and ?large = "unat (large_state_count t)"
    and ?n = "unat (state_count t)"
  let ?j = "state * ?w + unat s"
  let ?d = "map (parse_table t) [0..<?large * ?w] @ drop (?large * ?w) (replicate (?n * ?w) 0)"
  have large: "?large * ?w \<le> ?n * ?w" using wf by (simp add: wf_tables_sizes)
  have j: "?j < ?n * ?w" using state s by (rule row_index_less)
  have d: "?d ! ?j = (if state < ?large then parse_table t ?j else 0)"
  proof (cases "state < ?large")
    case True
    then have "?j < ?large * ?w" using s by (rule row_index_less)
    with True show ?thesis by (simp add: nth_append)
  next
    case False
    then have "?large * ?w \<le> state * ?w" by simp
    then have "\<not> ?j < ?large * ?w" by linarith
    with False j show ?thesis by (simp add: nth_append)
  qed
  have "length ?d = ?n * ?w" using large by simp
  then have "expand_parse_table t ! ?j =
     (if state \<in> set [?large..<?n] then
        case map_of (group_writes (state * ?w) (small_groups t state)) ?j
        of None \<Rightarrow> ?d ! ?j | Some v \<Rightarrow> v
      else ?d ! ?j)"
    unfolding expand_parse_table_def Let_def
    by (intro fold_expand_state_nth [OF wf]) (use s j in auto)
  then show ?thesis
    unfolding d using state map_of_group_writes [of "state * ?w" "small_groups t state" s]
    by (auto simp: packed_lookup_def)
qed

section \<open>The extent of the action table\<close>

lemma extent_step_mono: "n \<le> extent_step t probe p n"
  by (cases p) (auto simp: extent_step_def Let_def)

lemma fold_extent_step_mono: "n \<le> fold (extent_step t probe) ps n"
  by (induction ps arbitrary: n) (auto intro: order_trans [OF extent_step_mono])

lemma fold_extent_step_ge:
  assumes "(state, symbol) \<in> set ps"
    and "unat (tf_lookup probe (of_nat state) (of_nat symbol)) = index" and "index \<noteq> 0"
  shows "index + 1 + unat (pa_count (parse_actions t index)) \<le> fold (extent_step t probe) ps n"
  using assms(1)
proof (induction ps arbitrary: n)
  case Nil
  then show ?case by simp
next
  case (Cons p ps)
  show ?case
  proof (cases "p = (state, symbol)")
    case True
    have "index + 1 + unat (pa_count (parse_actions t index)) \<le> extent_step t probe p n"
      using assms(2,3) by (simp add: True extent_step_def Let_def)
    also have "\<dots> \<le> fold (extent_step t probe) ps (extent_step t probe p n)"
      by (rule fold_extent_step_mono)
    finally show ?thesis by simp
  next
    case False
    then show ?thesis using Cons by simp
  qed
qed

lemma action_table_extent_ge:
  assumes "(state, symbol) \<in> set (state_terminals t)"
    and "unat (tf_lookup probe (of_nat state) (of_nat symbol)) \<noteq> 0"
  shows "unat (tf_lookup probe (of_nat state) (of_nat symbol)) + 1
           + unat (pa_count (parse_actions t (unat (tf_lookup probe (of_nat state) (of_nat symbol)))))
         \<le> tf_language_action_table_extent t probe"
  unfolding tf_language_action_table_extent_def
  by (rule fold_extent_step_ge) (use assms in auto)

lemma action_table_extent_pos: "0 < tf_language_action_table_extent t probe"
  using fold_extent_step_mono [of 1] by (simp add: tf_language_action_table_extent_def Suc_le_eq)

section \<open>The filtered counts\<close>

text \<open>The repeat shifts of an entry, if any, come last.\<close>

definition repeats_trailing :: "TSParseAction list \<Rightarrow> bool" where
  "repeats_trailing actions =
     list_all tf_language_is_repeat_shift
       (drop (length (takeWhile (\<lambda>a. \<not> tf_language_is_repeat_shift a) actions)) actions)"

definition kept_actions :: "TSParseAction list \<Rightarrow> TSParseAction list" where
  "kept_actions actions = takeWhile (\<lambda>a. \<not> tf_language_is_repeat_shift a) actions"

lemma length_entry_actions [simp]:
  "length (entry_actions t index) = unat (pa_count (parse_actions t index))"
  by (simp add: entry_actions_def)

lemma kept_actions_filter:
  "repeats_trailing actions \<Longrightarrow>
     kept_actions actions = filter (\<lambda>a. \<not> tf_language_is_repeat_shift a) actions"
  unfolding kept_actions_def repeats_trailing_def by (rule takeWhile_eq_filter) simp

lemma length_kept_actions_less: "length (kept_actions (entry_actions t index)) < 256"
proof -
  have "length (kept_actions (entry_actions t index)) \<le> length (entry_actions t index)"
    unfolding kept_actions_def by (rule length_takeWhile_le)
  also have "\<dots> < 256" by simp
  finally show ?thesis .
qed

definition counts_ok :: "TSLanguage \<Rightarrow> nat \<Rightarrow> u8 list \<Rightarrow> bool" where
  "counts_ok t extent counts \<longleftrightarrow> length counts = extent \<and> (0 < extent \<longrightarrow> counts ! 0 = 0) \<and>
     (\<forall>i < extent. counts ! i \<noteq> 0 \<longrightarrow>
        counts ! i = of_nat (length (kept_actions (entry_actions t i))) \<and>
        repeats_trailing (entry_actions t i))"

lemma counts_ok_init: "counts_ok t extent (replicate extent 0)"
  by (simp add: counts_ok_def)

lemma count_step_cases:
  assumes "count_step t self extent (state, symbol) counts = Inr counts'"
    and "unat (tf_lookup self (of_nat state) (of_nat symbol)) = index"
  shows "index = 0 \<and> counts' = counts \<or>
         index \<noteq> 0 \<and> index < extent \<and> counts ! index \<noteq> 0 \<and> counts' = counts \<or>
         index \<noteq> 0 \<and> index < extent \<and> repeats_trailing (entry_actions t index) \<and>
           counts' = counts[index := of_nat (length (kept_actions (entry_actions t index)))]"
  using assms
  by (auto simp: count_step_def Let_def repeats_trailing_def kept_actions_def split: if_splits)

lemma count_step_ok:
  assumes "counts_ok t extent counts" and "count_step t self extent p counts = Inr counts'"
  shows "counts_ok t extent counts'"
proof -
  obtain state symbol where p: "p = (state, symbol)" by (cases p)
  show ?thesis
    using count_step_cases [OF assms(2) [unfolded p] refl] assms(1)
    by (auto simp: counts_ok_def nth_list_update split: if_splits)
qed

text \<open>After the pass over a pair its entry's count is final.\<close>

definition count_settled :: "TSLanguage \<Rightarrow> nat \<Rightarrow> nat \<Rightarrow> u8 list \<Rightarrow> bool" where
  "count_settled t extent index counts \<longleftrightarrow>
     index < extent \<and> counts ! index = of_nat (length (kept_actions (entry_actions t index))) \<and>
     repeats_trailing (entry_actions t index)"

lemma count_step_settles:
  assumes "counts_ok t extent counts" and "count_step t self extent (state, symbol) counts = Inr counts'"
    and "unat (tf_lookup self (of_nat state) (of_nat symbol)) = index" and "index \<noteq> 0"
  shows "count_settled t extent index counts'"
  using count_step_cases [OF assms(2,3)] assms(1,4)
  by (auto simp: count_settled_def counts_ok_def)

lemma count_step_keeps_settled:
  assumes "counts_ok t extent counts" and "count_settled t extent index counts"
    and "count_step t self extent p counts = Inr counts'"
  shows "count_settled t extent index counts'"
proof -
  obtain state symbol where p: "p = (state, symbol)" by (cases p)
  show ?thesis
    using count_step_cases [OF assms(3) [unfolded p] refl] assms(1,2)
    by (auto simp: count_settled_def counts_ok_def nth_list_update)
qed

lemma counts_settled:
  assumes "fold_err (count_step t self extent) (state_terminals t) (replicate extent 0) = Inr counts"
    and "(state, symbol) \<in> set (state_terminals t)"
    and "unat (tf_lookup self (of_nat state) (of_nat symbol)) = index" and "index \<noteq> 0"
  shows "count_settled t extent index counts"
  by (rule fold_err_established [where I = "counts_ok t extent", OF assms(1,2) counts_ok_init])
     (use assms(3,4) in \<open>auto intro: count_step_ok count_step_settles count_step_keeps_settled\<close>)

lemma counts_loop_ok:
  assumes "fold_err (count_step t self extent) (state_terminals t) (replicate extent 0) = Inr counts"
  shows "counts_ok t extent counts"
  by (rule fold_err_invariant [where I = "counts_ok t extent", OF assms counts_ok_init])
     (rule count_step_ok)

lemma tf_lookup_cong:
  "dense a = dense b \<Longrightarrow> ts a = ts b \<Longrightarrow> tf_lookup a = tf_lookup b"
  by (simp add: tf_lookup_def fun_eq_iff)

text \<open>The guard on the extent never fires: the extent was taken over the same pairs.\<close>

lemma count_step_no_index_error:
  assumes "p \<in> set (state_terminals t)" and "extent = tf_language_action_table_extent t self"
  shows "count_step t self extent p counts
           \<noteq> Inl ''parse table refers to an action index that does not exist''"
proof -
  obtain state symbol where p: "p = (state, symbol)" by (cases p)
  show ?thesis
    using action_table_extent_ge [of state symbol t self] assms
    by (cases "tf_lookup self (of_nat state) (of_nat symbol) = 0")
       (auto simp: p count_step_def Let_def unat_eq_zero)
qed

lemma fold_err_not_error:
  assumes "\<And>x s. x \<in> set xs \<Longrightarrow> f x s \<noteq> Inl e"
  shows "fold_err f xs s \<noteq> Inl e"
  using assms by (induction xs arbitrary: s) (auto split: sum.splits)

section \<open>The flattened field maps\<close>

lemma width_step_ge: "w \<le> width_step e w"
  by (simp add: width_step_def)

lemma fold_width_ge: "w \<le> fold width_step es w"
  by (induction es arbitrary: w) (auto intro: order_trans [OF width_step_ge])

lemma fold_width_entry:
  "e \<in> set es \<Longrightarrow> \<not> fm_inherited e \<Longrightarrow> unat (fm_child_index e) < fold width_step es w"
proof (induction es arbitrary: w)
  case Nil
  then show ?case by simp
next
  case (Cons x es)
  have "unat (fm_child_index x) < width_step x w" if "\<not> fm_inherited x"
    using that by (simp add: width_step_def)
  then show ?case
    using Cons fold_width_ge [of "width_step x w" es] by (auto intro: less_le_trans)
qed

lemma fold_width_productions_ge:
  "w \<le> fold (\<lambda>p w. fold width_step (tf_field_map t p) w) ps w"
  by (induction ps arbitrary: w) (auto intro: order_trans [OF fold_width_ge])

lemma fold_width_productions_entry:
  assumes "p \<in> set ps" and "e \<in> set (tf_field_map t p)" and "\<not> fm_inherited e"
  shows "unat (fm_child_index e) < fold (\<lambda>p w. fold width_step (tf_field_map t p) w) ps w"
  using assms(1)
proof (induction ps arbitrary: w)
  case Nil
  then show ?case by simp
next
  case (Cons q ps)
  show ?case
  proof (cases "p = q")
    case True
    have "unat (fm_child_index e) < fold width_step (tf_field_map t q) w"
      using assms(2,3) True by (simp add: fold_width_entry)
    also have "\<dots> \<le> fold (\<lambda>p w. fold width_step (tf_field_map t p) w) ps \<dots>"
      by (rule fold_width_productions_ge)
    finally show ?thesis by simp
  next
    case False
    then show ?thesis using Cons by simp
  qed
qed

lemma direct_entry_width:
  assumes "p < unat (production_id_count t)" and "e \<in> set (tf_field_map t p)" and "\<not> fm_inherited e"
  shows "unat (fm_child_index e) < field_map_width t"
  unfolding field_map_width_def by (rule fold_width_productions_entry) (use assms in auto)

lemma length_field_step [simp]: "length (field_step w p e d) = length d"
  by (simp add: field_step_def Let_def)

lemma length_fold_field_step [simp]: "length (fold (field_step w p) es d) = length d"
  by (induction es arbitrary: d) auto

definition find_direct :: "TSFieldMapEntry list \<Rightarrow> nat \<Rightarrow> TSFieldId" where
  "find_direct es child =
     (case find (\<lambda>e. \<not> fm_inherited e \<and> unat (fm_child_index e) = child \<and> fm_field_id e \<noteq> 0) es
      of None \<Rightarrow> 0 | Some e \<Rightarrow> fm_field_id e)"

lemma direct_field_find: "direct_field t p child = find_direct (tf_field_map t p) child"
  by (simp add: direct_field_def find_direct_def)

text \<open>One production's entries fill its own row, the first one to name a child winning.\<close>

lemma fold_field_step_nth:
  assumes "i < w" and "q * w + i < length d"
    and "\<forall>e \<in> set es. \<not> fm_inherited e \<longrightarrow> unat (fm_child_index e) < w"
  shows "fold (field_step w p) es d ! (q * w + i) =
     (if p = q \<and> d ! (q * w + i) = 0 then find_direct es i else d ! (q * w + i))"
  using assms(2,3)
proof (induction es arbitrary: d)
  case Nil
  then show ?case by (simp add: find_direct_def)
next
  case (Cons e es)
  have "field_step w p e d ! (q * w + i) =
      (if p = q \<and> \<not> fm_inherited e \<and> unat (fm_child_index e) = i \<and> d ! (q * w + i) = 0
       then fm_field_id e else d ! (q * w + i))"
    using Cons.prems row_index_eq [of "unat (fm_child_index e)" w i p q] assms(1)
    by (auto simp: field_step_def Let_def nth_list_update)
  then show ?case using Cons by (auto simp: find_direct_def)
qed

lemma fold_productions_nth:
  assumes "i < w" and "q * w + i < length d" and "distinct ps"
    and "\<forall>p \<in> set ps. \<forall>e \<in> set (tf_field_map t p). \<not> fm_inherited e \<longrightarrow> unat (fm_child_index e) < w"
  shows "fold (\<lambda>p. fold (field_step w p) (tf_field_map t p)) ps d ! (q * w + i) =
     (if q \<in> set ps \<and> d ! (q * w + i) = 0 then direct_field t q i else d ! (q * w + i))"
  using assms(2-)
proof (induction ps arbitrary: d)
  case Nil
  then show ?case by simp
next
  case (Cons p ps)
  have "fold (field_step w p) (tf_field_map t p) d ! (q * w + i) =
      (if p = q \<and> d ! (q * w + i) = 0 then direct_field t q i else d ! (q * w + i))"
    using Cons.prems by (simp add: fold_field_step_nth [OF assms(1)] direct_field_find)
  then show ?case using Cons by auto
qed

lemma length_flatten_field_map [simp]:
  "length (flatten_field_map t w) = unat (production_id_count t) * w"
proof -
  have "length (fold (\<lambda>p. fold (field_step w p) (tf_field_map t p)) ps d) = length d" for ps d
    by (induction ps arbitrary: d) auto
  then show ?thesis by (simp add: flatten_field_map_def)
qed

lemma flatten_field_map_nth:
  assumes "p < unat (production_id_count t)" and "i < field_map_width t"
  shows "flatten_field_map t (field_map_width t) ! (p * field_map_width t + i) = direct_field t p i"
proof -
  have "p * field_map_width t + i < unat (production_id_count t) * field_map_width t"
    using assms by (rule row_index_less)
  then show ?thesis
    unfolding flatten_field_map_def
    using assms direct_entry_width by (subst fold_productions_nth) auto
qed

lemma direct_field_outside:
  assumes "p < unat (production_id_count t)" and "field_map_width t \<le> i"
  shows "direct_field t p i = 0"
proof -
  have "find (\<lambda>e. \<not> fm_inherited e \<and> unat (fm_child_index e) = i \<and> fm_field_id e \<noteq> 0)
          (tf_field_map t p) = None"
    using direct_entry_width [OF assms(1)] assms(2) by (fastforce simp: find_None_iff)
  then show ?thesis by (simp add: direct_field_def)
qed

section \<open>The aliasable symbols\<close>

lemma scan_alias_map_length:
  "scan_alias_map m flags = Some flags' \<Longrightarrow> length flags' = length flags"
  by (induction m flags rule: scan_alias_map.induct) (auto split: if_splits)

lemma scan_alias_map_nth:
  assumes "scan_alias_map m flags = Some flags'" and "unat s < length flags"
  shows "flags' ! unat s \<longleftrightarrow> flags ! unat s \<or> alias_listed m s"
  using assms
proof (induction m flags rule: scan_alias_map.induct)
  case (3 symbol n rest flags)
  then show ?case
    by (cases "symbol = 0") (auto simp: alias_listed_Cons nth_list_update word_unat_eq_iff)
qed (auto split: if_splits)

section \<open>A loaded language\<close>

lemma count_step_cong: "tf_lookup a = tf_lookup b \<Longrightarrow> count_step t a = count_step t b"
  by (simp add: count_step_def fun_eq_iff)

lemma extent_cong:
  "tf_lookup a = tf_lookup b \<Longrightarrow>
     tf_language_action_table_extent t a = tf_language_action_table_extent t b"
proof -
  assume "tf_lookup a = tf_lookup b"
  then have "extent_step t a = extent_step t b" by (simp add: extent_step_def fun_eq_iff)
  then show ?thesis by (simp add: tf_language_action_table_extent_def)
qed

lemma tf_actions_cong:
  "tf_lookup a = tf_lookup b \<Longrightarrow> ts a = ts b \<Longrightarrow> action_counts a = action_counts b \<Longrightarrow>
     tf_actions a = tf_actions b"
  by (simp add: tf_actions_def fun_eq_iff)

text \<open>The checks a loaded grammar has passed.\<close>

definition load_checks :: "TSLanguage \<Rightarrow> bool" where
  "load_checks t \<longleftrightarrow> abi_version t = 15 \<and> symbol_count t \<noteq> 0 \<and> state_count t \<noteq> 0 \<and>
     token_count t \<noteq> 0 \<and> production_id_count t \<noteq> 0 \<and> external_token_count t = 0 \<and>
     list_all (\<lambda>state. lex_state (lex_modes t state) \<noteq> 0xFFFF) [0..<unat (state_count t)] \<and>
     table_cells t \<le> 64 * 1024 * 1024"

definition load_allocs :: "TSLanguage \<Rightarrow> bool list \<Rightarrow> (alloc_site \<times> nat) list" where
  "load_allocs t al =
     [(A_language, 1), (A_dense, unat (table_cells t))] @
     (if field_map_width t > 0 then [(A_field_at, unat (production_id_count t) * field_map_width t)] else []) @
     [(A_aliasable, unat (symbol_count t)),
      (A_action_counts, tf_language_action_table_extent t (probe_language t al)),
      (A_accepts_end, unat (state_count t))]"

text \<open>The loader succeeds exactly when every check passes and every allocation is granted.\<close>

lemma load_Inr_iff:
  "tf_language_load mem (Some t) = Inr lang \<longleftrightarrow>
     load_checks t \<and>
     (\<exists>al counts.
        scan_alias_map (alias_map t) (replicate (unat (symbol_count t)) False) = Some al \<and>
        list_all (\<lambda>(site, n). mem site n) (load_allocs t al) \<and>
        count_actions t (probe_language t al) = Inr counts \<and>
        lang = finish_language (probe_language t al) counts)"
  (is "?l = ?r")
proof -
  have lex: "list_ex (\<lambda>state. lex_state (lex_modes t state) = 0xFFFF) [0..<unat (state_count t)]
      \<longleftrightarrow> \<not> list_all (\<lambda>state. lex_state (lex_modes t state) \<noteq> 0xFFFF) [0..<unat (state_count t)]"
    by (simp add: list_ex_iff list_all_iff)
  show ?thesis
  proof (cases "load_checks t")
    case False
    then consider "abi_version t \<noteq> 15"
      | "symbol_count t = 0 \<or> state_count t = 0 \<or> token_count t = 0 \<or> production_id_count t = 0"
      | "external_token_count t \<noteq> 0"
      | "list_ex (\<lambda>state. lex_state (lex_modes t state) = 0xFFFF) [0..<unat (state_count t)]"
      | "table_cells t > 64 * 1024 * 1024"
      unfolding load_checks_def lex by (auto simp: not_le)
    then have "tf_language_load mem (Some t) \<noteq> Inr lang"
      by cases (simp_all add: tf_language_load_def Let_def)
    with False show ?thesis by simp
  next
    case True
    note checks = True [unfolded load_checks_def]
    show ?thesis
    proof (cases "scan_alias_map (alias_map t) (replicate (unat (symbol_count t)) False)")
      case None
      then show ?thesis
        by (simp add: tf_language_load_def Let_def)
    next
      case (Some al)
      have load: "tf_language_load mem (Some t) =
          (if mem A_language 1 \<and> mem A_dense (unat (table_cells t)) \<and>
              (field_map_width t > 0 \<longrightarrow> mem A_field_at (unat (production_id_count t) * field_map_width t)) \<and>
              mem A_aliasable (unat (symbol_count t)) \<and>
              mem A_action_counts (tf_language_action_table_extent t (probe_language t al))
           then (case count_actions t (probe_language t al) of
               Inl e \<Rightarrow> Inl (Load_Error e)
             | Inr counts \<Rightarrow>
                if \<not> mem A_accepts_end (unat (state_count t)) then Inl (Load_Error ''out of memory'')
                else Inr (finish_language (probe_language t al) counts))
           else Inl (Load_Error ''out of memory''))"
        using checks Some by (simp add: tf_language_load_def lex Let_def not_less [symmetric])
      then show ?thesis
        using True Some by (auto simp: load_allocs_def split: sum.splits if_splits)
    qed
  qed
qed

subsection \<open>The arrays of a loaded language\<close>

lemma load_Inr_shape:
  assumes "tf_language_load mem (Some t) = Inr lang"
  shows "ts lang = t" and "dense lang = expand_parse_table t"
    and "field_at_width lang = of_nat (field_map_width t)"
    and "field_at lang =
           (if field_map_width t > 0 then flatten_field_map t (field_map_width t) else [])"
    and "scan_alias_map (alias_map t) (replicate (unat (symbol_count t)) False) = Some (aliasable lang)"
    and "count_actions t lang = Inr (action_counts lang)"
    and "accepts_end lang = map (end_accepted lang) [0..<unat (state_count t)]"
    and "load_checks t"
proof -
  obtain al counts where
    al: "scan_alias_map (alias_map t) (replicate (unat (symbol_count t)) False) = Some al" and
    counts: "count_actions t (probe_language t al) = Inr counts" and
    lang: "lang = finish_language (probe_language t al) counts" and checks: "load_checks t"
    using assms unfolding load_Inr_iff by blast
  have same: "tf_lookup lang = tf_lookup (probe_language t al)"
    by (rule tf_lookup_cong) (simp_all add: lang finish_language_def probe_language_def Let_def)
  show "ts lang = t" "dense lang = expand_parse_table t"
    "field_at_width lang = of_nat (field_map_width t)"
    "field_at lang = (if field_map_width t > 0 then flatten_field_map t (field_map_width t) else [])"
    by (simp_all add: lang finish_language_def probe_language_def Let_def)
  show "scan_alias_map (alias_map t) (replicate (unat (symbol_count t)) False) = Some (aliasable lang)"
    using al by (simp add: lang finish_language_def probe_language_def Let_def)
  show "count_actions t lang = Inr (action_counts lang)"
    using counts same
    by (simp add: count_actions_def count_step_cong [OF same] extent_cong [OF same] Let_def)
       (simp add: lang finish_language_def Let_def)
  have "end_accepted lang = end_accepted ((probe_language t al)\<lparr>action_counts := counts\<rparr>)"
    unfolding end_accepted_def fun_eq_iff
    by (intro allI arg_cong [where f = "\<lambda>f. f _ _ = _"] tf_actions_cong tf_lookup_cong)
       (simp_all add: lang finish_language_def probe_language_def Let_def)
  then show "accepts_end lang = map (end_accepted lang) [0..<unat (state_count t)]"
    by (simp add: lang finish_language_def probe_language_def Let_def)
  show "load_checks t" by (rule checks)
qed

text \<open>Looking a cell up in the expansion is reading the packed table.\<close>

lemma load_lookup:
  assumes "tf_language_load mem (Some t) = Inr lang" and "wf_tables t"
    and "unat state < unat (state_count t)" and "unat symbol < unat (symbol_count t)"
  shows "tf_lookup lang state symbol = packed_lookup t (unat state) symbol"
  using assms(2-4)
  by (simp add: tf_lookup_def load_Inr_shape [OF assms(1)] expand_parse_table_nth)

lemma load_lookup_in_bounds:
  assumes "tf_language_load mem (Some t) = Inr lang" and "wf_tables t"
    and "unat state < unat (state_count t)" and "unat symbol < unat (symbol_count t)"
  shows "unat state * unat (symbol_count (ts lang)) + unat symbol < length (dense lang)"
  using assms(2-4) row_index_less
  by (simp add: load_Inr_shape [OF assms(1)] length_expand_parse_table)

lemma mem_state_terminals:
  assumes "wf_tables t" and "unat state < unat (state_count t)" and "unat symbol < unat (token_count t)"
  shows "(unat state, unat symbol) \<in> set (state_terminals t)"
  using assms by (simp add: state_terminals_def)

lemma load_count_settled:
  assumes load: "tf_language_load mem (Some t) = Inr lang" and wf: "wf_tables t"
    and "unat state < unat (state_count t)" and "unat symbol < unat (token_count t)"
    and "tf_lookup lang state symbol \<noteq> 0"
  shows "count_settled t (length (action_counts lang)) (unat (tf_lookup lang state symbol))
           (action_counts lang)"
proof -
  let ?extent = "tf_language_action_table_extent t lang"
  have loop: "fold_err (count_step t lang ?extent) (state_terminals t) (replicate ?extent 0)
      = Inr (action_counts lang)"
    using load_Inr_shape(6) [OF load] by (simp add: count_actions_def Let_def)
  have "length (action_counts lang) = ?extent"
    using counts_loop_ok [OF loop] by (simp add: counts_ok_def)
  moreover have "count_settled t ?extent (unat (tf_lookup lang state symbol)) (action_counts lang)"
    by (rule counts_settled [OF loop mem_state_terminals [OF wf assms(3,4)]])
       (use assms(5) in \<open>simp_all add: unat_eq_zero\<close>)
  ultimately show ?thesis by simp
qed

lemma load_count_zero:
  assumes load: "tf_language_load mem (Some t) = Inr lang"
  shows "action_counts lang ! 0 = 0" and "0 < length (action_counts lang)"
proof -
  let ?extent = "tf_language_action_table_extent t lang"
  have loop: "fold_err (count_step t lang ?extent) (state_terminals t) (replicate ?extent 0)
      = Inr (action_counts lang)"
    using load_Inr_shape(6) [OF load] by (simp add: count_actions_def Let_def)
  show "action_counts lang ! 0 = 0" "0 < length (action_counts lang)"
    using counts_loop_ok [OF loop] action_table_extent_pos [of t lang] by (auto simp: counts_ok_def)
qed

text \<open>The actions the driver sees: the entry's, without its repeat shifts.\<close>

lemma load_actions:
  assumes load: "tf_language_load mem (Some t) = Inr lang" and wf: "wf_tables t"
    and "unat state < unat (state_count t)" and "unat symbol < unat (token_count t)"
  shows "tf_actions lang state symbol =
     (let index = packed_lookup t (unat state) symbol
      in if index = 0 then []
         else filter (\<lambda>a. \<not> tf_language_is_repeat_shift a) (entry_actions t (unat index)))"
proof -
  let ?index = "tf_lookup lang state symbol"
  have "unat symbol < unat (symbol_count t)"
    using assms(4) wf_tables_sizes [OF wf] by linarith
  then have index: "?index = packed_lookup t (unat state) symbol"
    by (rule load_lookup [OF load wf assms(3)])
  show ?thesis
  proof (cases "?index = 0")
    case True
    then show ?thesis
      using load_count_zero [OF load] index by (simp add: tf_actions_def)
  next
    case False
    let ?es = "entry_actions t (unat ?index)"
    have settled: "count_settled t (length (action_counts lang)) (unat ?index) (action_counts lang)"
      by (rule load_count_settled [OF load wf assms(3,4) False])
    have count: "unat (action_counts lang ! unat ?index) = length (kept_actions ?es)"
      using settled length_kept_actions_less [of t "unat ?index"]
      by (simp add: count_settled_def unat_of_nat)
    have "length (kept_actions ?es) \<le> length ?es"
      unfolding kept_actions_def by (rule length_takeWhile_le)
    then have "tf_actions lang state symbol = take (length (kept_actions ?es)) ?es"
      using load_Inr_shape(1) [OF load]
      by (auto simp: tf_actions_def Let_def count entry_actions_def take_map)
    also have "\<dots> = kept_actions ?es" by (simp add: kept_actions_def)
    also have "\<dots> = filter (\<lambda>a. \<not> tf_language_is_repeat_shift a) ?es"
      using settled by (intro kept_actions_filter) (simp add: count_settled_def)
    finally show ?thesis using False index by simp
  qed
qed

lemma load_aliasable:
  assumes "tf_language_load mem (Some t) = Inr lang" and "unat s < unat (symbol_count t)"
  shows "aliasable lang ! unat s \<longleftrightarrow> alias_listed (alias_map t) s"
  using scan_alias_map_nth [OF load_Inr_shape(5) [OF assms(1)]] assms(2) by simp

lemma load_aliasable_length:
  "tf_language_load mem (Some t) = Inr lang \<Longrightarrow> length (aliasable lang) = unat (symbol_count t)"
  using scan_alias_map_length [OF load_Inr_shape(5)] by simp

lemma load_accepts_end:
  assumes "tf_language_load mem (Some t) = Inr lang" and "wf_tables t"
    and "unat state < unat (state_count t)"
  shows "accepts_end lang ! unat state \<longleftrightarrow> tf_actions lang state ts_builtin_sym_end = [Accept]"
  using assms(3) by (simp add: load_Inr_shape [OF assms(1)] end_accepted_def)

text \<open>
  The flattened width fits the 32-bit field: an alias sequence has at most \<open>2 ^ 16\<close> columns
  and a child index is 8 bits.
\<close>

lemma field_map_width_less: "field_map_width t < 65536 + 256"
proof -
  have step: "fold width_step es w < 65792" if "w < 65792" for es w
    using that
  proof (induction es arbitrary: w)
    case Nil
    then show ?case by simp
  next
    case (Cons e es)
    have "unat (fm_child_index e) + 1 < 65792"
      using unat_u8_less [of "fm_child_index e"] by linarith
    then have "width_step e w < 65792"
      using Cons.prems by (simp add: width_step_def)
    then show ?case by (simp add: Cons.IH)
  qed
  have "fold (\<lambda>p w. fold width_step (tf_field_map t p) w) ps w < 65792" if "w < 65792" for ps w
    using that by (induction ps arbitrary: w) (simp_all add: step)
  moreover have "unat (max_alias_sequence_length t) < 65792"
    by (rule less_trans [OF unat_u16_less]) simp
  ultimately show ?thesis by (simp add: field_map_width_def)
qed

lemma load_field_at:
  assumes "tf_language_load mem (Some t) = Inr lang" and "p < unat (production_id_count t)"
    and "i < unat (field_at_width lang)"
  shows "field_at lang ! (p * unat (field_at_width lang) + i) = direct_field t p i"
    and "p * unat (field_at_width lang) + i < length (field_at lang)"
proof -
  have w: "unat (field_at_width lang) = field_map_width t"
    using field_map_width_less [of t] by (simp add: load_Inr_shape [OF assms(1)])
  then show "field_at lang ! (p * unat (field_at_width lang) + i) = direct_field t p i"
    and "p * unat (field_at_width lang) + i < length (field_at lang)"
    using assms(2,3)
    by (simp_all add: load_Inr_shape [OF assms(1)] flatten_field_map_nth row_index_less)
qed

lemma load_field_outside:
  assumes "tf_language_load mem (Some t) = Inr lang" and "p < unat (production_id_count t)"
    and "unat (field_at_width lang) \<le> i"
  shows "direct_field t p i = 0"
  using assms(2,3) field_map_width_less [of t]
  by (intro direct_field_outside) (simp_all add: load_Inr_shape [OF assms(1)])

text \<open>With memory granted, what is accepted is a condition on the tables alone.\<close>

definition loadable :: "TSLanguage \<Rightarrow> bool" where
  "loadable t \<longleftrightarrow> load_checks t \<and>
     scan_alias_map (alias_map t) (replicate (unat (symbol_count t)) False) \<noteq> None \<and>
     list_all (\<lambda>(state, symbol).
         let index = packed_lookup t state (of_nat symbol)
         in index = 0 \<or> repeats_trailing (entry_actions t (unat index)))
       (state_terminals t)"

lemma probe_lookup:
  assumes "wf_tables t" and "(state, symbol) \<in> set (state_terminals t)"
  shows "tf_lookup (probe_language t al) (of_nat state) (of_nat symbol)
           = packed_lookup t state (of_nat symbol)"
proof -
  have "state < unat (state_count t)" and "symbol < unat (token_count t)"
    using assms(2) by (auto simp: state_terminals_def)
  moreover from this have "state < 65536" and "symbol < 65536" and "symbol < unat (symbol_count t)"
    using wf_tables_sizes [OF assms(1)] by linarith+
  ultimately show ?thesis
    using expand_parse_table_nth [OF assms(1), of state "of_nat symbol"]
    by (simp add: tf_lookup_def probe_language_def)
qed

lemma count_step_total:
  assumes "wf_tables t" and "loadable t" and "p \<in> set (state_terminals t)"
  shows "\<exists>counts'. count_step t (probe_language t al)
           (tf_language_action_table_extent t (probe_language t al)) p counts = Inr counts'"
proof -
  obtain state symbol where p: "p = (state, symbol)" by (cases p)
  let ?i = "packed_lookup t state (of_nat symbol)"
  note look = probe_lookup [OF assms(1) assms(3) [unfolded p], of al]
  have "?i = 0 \<or> repeats_trailing (entry_actions t (unat ?i))"
    using assms(2,3) by (auto simp: loadable_def list_all_iff p Let_def)
  moreover have "unat ?i < tf_language_action_table_extent t (probe_language t al)" if "?i \<noteq> 0"
    using action_table_extent_ge [OF assms(3) [unfolded p], of "probe_language t al"] that
    by (simp add: look unat_eq_zero)
  ultimately show ?thesis
    by (cases "?i = 0") (auto simp: p count_step_def look Let_def repeats_trailing_def unat_eq_zero)
qed

lemma loadable_loads:
  assumes "wf_tables t" and "loadable t"
  shows "\<exists>lang. tf_language_load (\<lambda>_ _. True) (Some t) = Inr lang"
proof -
  obtain al where al: "scan_alias_map (alias_map t) (replicate (unat (symbol_count t)) False) = Some al"
    using assms(2) by (auto simp: loadable_def)
  have "\<exists>counts. count_actions t (probe_language t al) = Inr counts"
    unfolding count_actions_def Let_def by (rule fold_err_total) (rule count_step_total [OF assms])
  then obtain counts where "count_actions t (probe_language t al) = Inr counts" ..
  then show ?thesis
    using al assms(2) by (auto simp: load_Inr_iff loadable_def list_all_iff)
qed

lemma loads_loadable:
  assumes "wf_tables t" and load: "tf_language_load mem (Some t) = Inr lang"
  shows "loadable t"
proof -
  have "repeats_trailing (entry_actions t (unat (packed_lookup t state (of_nat symbol))))"
    if p: "(state, symbol) \<in> set (state_terminals t)" and nz: "packed_lookup t state (of_nat symbol) \<noteq> 0"
    for state symbol
  proof -
    have b: "state < unat (state_count t)" "symbol < unat (token_count t)"
      using p by (auto simp: state_terminals_def)
    then have n: "state < 65536" "symbol < 65536"
      using wf_tables_sizes [OF assms(1)] by linarith+
    have "tf_lookup lang (of_nat state) (of_nat symbol) = packed_lookup t state (of_nat symbol)"
      using load_lookup [OF load assms(1), of "of_nat state" "of_nat symbol"] b n
        wf_tables_sizes [OF assms(1)] by simp
    then show ?thesis
      using load_count_settled [OF load assms(1), of "of_nat state" "of_nat symbol"] b n nz
      by (simp add: count_settled_def)
  qed
  then show ?thesis
    using load_Inr_shape(5,8) [OF load]
    by (auto simp: loadable_def list_all_iff Let_def)
qed

lemma load_no_index_error:
  "tf_language_load mem (Some t)
     \<noteq> Inl (Load_Error ''parse table refers to an action index that does not exist'')"
proof -
  have "count_actions t self \<noteq> Inl ''parse table refers to an action index that does not exist''" for self
    unfolding count_actions_def Let_def
    by (rule fold_err_not_error) (rule count_step_no_index_error [OF _ refl])
  then show ?thesis
    by (auto simp: tf_language_load_def Let_def split: option.split sum.split)
qed

lemmas loaded_facts =
  load_Inr_shape(1) load_lookup load_actions load_aliasable load_accepts_end load_field_at

end
