(* ===== verification/Demo.thy ===== *)
theory Demo
  imports Language
begin

text \<open>
  A small grammar in the generator's table format, on which the hypotheses of the
  development's theorems are shown to hold together:
  \<^verbatim>\<open>source_file: repeat1(item);  item: identifier | "(" inner:item "end"\<close>,
  with \<^verbatim>\<open>#\<close> comments as extras, \<^verbatim>\<open>identifier\<close> as the word token and \<^verbatim>\<open>end\<close> as a keyword.
  States 0 and 1 are dense, the others packed; state 8 carries a \<^verbatim>\<open>SHIFT_REPEAT\<close>.
\<close>

definition tab :: "'a \<Rightarrow> 'a list \<Rightarrow> nat \<Rightarrow> 'a" where
  "tab d xs i = (if i < length xs then xs ! i else d)"

text \<open>
  Symbols: 0 end of file, 1 identifier, 2 \<^verbatim>\<open>(\<close>, 3 \<^verbatim>\<open>end\<close>, 4 comment, 5 source_file, 6 item,
  7 the hidden repetition. Entries of the action table: 1 shift the comment, 3 shift 2,
  5 shift 3, 7 shift 9, 9 accept, 11 reduce item/1, 13 reduce item/3, 15 reduce the
  repetition/1, 17 reduce source_file/1, 19 reduce the repetition/2, 21 the same with a
  repeat shift after it.
\<close>

definition demo_entry :: "u8 \<Rightarrow> TSParseActionEntry" where
  "demo_entry n = \<lparr>pa_action = Recover, pa_count = n, pa_reusable = True\<rparr>"

definition demo_action :: "TSParseAction \<Rightarrow> TSParseActionEntry" where
  "demo_action a = \<lparr>pa_action = a, pa_count = 0, pa_reusable = False\<rparr>"

definition demo_actions :: "TSParseActionEntry list" where
  "demo_actions =
    [demo_entry 0,
     demo_entry 1, demo_action (Shift 0 True False),
     demo_entry 1, demo_action (Shift 2 False False),
     demo_entry 1, demo_action (Shift 3 False False),
     demo_entry 1, demo_action (Shift 9 False False),
     demo_entry 1, demo_action Accept,
     demo_entry 1, demo_action (Reduce 1 6 0 0),
     demo_entry 1, demo_action (Reduce 3 6 0 1),
     demo_entry 1, demo_action (Reduce 1 7 0 0),
     demo_entry 1, demo_action (Reduce 1 5 0 0),
     demo_entry 1, demo_action (Reduce 2 7 0 0),
     demo_entry 2, demo_action (Reduce 2 7 0 0), demo_action (Shift 2 False True)]"

definition demo_parse_table :: "u16 list" where
  "demo_parse_table = [0, 0, 0, 0, 0, 0, 0, 0,   0, 3, 5, 0, 1, 4, 6, 5]"

text \<open>One packed row per state from 2 on: the group count, then value, length, symbols.\<close>

definition demo_small_table :: "u16 list" where
  "demo_small_table =
    [2,  11, 4, 0, 1, 2, 3,  1, 1, 4,
     4,  3, 1, 1,  5, 1, 2,  7, 1, 6,  1, 1, 4,
     2,  9, 1, 0,  1, 1, 4,
     5,  17, 1, 0,  3, 1, 1,  5, 1, 2,  8, 1, 6,  1, 1, 4,
     2,  15, 3, 0, 1, 2,  1, 1, 4,
     2,  7, 1, 3,  1, 1, 4,
     3,  19, 2, 0, 2,  21, 1, 1,  1, 1, 4,
     2,  13, 4, 0, 1, 2, 3,  1, 1, 4]"

definition demo_small_map :: "u32 list" where
  "demo_small_map = [0, 10, 23, 30, 46, 55, 62, 73]"

definition is_letter :: "int \<Rightarrow> bool" where
  "is_letter c \<longleftrightarrow> 97 \<le> c \<and> c \<le> 122"

definition demo_lex :: "TSStateId \<Rightarrow> lex_row" where
  "demo_lex s =
    (if s = 0 then \<lparr>row_accept = None, row_move = (\<lambda>c eof.
         if eof then ADVANCE 1 else if c = 40 then ADVANCE 2 else if c = 35 then ADVANCE 4
         else if c = 32 \<or> c = 10 then SKIP 0 else if is_letter c then ADVANCE 3 else END_STATE)\<rparr>
     else if s = 1 then \<lparr>row_accept = Some 0, row_move = (\<lambda>c eof. END_STATE)\<rparr>
     else if s = 2 then \<lparr>row_accept = Some 2, row_move = (\<lambda>c eof. END_STATE)\<rparr>
     else if s = 3 then \<lparr>row_accept = Some 1, row_move = (\<lambda>c eof. if is_letter c then ADVANCE 3 else END_STATE)\<rparr>
     else if s = 4 then \<lparr>row_accept = Some 4, row_move = (\<lambda>c eof. if c \<noteq> 0 \<and> c \<noteq> 10 then ADVANCE 4 else END_STATE)\<rparr>
     else \<lparr>row_accept = None, row_move = (\<lambda>c eof. END_STATE)\<rparr>)"

definition demo_keyword_lex :: "TSStateId \<Rightarrow> lex_row" where
  "demo_keyword_lex s =
    (if s = 0 then \<lparr>row_accept = None, row_move = (\<lambda>c eof. if c = 101 then ADVANCE 1 else END_STATE)\<rparr>
     else if s = 1 then \<lparr>row_accept = None, row_move = (\<lambda>c eof. if c = 110 then ADVANCE 2 else END_STATE)\<rparr>
     else if s = 2 then \<lparr>row_accept = None, row_move = (\<lambda>c eof. if c = 100 then ADVANCE 3 else END_STATE)\<rparr>
     else if s = 3 then \<lparr>row_accept = Some 3, row_move = (\<lambda>c eof. END_STATE)\<rparr>
     else \<lparr>row_accept = None, row_move = (\<lambda>c eof. END_STATE)\<rparr>)"

definition demo_metadata :: "TSSymbolMetadata list" where
  "demo_metadata =
    (let vis = (\<lambda>v n. \<lparr>md_visible = v, md_named = n, md_supertype = False\<rparr>)
     in [vis False True, vis True True, vis True False, vis True False, vis True True,
         vis True True, vis True True, vis False False])"

definition demo :: TSLanguage where
  "demo = \<lparr>
     abi_version = 15, symbol_count = 8, alias_count = 0, token_count = 5,
     external_token_count = 0, state_count = 10, large_state_count = 2,
     production_id_count = 2, field_count = 1, max_alias_sequence_length = 3,
     parse_table = tab 0 demo_parse_table, small_parse_table = tab 0 demo_small_table,
     small_parse_table_map = tab 0 demo_small_map,
     parse_actions = tab (demo_entry 0) demo_actions,
     symbol_names = tab [] [''end'', ''identifier'', ''('', ''end'', ''comment'', ''source_file'', ''item'', ''source_file_repeat1''],
     field_names = tab [] [[], ''inner''],
     field_map_slices = tab \<lparr>slice_index = 0, slice_length = 0\<rparr>
       [\<lparr>slice_index = 0, slice_length = 0\<rparr>, \<lparr>slice_index = 0, slice_length = 1\<rparr>],
     field_map_entries = (\<lambda>_. \<lparr>fm_field_id = 1, fm_child_index = 1, fm_inherited = False\<rparr>),
     symbol_metadata = tab \<lparr>md_visible = False, md_named = False, md_supertype = False\<rparr> demo_metadata,
     public_symbol_map = of_nat, alias_map = [0], alias_sequences = (\<lambda>_. 0),
     lex_modes = (\<lambda>_. \<lparr>lex_state = 0, external_lex_state = 0, reserved_word_set_id = 0\<rparr>),
     lex_fn = demo_lex, keyword_lex_fn = demo_keyword_lex, keyword_capture_token = 1,
     reserved_words = (\<lambda>_. 0), max_reserved_word_set_size = 0\<rparr>"

definition demo_lang :: TFLanguage where
  "demo_lang = (case tf_language_load (\<lambda>_ _. True) (Some demo) of Inr l \<Rightarrow> l
                | Inl _ \<Rightarrow> probe_language demo [])"

lemma wf_tables_demo: "wf_tables demo"
  by code_simp

lemma demo_loads: "tf_language_load (\<lambda>_ _. True) (Some demo) = Inr demo_lang"
proof -
  have "case tf_language_load (\<lambda>_ _. True) (Some demo) of Inr _ \<Rightarrow> True | Inl _ \<Rightarrow> False"
    by code_simp
  then show ?thesis
    by (auto simp: demo_lang_def split: sum.splits)
qed

text \<open>What the loader makes of it, written out so that evaluation need not load it again.\<close>

lemma demo_lang_arrays:
  "dense demo_lang =
     [0, 0, 0, 0, 0, 0, 0, 0,  0, 3, 5, 0, 1, 4, 6, 5,  11, 11, 11, 11, 1, 0, 0, 0,
      0, 3, 5, 0, 1, 0, 7, 0,  9, 0, 0, 0, 1, 0, 0, 0,  17, 3, 5, 0, 1, 0, 8, 0,
      15, 15, 15, 0, 1, 0, 0, 0,  0, 0, 0, 7, 1, 0, 0, 0,  19, 21, 19, 0, 1, 0, 0, 0,
      13, 13, 13, 13, 1, 0, 0, 0]"
  "action_counts demo_lang = [0, 1, 0, 1, 0, 1, 0, 1, 0, 1, 0, 1, 0, 1, 0, 1, 0, 1, 0, 1, 0, 1, 0, 0]"
  "field_at demo_lang = [0, 0, 0, 0, 1, 0]" "field_at_width demo_lang = 3"
  "aliasable demo_lang = replicate 8 False"
  "accepts_end demo_lang = [False, False, False, False, True, False, False, False, False, False]"
  by code_simp+

lemma ts_demo_lang [simp]: "ts demo_lang = demo"
  using load_Inr_shape(1) [OF demo_loads] .

lemma demo_lang_eq:
  "demo_lang = \<lparr>ts = demo, dense =
     [0, 0, 0, 0, 0, 0, 0, 0,  0, 3, 5, 0, 1, 4, 6, 5,  11, 11, 11, 11, 1, 0, 0, 0,
      0, 3, 5, 0, 1, 0, 7, 0,  9, 0, 0, 0, 1, 0, 0, 0,  17, 3, 5, 0, 1, 0, 8, 0,
      15, 15, 15, 0, 1, 0, 0, 0,  0, 0, 0, 7, 1, 0, 0, 0,  19, 21, 19, 0, 1, 0, 0, 0,
      13, 13, 13, 13, 1, 0, 0, 0],
     action_counts = [0, 1, 0, 1, 0, 1, 0, 1, 0, 1, 0, 1, 0, 1, 0, 1, 0, 1, 0, 1, 0, 1, 0, 0],
     field_at = [0, 0, 0, 0, 1, 0], field_at_width = 3, aliasable = replicate 8 False,
     accepts_end = [False, False, False, False, True, False, False, False, False, False]\<rparr>"
  by (rule TFLanguage.equality) (simp_all only: demo_lang_arrays ts_demo_lang TFLanguage.simps, simp)

declare demo_lang_def [code del] and demo_lang_eq [code]

end
