(* ===== verification/Language_Props.thy ===== *)
theory Language_Props
  imports Demo
begin

text \<open>
  The properties of the loader, each with a witness on the demonstration grammar.
\<close>

text \<open>
  C1: the expansion is faithful. In a loaded language the indexed load of \<open>tf_lookup\<close>
  stays inside the expanded table and gives the value that scanning the packed table gives,
  for every state and symbol of the grammar.
\<close>

theorem load_lookup_packed:
  assumes "tf_language_load mem (Some t) = Inr lang" and "wf_tables t"
    and "unat state < unat (state_count t)" and "unat symbol < unat (symbol_count t)"
  shows "tf_lookup lang state symbol = packed_lookup t (unat state) symbol
     \<and> unat state * unat (symbol_count (ts lang)) + unat symbol < length (dense lang)"
  using load_lookup [OF assms] load_lookup_in_bounds [OF assms] by simp

theorem load_lookup_packed_witness: "tf_lookup demo_lang 5 6 = 8"
proof -
  have "unat (5 :: u16) < unat (state_count demo)" "unat (6 :: u16) < unat (symbol_count demo)"
    "packed_lookup demo (unat (5 :: u16)) 6 = 8"
    by code_simp+
  then show ?thesis
    using load_lookup_packed [OF demo_loads wf_tables_demo, of 5 6] by simp
qed

text \<open>
  C2: the driver never sees a SHIFT_REPEAT. The actions of a loaded language at a state and
  a terminal are the grammar's actions there, in order, without the repeat shifts.
\<close>

theorem load_actions_filtered:
  assumes "tf_language_load mem (Some t) = Inr lang" and "wf_tables t"
    and "unat state < unat (state_count t)" and "unat symbol < unat (token_count t)"
  shows "tf_actions lang state symbol =
     (if packed_lookup t (unat state) symbol = 0 then []
      else filter (\<lambda>a. \<not> tf_language_is_repeat_shift a)
             (entry_actions t (unat (packed_lookup t (unat state) symbol))))"
  using load_actions [OF assms] by (simp add: Let_def)

theorem load_actions_filtered_witness: "tf_actions demo_lang 8 1 = [Reduce 2 7 0 0]"
proof -
  have "unat (8 :: u16) < unat (state_count demo)" "unat (1 :: u16) < unat (token_count demo)"
    by code_simp+
  moreover have "(if packed_lookup demo (unat (8 :: u16)) 1 = 0 then []
      else filter (\<lambda>a. \<not> tf_language_is_repeat_shift a)
             (entry_actions demo (unat (packed_lookup demo (unat (8 :: u16)) 1)))) = [Reduce 2 7 0 0]"
    by code_simp
  ultimately show ?thesis
    using load_actions_filtered [OF demo_loads wf_tables_demo, of 8 1] by simp
qed

text \<open>
  C3: the flattened field map agrees with a scan of the production's field map: below the
  width it holds the first entry that names the child directly, and at or above the width
  no entry does.
\<close>

theorem load_fields_direct:
  assumes "tf_language_load mem (Some t) = Inr lang" and "p < unat (production_id_count t)"
  shows "direct_field t p i =
     (if i < unat (field_at_width lang) then field_at lang ! (p * unat (field_at_width lang) + i) else 0)"
  using load_field_at(1) [OF assms] load_field_outside [OF assms] by auto

theorem load_fields_direct_witness:
  "(if 1 < unat (field_at_width demo_lang)
    then field_at demo_lang ! (1 * unat (field_at_width demo_lang) + 1) else 0) = 1"
proof -
  have "(1 :: nat) < unat (production_id_count demo)" "direct_field demo 1 1 = 1"
    by code_simp+
  then show ?thesis
    using load_fields_direct [OF demo_loads, of 1 1] by simp
qed

text \<open>
  C4: which grammars load. With every allocation granted, loading succeeds exactly for the
  grammars that pass the checks: ABI 15, no empty table, no external scanner, no
  non-terminal extra, a table of at most 64 Mi cells, a terminated alias map, and every
  reachable action entry with its SHIFT_REPEAT actions at the end.
\<close>

theorem load_accepts_iff:
  assumes "wf_tables t"
  shows "(\<exists>lang. tf_language_load (\<lambda>_ _. True) (Some t) = Inr lang) \<longleftrightarrow> loadable t"
  using loadable_loads [OF assms] loads_loadable [OF assms] by blast

theorem load_accepts_iff_witness:
  "loadable demo \<and> \<not> (\<exists>lang. tf_language_load (\<lambda>_ _. True) (Some (demo\<lparr>abi_version := 14\<rparr>)) = Inr lang)"
proof -
  have "wf_tables (demo\<lparr>abi_version := 14\<rparr>)" by code_simp
  moreover have "\<not> loadable (demo\<lparr>abi_version := 14\<rparr>)" by (simp add: loadable_def load_checks_def)
  ultimately show ?thesis
    using load_accepts_iff [OF wf_tables_demo] load_accepts_iff demo_loads by blast
qed

text \<open>
  C6: the guard against an action index past the end of the action table never fires. The
  extent it compares with was taken as the maximum over the same state and terminal pairs,
  so no grammar is ever refused with that message.
\<close>

theorem load_index_guard_dead:
  "tf_language_load mem (Some t)
     \<noteq> Inl (Load_Error ''parse table refers to an action index that does not exist'')"
  by (rule load_no_index_error)

text \<open>
  C5: a symbol may be folded exactly when the grammar hides it and no production's alias
  can make it visible.
\<close>

theorem foldable_iff:
  assumes "tf_language_load mem (Some t) = Inr lang" and "unat s < unat (symbol_count t)"
  shows "tf_foldable lang s \<longleftrightarrow>
     \<not> alias_listed (alias_map t) s \<and> \<not> md_visible (tf_symbol_metadata lang s)"
  using load_aliasable [OF assms] by (simp add: tf_foldable_def)

theorem foldable_iff_witness: "tf_foldable demo_lang 7"
proof -
  have "unat (7 :: u16) < unat (symbol_count demo)" by code_simp
  moreover have "\<not> alias_listed (alias_map demo) 7" by (simp add: demo_def)
  moreover have "\<not> md_visible (tf_symbol_metadata demo_lang 7)"
    using load_Inr_shape(1) [OF demo_loads]
    by (simp add: tf_symbol_metadata_def ts_builtin_sym_error_def tf_builtin_sym_error_repeat_def
        demo_def demo_metadata_def tab_def Let_def)
  ultimately show ?thesis
    using foldable_iff [OF demo_loads, of 7] by simp
qed

end
