(* ===== verification/Utf8.thy ===== *)
theory Utf8
  imports Prelude
begin

text \<open>
  UTF-8 decoding (\<^verbatim>\<open>tf_utf8.h\<close>) against the encoding it inverts. The decoder reads a byte list
  of which \<open>available\<close> are readable; the specification is the encoder of Unicode scalar
  values, and the decoder is shown to be its exact inverse: right on every encoding, and an
  error on everything else.
\<close>

section \<open>The decoder\<close>

text \<open>\<^verbatim>\<open>TF_DECODE_ERROR\<close>.\<close>

definition TF_DECODE_ERROR :: int where
  "TF_DECODE_ERROR = -1"

text \<open>
  The \<^verbatim>\<open>int32_t\<close> result with the value of \<^verbatim>\<open>*length\<close> (\<open>len\<close>) after the call. Every read of \<open>s\<close> past its first
  byte comes after the check of \<open>available\<close> that allows it, as in the code.
\<close>

definition tf_utf8_next :: "u8 list \<Rightarrow> u32 \<Rightarrow> u32 \<Rightarrow> int \<times> u32" where
  "tf_utf8_next s available len =
    (let lead = s ! 0 in
     if lead < 0x80 then (uint lead, 1)
     else if lead < 0xC2 then (TF_DECODE_ERROR, len)
     else if lead < 0xE0 then
       (if available < 2 \<or> (s ! 1) AND 0xC0 \<noteq> 0x80 then (TF_DECODE_ERROR, len)
        else (sint (push_bit 6 (ucast (lead AND 0x1F)) OR ucast ((s ! 1) AND 0x3F) :: u32), 2))
     else if lead < 0xF0 then
       (if available < 3 \<or> (s ! 1) AND 0xC0 \<noteq> 0x80 \<or> (s ! 2) AND 0xC0 \<noteq> 0x80
        then (TF_DECODE_ERROR, len)
        else if (if lead = 0xE0 then s ! 1 < 0xA0 else lead = 0xED \<and> s ! 1 > 0x9F)
        then (TF_DECODE_ERROR, len)
        else (sint (push_bit 12 (ucast (lead AND 0x0F)) OR push_bit 6 (ucast ((s ! 1) AND 0x3F)) OR
                    ucast ((s ! 2) AND 0x3F) :: u32), 3))
     else if lead < 0xF5 then
       (if available < 4 \<or> (s ! 1) AND 0xC0 \<noteq> 0x80 \<or> (s ! 2) AND 0xC0 \<noteq> 0x80 \<or>
           (s ! 3) AND 0xC0 \<noteq> 0x80
        then (TF_DECODE_ERROR, len)
        else if (if lead = 0xF0 then s ! 1 < 0x90 else lead = 0xF4 \<and> s ! 1 > 0x8F)
        then (TF_DECODE_ERROR, len)
        else (sint (push_bit 18 (ucast (lead AND 0x07)) OR push_bit 12 (ucast ((s ! 1) AND 0x3F)) OR
                    push_bit 6 (ucast ((s ! 2) AND 0x3F)) OR ucast ((s ! 3) AND 0x3F) :: u32), 4))
     else (TF_DECODE_ERROR, len))"

section \<open>The encoding\<close>

text \<open>A Unicode scalar value: a code point that is not a surrogate half.\<close>

definition scalar_value :: "nat \<Rightarrow> bool" where
  "scalar_value c \<longleftrightarrow> c < 0x110000 \<and> \<not> (0xD800 \<le> c \<and> c < 0xE000)"

definition utf8_encode :: "nat \<Rightarrow> nat list" where
  "utf8_encode c =
    (if c < 0x80 then [c]
     else if c < 0x800 then [0xC0 + c div 64, 0x80 + c mod 64]
     else if c < 0x10000 then [0xE0 + c div 4096, 0x80 + c div 64 mod 64, 0x80 + c mod 64]
     else [0xF0 + c div 262144, 0x80 + c div 4096 mod 64, 0x80 + c div 64 mod 64, 0x80 + c mod 64])"

section \<open>Bytes and bit fields as numbers\<close>

text \<open>Facts about single bytes, checked for all 256 of them.\<close>

lemma all_bytes:
  assumes "list_all (\<lambda>n. P (of_nat n :: u8)) [0..<256]"
  shows "P b"
proof -
  have "unat b \<in> set [0..<256]" by simp
  then have "P (of_nat (unat b))" using assms unfolding list_all_iff by (rule bspec [rotated])
  then show ?thesis by simp
qed

lemma continuation_iff: "(b :: u8) AND 0xC0 = 0x80 \<longleftrightarrow> 128 \<le> unat b \<and> unat b < 192"
  by (rule all_bytes [where P = "\<lambda>b. b AND 0xC0 = 0x80 \<longleftrightarrow> 128 \<le> unat b \<and> unat b < 192"]) code_simp

lemma unat_and_masks:
  "unat ((b :: u8) AND 0x3F) = unat b mod 64"
  "unat (b AND 0x1F) = unat b mod 32"
  "unat (b AND 0x0F) = unat b mod 16"
  "unat (b AND 0x07) = unat b mod 8"
proof -
  have m: "(0x3F :: u8) = mask 6" "(0x1F :: u8) = mask 5" "(0x0F :: u8) = mask 4" "(0x07 :: u8) = mask 3"
    by code_simp+
  show "unat (b AND 0x3F) = unat b mod 64" "unat (b AND 0x1F) = unat b mod 32"
    "unat (b AND 0x0F) = unat b mod 16" "unat (b AND 0x07) = unat b mod 8"
    unfolding m take_bit_eq_mask [symmetric] unsigned_take_bit_eq by (simp_all add: take_bit_eq_mod)
qed

lemma unat_push_or:
  fixes a b :: u32
  assumes "unat b < 2 ^ n" and "unat a * 2 ^ n + unat b < 2 ^ 32"
  shows "unat (push_bit n a OR b) = unat a * 2 ^ n + unat b"
proof -
  have "unat a * 2 ^ n < 2 ^ 32" using assms(2) by linarith
  then have "unat (push_bit n a) = push_bit n (unat a)"
    unfolding unsigned_push_bit_eq by (simp add: push_bit_eq_mult take_bit_nat_eq_self)
  then have "unat (push_bit n a OR b) = (push_bit n (unat a) OR unat b)"
    by (simp add: unsigned_or_eq)
  also have "\<dots> = push_bit n (unat a) + unat b"
  proof (rule disjunctive_add [symmetric])
    fix m
    have "\<not> bit (unat b) m" if "n \<le> m"
      using assms(1) that by (metis bit_take_bit_iff not_less take_bit_nat_eq_self_iff)
    then show "\<not> bit (push_bit n (unat a)) m \<or> \<not> bit (unat b) m"
      by (auto simp: bit_push_bit_iff)
  qed
  finally show ?thesis by (simp add: push_bit_eq_mult)
qed

lemma sint_small:
  assumes "unat (x :: u32) < 2147483648"
  shows "sint x = int (unat x)"
proof -
  have "int (unat x) < 2147483648" using assms by linarith
  then have "uint x < 2147483648" by simp
  moreover have "- (2 ^ 31) \<le> uint x" by (rule order_trans [of _ 0]) simp_all
  ultimately have "sint x = uint x" by (simp add: sint_uint signed_take_bit_int_eq_self)
  then show ?thesis by simp
qed

text \<open>The value of a bit-field chain, most significant field first.\<close>

lemma unat_ucast_mask [simp]:
  "unat (ucast ((b :: u8) AND 0x3F) :: u32) = unat b mod 64"
  "unat (ucast (b AND 0x1F) :: u32) = unat b mod 32"
  "unat (ucast (b AND 0x0F) :: u32) = unat b mod 16"
  "unat (ucast (b AND 0x07) :: u32) = unat b mod 8"
  by (simp_all add: unat_and_masks)

lemma two_bytes_value:
  "sint (push_bit 6 (ucast ((a :: u8) AND 0x1F)) OR ucast ((b :: u8) AND 0x3F) :: u32)
     = int (unat a mod 32 * 64 + unat b mod 64)"
proof -
  have "unat a mod 32 < 32" "unat b mod 64 < 64" by simp_all
  then have "unat (push_bit 6 (ucast (a AND 0x1F)) OR ucast (b AND 0x3F) :: u32)
      = unat a mod 32 * 64 + unat b mod 64"
    by (subst unat_push_or) (simp_all add: unat_and_masks)
  then show ?thesis by (subst sint_small) simp_all
qed

lemma three_bytes_value:
  "sint (push_bit 12 (ucast ((a :: u8) AND 0x0F)) OR push_bit 6 (ucast ((b :: u8) AND 0x3F)) OR
         ucast ((c :: u8) AND 0x3F) :: u32)
     = int (unat a mod 16 * 4096 + unat b mod 64 * 64 + unat c mod 64)"
proof -
  have m: "unat a mod 16 < 16" "unat b mod 64 < 64" "unat c mod 64 < 64" by simp_all
  then have low: "unat (push_bit 6 (ucast (b AND 0x3F)) OR ucast (c AND 0x3F) :: u32)
      = unat b mod 64 * 64 + unat c mod 64"
    by (subst unat_push_or) (simp_all add: unat_and_masks)
  then have "unat (push_bit 12 (ucast (a AND 0x0F)) OR push_bit 6 (ucast (b AND 0x3F)) OR
        ucast (c AND 0x3F) :: u32) = unat a mod 16 * 4096 + (unat b mod 64 * 64 + unat c mod 64)"
    using m by (subst unat_push_or) (simp_all add: unat_and_masks)
  then show ?thesis by (subst sint_small) simp_all
qed

lemma four_bytes_value:
  "sint (push_bit 18 (ucast ((a :: u8) AND 0x07)) OR push_bit 12 (ucast ((b :: u8) AND 0x3F)) OR
         push_bit 6 (ucast ((c :: u8) AND 0x3F)) OR ucast ((d :: u8) AND 0x3F) :: u32)
     = int (unat a mod 8 * 262144 + unat b mod 64 * 4096 + unat c mod 64 * 64 + unat d mod 64)"
proof -
  have m: "unat a mod 8 < 8" "unat b mod 64 < 64" "unat c mod 64 < 64" "unat d mod 64 < 64"
    by simp_all
  then have "unat (push_bit 6 (ucast (c AND 0x3F)) OR ucast (d AND 0x3F) :: u32)
      = unat c mod 64 * 64 + unat d mod 64"
    by (subst unat_push_or) (simp_all add: unat_and_masks)
  then have "unat (push_bit 12 (ucast (b AND 0x3F)) OR push_bit 6 (ucast (c AND 0x3F)) OR
      ucast (d AND 0x3F) :: u32) = unat b mod 64 * 4096 + (unat c mod 64 * 64 + unat d mod 64)"
    using m by (subst unat_push_or) (simp_all add: unat_and_masks)
  then have "unat (push_bit 18 (ucast (a AND 0x07)) OR push_bit 12 (ucast (b AND 0x3F)) OR
        push_bit 6 (ucast (c AND 0x3F)) OR ucast (d AND 0x3F) :: u32)
      = unat a mod 8 * 262144 + (unat b mod 64 * 4096 + (unat c mod 64 * 64 + unat d mod 64))"
    using m by (subst unat_push_or) (simp_all add: unat_and_masks)
  then show ?thesis by (subst sint_small) simp_all
qed

section \<open>The decoder, in numbers\<close>

abbreviation cont :: "nat \<Rightarrow> bool" where
  "cont n \<equiv> 128 \<le> n \<and> n < 192"

text \<open>The decoder's branches over the numeric values of the bytes.\<close>

definition utf8_next_nat :: "nat list \<Rightarrow> nat \<Rightarrow> (nat \<times> nat) option" where
  "utf8_next_nat s available =
    (let a = s ! 0; b = s ! 1; c = s ! 2; d = s ! 3 in
     if a < 128 then Some (a, 1)
     else if a < 194 then None
     else if a < 224 then
       (if 2 \<le> available \<and> cont b then Some (a mod 32 * 64 + b mod 64, 2) else None)
     else if a < 240 then
       (if 3 \<le> available \<and> cont b \<and> cont c \<and> (a = 224 \<longrightarrow> 160 \<le> b) \<and> (a = 237 \<longrightarrow> b < 160)
        then Some (a mod 16 * 4096 + b mod 64 * 64 + c mod 64, 3) else None)
     else if a < 245 then
       (if 4 \<le> available \<and> cont b \<and> cont c \<and> cont d \<and> (a = 240 \<longrightarrow> 144 \<le> b) \<and> (a = 244 \<longrightarrow> b < 144)
        then Some (a mod 8 * 262144 + b mod 64 * 4096 + c mod 64 * 64 + d mod 64, 4) else None)
     else None)"

lemma tf_utf8_next_nat:
  assumes "unat available \<le> length s" and "0 < available"
  shows "tf_utf8_next s available len =
     (case utf8_next_nat (map unat s) (unat available) of
        None \<Rightarrow> (TF_DECODE_ERROR, len) | Some (c, n) \<Rightarrow> (int c, of_nat n))"
proof -
  have pos: "0 < unat available" using assms(2) by (simp add: word_less_nat_alt)
  have nth: "map unat s ! i = unat (s ! i)" if "i < unat available" for i
    using that assms(1) by simp
  have eq: "x = (y :: u8) \<longleftrightarrow> unat x = unat y" for x y by (simp add: word_unat_eq_iff)
  consider "unat (s ! 0) < 128" | "128 \<le> unat (s ! 0)" "unat (s ! 0) < 194"
    | "194 \<le> unat (s ! 0)" "unat (s ! 0) < 224" | "224 \<le> unat (s ! 0)" "unat (s ! 0) < 240"
    | "240 \<le> unat (s ! 0)" "unat (s ! 0) < 245" | "245 \<le> unat (s ! 0)"
    by linarith
  then show ?thesis
    unfolding tf_utf8_next_def utf8_next_nat_def Let_def
      two_bytes_value three_bytes_value four_bytes_value continuation_iff word_less_nat_alt
    using pos nth [of 0] nth [of 1] nth [of 2] nth [of 3]
    by cases (auto simp: eq not_le not_less)
qed

section \<open>The decoder inverts the encoder\<close>

text \<open>The payload of a byte is its offset from the marker bits.\<close>

lemma mod_window:
  fixes x k m :: nat
  assumes "k * m \<le> x" and "x < k * m + m"
  shows "x mod m = x - k * m"
proof -
  have "x = k * m + (x - k * m)" and "x - k * m < m" using assms by linarith+
  then show ?thesis by (metis mod_less mod_mult_self3)
qed

lemmas lead_windows = mod_window [of 6 32, simplified] mod_window [of 14 16, simplified]
  mod_window [of 30 8, simplified] mod_window [of 2 64, simplified]

lemma cont_mod [simp]: "x < 64 \<Longrightarrow> (128 + x) mod 64 = (x :: nat)"
  by (simp add: lead_windows)

text \<open>The base-64 digits of a code point.\<close>

lemma digits_unique:
  fixes q b d :: nat
  assumes "c = q * 4096 + b * 64 + d" and "b < 64" and "d < 64"
  shows "c div 4096 = q" and "c div 64 mod 64 = b" and "c mod 64 = d"
proof -
  define x where "x = b + 64 * q"
  have c: "c = d + 64 * x" using assms(1) by (simp add: x_def)
  then have d64: "c div 64 = b + 64 * q" using assms(3) by (simp add: x_def [symmetric])
  show "c mod 64 = d" using assms(3) by (simp add: c)
  show "c div 64 mod 64 = b" using assms(2) by (simp add: d64)
  have "c div 4096 = c div 64 div 64" by (simp add: div_mult2_eq [symmetric])
  then show "c div 4096 = q" using assms(2) by (simp add: d64)
qed

lemma base64_digits:
  fixes c :: nat
  obtains q b d where "c = q * 4096 + b * 64 + d" and "b < 64" and "d < 64"
    and "c div 4096 = q" and "c div 64 mod 64 = b" and "c mod 64 = d"
proof
  have "c div 4096 = c div 64 div 64" by (simp add: div_mult2_eq [symmetric])
  moreover have "c = 64 * (c div 64) + c mod 64" by simp
  moreover have "c div 64 = 64 * (c div 64 div 64) + c div 64 mod 64" by simp
  ultimately show "c = c div 4096 * 4096 + c div 64 mod 64 * 64 + c mod 64" by linarith
qed simp_all

lemma utf8_next_encode:
  assumes "scalar_value c" and "length (utf8_encode c) \<le> available"
  shows "utf8_next_nat (utf8_encode c @ rest) available = Some (c, length (utf8_encode c))"
proof -
  have lim: "c < 1114112" "c < 55296 \<or> 57344 \<le> c" using assms(1) by (auto simp: scalar_value_def)
  obtain q b d where c: "c = q * 4096 + b * 64 + d" "b < 64" "d < 64"
    and dig: "c div 4096 = q" "c div 64 mod 64 = b" "c mod 64 = d"
    by (rule base64_digits)
  consider "c < 128" | "128 \<le> c" "c < 2048" | "2048 \<le> c" "c < 65536" | "65536 \<le> c" by linarith
  then show ?thesis
  proof cases
    case 1
    then show ?thesis by (simp add: utf8_encode_def utf8_next_nat_def Let_def)
  next
    case 2
    have "c div 64 < 32" "2 \<le> c div 64" using 2 by simp_all
    moreover from this have "(192 + c div 64) mod 32 = c div 64" by (simp add: lead_windows)
    moreover have "(128 + c mod 64) mod 64 = c mod 64" by (subst lead_windows(4)) simp_all
    then have "c div 64 * 64 + (128 + c mod 64) mod 64 = c" by simp
    ultimately show ?thesis
      using 2 assms(2) less_mult_imp_div_less [of c 32 64]
      by (simp add: utf8_encode_def utf8_next_nat_def Let_def)
  next
    case 3
    have q: "q < 16" using 3 c by linarith
    then have "(224 + q) mod 16 = q" by (simp add: lead_windows)
    moreover have "q = 0 \<longrightarrow> 32 \<le> b" using 3 c by linarith
    moreover have "q = 13 \<longrightarrow> b < 32" using lim c by linarith
    ultimately show ?thesis
      using 3 assms(2) q c(2,3) by (simp add: utf8_encode_def utf8_next_nat_def dig Let_def c(1) [symmetric])
  next
    case 4
    obtain p r where q: "q = p * 64 + r" "r < 64" "c div 262144 = p" "c div 4096 mod 64 = r"
    proof
      show "q = c div 262144 * 64 + c div 4096 mod 64"
        using div_mult_mod_eq [of "c div 4096" 64] div_mult2_eq [of c 4096 64] dig(1) by simp
    qed simp_all
    have p: "p < 5" using lim c q by linarith
    then have "(240 + p) mod 8 = p" by (simp add: lead_windows)
    moreover have "p = 0 \<longrightarrow> 16 \<le> r" using 4 c q by linarith
    moreover have "p = 4 \<longrightarrow> r < 16" using lim c q by linarith
    moreover have "p * 262144 + r * 4096 + b * 64 + d = c" using c(1) q(1) by simp
    ultimately show ?thesis
      using 4 assms(2) p c(2,3) q(2-4) by (simp add: utf8_encode_def utf8_next_nat_def dig Let_def)
  qed
qed

lemma length_utf8_encode: "length (utf8_encode c) \<in> {1, 2, 3, 4}"
  by (simp add: utf8_encode_def)

text \<open>Conversely, whatever decodes is the encoding of a scalar value.\<close>

lemma take_nth_cases:
  "1 \<le> length s \<Longrightarrow> take 1 s = [s ! 0]"
  "2 \<le> length s \<Longrightarrow> take 2 s = [s ! 0, s ! 1]"
  "3 \<le> length s \<Longrightarrow> take 3 s = [s ! 0, s ! 1, s ! 2]"
  "4 \<le> length s \<Longrightarrow> take 4 s = [s ! 0, s ! 1, s ! 2, s ! 3]"
  by (auto intro!: nth_equalityI simp: nth_Cons' less_Suc_eq numeral_eq_Suc)

lemma utf8_next_sound:
  assumes "utf8_next_nat s available = Some (c, n)" and "available \<le> length s" and "0 < available"
  shows "scalar_value c \<and> n \<le> available \<and> take n s = utf8_encode c"
proof -
  let ?a = "s ! 0" and ?b = "s ! 1" and ?c = "s ! 2" and ?d = "s ! 3"
  note defs = assms(1) [unfolded utf8_next_nat_def Let_def]
  consider "?a < 128" | "194 \<le> ?a" "?a < 224" | "224 \<le> ?a" "?a < 240" | "240 \<le> ?a" "?a < 245"
    using defs by (auto split: if_splits)
  then show ?thesis
  proof cases
    case 1
    moreover have "take 1 s = [s ! 0]" using assms(2,3) by (intro take_nth_cases) linarith
    ultimately show ?thesis
      using defs assms(3) by (auto simp: scalar_value_def utf8_encode_def)
  next
    case 2
    then have h: "cont ?b" "2 \<le> available" "n = 2" "c = ?a mod 32 * 64 + ?b mod 64"
      using defs by (auto split: if_splits)
    have "?a mod 32 = ?a - 192" "?b mod 64 = ?b - 128" using 2 h(1) by (simp_all add: lead_windows)
    then have c: "c = (?a - 192) * 64 + (?b - 128)" "2 \<le> ?a - 192" "?a - 192 < 32" "?b - 128 < 64"
      using 2 h(1,4) by linarith+
    then have "c div 64 = ?a - 192" "c mod 64 = ?b - 128" by simp_all
    moreover have "128 \<le> c" "c < 2048" using c by linarith+
    moreover have "192 + (?a - 192) = ?a" "128 + (?b - 128) = ?b" using 2 h(1) by linarith+
    moreover have "2 \<le> length s" using h(2) assms(2) by linarith
    ultimately show ?thesis
      using h(2,3) by (simp add: scalar_value_def utf8_encode_def take_nth_cases)
  next
    case 3
    then have h: "cont ?b" "cont ?c" "3 \<le> available" "n = 3" "?a = 224 \<longrightarrow> 160 \<le> ?b" "?a = 237 \<longrightarrow> ?b < 160"
      "c = ?a mod 16 * 4096 + ?b mod 64 * 64 + ?c mod 64"
      using defs by (auto split: if_splits)
    have "?a mod 16 = ?a - 224" "?b mod 64 = ?b - 128" "?c mod 64 = ?c - 128"
      using 3 h(1,2) by (simp_all add: lead_windows)
    then have c: "c = (?a - 224) * 4096 + (?b - 128) * 64 + (?c - 128)"
        "?a - 224 < 16" "?b - 128 < 64" "?c - 128 < 64"
      using 3 h by linarith+
    note d = digits_unique [OF c(1,3,4)]
    have "c < 55296 \<or> 57344 \<le> c"
    proof (cases "?a \<le> 237")
      case True
      then show ?thesis using c h(1,6) by (cases "?a = 237") linarith+
    next
      case False
      then show ?thesis using c by linarith
    qed
    moreover have "2048 \<le> c" "c < 65536" using c h(1,5) 3 by linarith+
    moreover have "224 + (?a - 224) = ?a" "128 + (?b - 128) = ?b" "128 + (?c - 128) = ?c"
      using 3 h(1,2) by linarith+
    moreover have "3 \<le> length s" using h(3) assms(2) by linarith
    ultimately show ?thesis
      using h(3,4) d by (auto simp: scalar_value_def utf8_encode_def take_nth_cases)
  next
    case 4
    then have h: "cont ?b" "cont ?c" "cont ?d" "4 \<le> available" "n = 4"
      "?a = 240 \<longrightarrow> 144 \<le> ?b" "?a = 244 \<longrightarrow> ?b < 144"
      "c = ?a mod 8 * 262144 + ?b mod 64 * 4096 + ?c mod 64 * 64 + ?d mod 64"
      using defs by (auto split: if_splits)
    obtain A B C D where abcd: "?a = 240 + A" "?b = 128 + B" "?c = 128 + C" "?d = 128 + D"
      using 4 h(1-3) le_Suc_ex by meson
    have lim: "A < 5" "B < 64" "C < 64" "D < 64" using 4 h(1-3) abcd by linarith+
    then have c: "c = (A * 64 + B) * 4096 + C * 64 + D"
      using h(8) unfolding abcd by (simp add: lead_windows algebra_simps)
    note d = digits_unique [OF c lim(3,4)]
    have "c div 4096 mod 64 = B" using lim(2) by (simp add: d)
    moreover have "c div 262144 = A"
      using lim(2) div_mult2_eq [of c 4096 64] by (simp add: d)
    moreover have c': "c = A * 262144 + B * 4096 + C * 64 + D" using c by simp
    have "0 < A \<or> 16 \<le> B" using h(6) abcd lim(1) by auto
    then have "65536 \<le> c" using c' lim by (elim disjE) linarith+
    moreover have "A < 4 \<or> A = 4 \<and> B < 16" using h(7) abcd lim(1) by auto
    then have "c < 1114112" using c' lim by (elim disjE conjE) linarith+
    moreover have "4 \<le> length s" using h(4) assms(2) by linarith
    ultimately show ?thesis
      using h(4,5) d abcd by (auto simp: scalar_value_def utf8_encode_def take_nth_cases)
  qed
qed

section \<open>The decoder's contract\<close>

lemma utf8_encode_bytes: "scalar_value c \<Longrightarrow> n \<in> set (utf8_encode c) \<Longrightarrow> n < 256"
  by (auto simp: scalar_value_def utf8_encode_def split: if_splits)

text \<open>The encoding as bytes.\<close>

definition utf8_bytes :: "nat \<Rightarrow> u8 list" where
  "utf8_bytes c = map of_nat (utf8_encode c)"

lemma map_unat_utf8_bytes: "scalar_value c \<Longrightarrow> map unat (utf8_bytes c) = utf8_encode c"
  using utf8_encode_bytes [of c]
  by (auto simp: utf8_bytes_def unat_of_nat intro!: map_idI)

lemma length_utf8_bytes [simp]: "length (utf8_bytes c) = length (utf8_encode c)"
  by (simp add: utf8_bytes_def)

lemma tf_utf8_next_encode:
  assumes "scalar_value c" and "length (utf8_bytes c) \<le> unat available"
    and "unat available \<le> length (utf8_bytes c @ rest)"
  shows "tf_utf8_next (utf8_bytes c @ rest) available len = (int c, of_nat (length (utf8_bytes c)))"
proof -
  have "0 < unat available" using assms(2) length_utf8_encode [of c] by auto
  then have "0 < available" by (simp add: word_less_nat_alt)
  then show ?thesis
    using assms utf8_next_encode [of c "unat available" "map unat rest"]
    by (simp add: tf_utf8_next_nat map_unat_utf8_bytes)
qed

lemma tf_utf8_next_sound:
  assumes "tf_utf8_next s available len = (code, n)" and "code \<noteq> TF_DECODE_ERROR"
    and "unat available \<le> length s" and "0 < available"
  obtains c where "code = int c" and "scalar_value c" and "unat n = length (utf8_bytes c)"
    and "unat n \<le> unat available" and "take (unat n) s = utf8_bytes c"
proof -
  obtain c m where dec: "utf8_next_nat (map unat s) (unat available) = Some (c, m)"
    and code: "code = int c" and n: "n = of_nat m"
    using assms(1,2) tf_utf8_next_nat [OF assms(3,4), of len] by (auto split: option.splits)
  have c: "scalar_value c" "m \<le> unat available" "take m (map unat s) = utf8_encode c"
    using utf8_next_sound [OF dec] assms(3,4) by (auto simp: word_less_nat_alt)
  have "m < 4294967296" using c(2) by (rule le_less_trans) simp
  then have m: "unat n = m" by (simp add: n)
  have "take m s = map of_nat (map unat (take m s))" by (simp add: map_idI)
  also have "\<dots> = utf8_bytes c" using c(3) by (simp add: take_map utf8_bytes_def)
  finally have take: "take m s = utf8_bytes c" .
  moreover from this have "m = length (utf8_bytes c)"
    using c(2) assms(3) by (metis length_take min.absorb2 order_trans)
  ultimately show ?thesis using that code c(1,2) m by simp
qed

text \<open>A decoded character spans one to four bytes and never is the error value.\<close>

lemma tf_utf8_next_error_or:
  assumes "unat available \<le> length s" and "0 < available"
  shows "tf_utf8_next s available len = (TF_DECODE_ERROR, len) \<or>
     fst (tf_utf8_next s available len) \<noteq> TF_DECODE_ERROR"
  unfolding tf_utf8_next_nat [OF assms] TF_DECODE_ERROR_def by (auto split: option.split)

section \<open>Properties\<close>

text \<open>
  C7: round trip. Decoding the UTF-8 encoding of any Unicode scalar value, whatever follows
  it in the buffer, gives the code point back and the length of the encoding.
\<close>

theorem utf8_roundtrip:
  assumes "scalar_value c" and "length (utf8_bytes c) \<le> unat available"
    and "unat available \<le> length (utf8_bytes c @ rest)"
  shows "tf_utf8_next (utf8_bytes c @ rest) available len = (int c, of_nat (length (utf8_bytes c)))"
  using assms by (rule tf_utf8_next_encode)

theorem utf8_roundtrip_witness:
  "tf_utf8_next (utf8_bytes 0x20AC @ [0x41]) 4 7 = (0x20AC, 3)"
proof -
  have "scalar_value 0x20AC" by (simp add: scalar_value_def)
  moreover have "length (utf8_bytes 0x20AC) = 3" by (simp add: utf8_encode_def)
  ultimately show ?thesis 
    using utf8_roundtrip [of "0x20AC" 4 "[0x41]" 7] by simp
qed

text \<open>
  C8: nothing else decodes. When the decoder reports a code point, it is a scalar value (no
  surrogate, nothing above U+10FFFF), the bytes it spans are exactly the encoding of that
  value (so no overlong form), and they are all readable.
\<close>

theorem utf8_decode_sound:
  assumes "tf_utf8_next s available len = (code, n)" and "code \<noteq> TF_DECODE_ERROR"
    and "unat available \<le> length s" and "0 < available"
  shows "0 \<le> code \<and> scalar_value (nat code) \<and> take (unat n) s = utf8_bytes (nat code) \<and>
     unat n \<le> unat available"
  by (rule tf_utf8_next_sound [OF assms]) auto

theorem utf8_decode_sound_witness:
  "take 2 [0xC3, 0xA9, 0xFF] = utf8_bytes 0xE9"
proof -
  have "tf_utf8_next [0xC3, 0xA9, 0xFF] 3 0 = (0xE9, 2)" by code_simp
  from utf8_decode_sound [OF this] show ?thesis by (simp add: TF_DECODE_ERROR_def)
qed

text \<open>
  C9: malformed means malformed. The decoder reports an error, leaving the length alone,
  exactly when the readable bytes do not begin with the encoding of any scalar value.
\<close>

theorem utf8_error_iff:
  assumes "unat available \<le> length s" and "0 < available"
  shows "tf_utf8_next s available len = (TF_DECODE_ERROR, len) \<longleftrightarrow>
     \<not> (\<exists>c rest. scalar_value c \<and> take (unat available) s = utf8_bytes c @ rest)"
proof
  assume err: "tf_utf8_next s available len = (TF_DECODE_ERROR, len)"
  show "\<not> (\<exists>c rest. scalar_value c \<and> take (unat available) s = utf8_bytes c @ rest)"
  proof
    assume "\<exists>c rest. scalar_value c \<and> take (unat available) s = utf8_bytes c @ rest"
    then obtain c rest where c: "scalar_value c" "take (unat available) s = utf8_bytes c @ rest"
      by blast
    have len: "unat available = length (utf8_bytes c) + length rest"
      using arg_cong [OF c(2), of length] assms(1) by simp
    have "s = utf8_bytes c @ rest @ drop (unat available) s"
      using c(2) by (metis append_assoc append_take_drop_id)
    then have "tf_utf8_next s available len = (int c, of_nat (length (utf8_bytes c)))"
      using tf_utf8_next_encode [OF c(1), of available "rest @ drop (unat available) s" len] len assms(1)
      by simp
    then show False using err by (simp add: TF_DECODE_ERROR_def)
  qed
next
  assume none: "\<not> (\<exists>c rest. scalar_value c \<and> take (unat available) s = utf8_bytes c @ rest)"
  show "tf_utf8_next s available len = (TF_DECODE_ERROR, len)"
  proof (rule ccontr)
    assume "tf_utf8_next s available len \<noteq> (TF_DECODE_ERROR, len)"
    then have ok: "fst (tf_utf8_next s available len) \<noteq> TF_DECODE_ERROR"
      using tf_utf8_next_error_or [OF assms, of len] by auto
    obtain code n where dec: "tf_utf8_next s available len = (code, n)" by (cases "tf_utf8_next s available len")
    obtain c where "scalar_value c" "unat n \<le> unat available" "take (unat n) s = utf8_bytes c"
      by (rule tf_utf8_next_sound [OF dec _ assms]) (use ok dec in auto)
    then have "take (unat available) s = utf8_bytes c @ drop (unat n) (take (unat available) s)"
      by (metis append_take_drop_id min.absorb1 take_take)
    with \<open>scalar_value c\<close> none show False by blast
  qed
qed

theorem utf8_error_iff_witness:
  "\<not> (\<exists>c rest. scalar_value c \<and> take 2 [0xC0, 0x80] = utf8_bytes c @ rest)"
proof -
  have "tf_utf8_next [0xC0, 0x80] 2 5 = (TF_DECODE_ERROR, 5)" by code_simp
  then show ?thesis using utf8_error_iff [of 2 "[0xC0, 0x80]" 5] by simp
qed

end
