(* ===== verification/Lexer.thy ===== *)
theory Lexer
  imports Tables Utf8
begin

text \<open>
  The lexer adapter (\<^verbatim>\<open>tf_lexer.c\<close>) and the macros of \<^verbatim>\<open>parser.h\<close> a generated lex function is
  written with. The adapter is the state behind the \<^verbatim>\<open>TSLexer\<close> callbacks; the lex function is
  the grammar's, and runs against any implementation of the callbacks. The invariant ties
  the lexer's byte offset, its point and its lookahead character to the source.
\<close>

section \<open>Points and tokens\<close>

record TFPoint =
  row :: u32
  column :: u32

record TFToken =
  tok_symbol :: TSSymbol
  tok_start_byte :: u32
  tok_end_byte :: u32
  tok_start_point :: TFPoint
  tok_end_point :: TFPoint

definition zero_point :: TFPoint where
  "zero_point = \<lparr>row = 0, column = 0\<rparr>"

section \<open>The interface a lex function sees\<close>

text \<open>
  \<^verbatim>\<open>struct TSLexer\<close>: the lookahead character, the result symbol and the callbacks, over the state
  \<open>'l\<close> of whoever provides them. The generated functions use no other member.
\<close>

record 'l TSLexer =
  op_lookahead :: "'l \<Rightarrow> int"
  op_set_result :: "TSSymbol \<Rightarrow> 'l \<Rightarrow> 'l"
  op_advance :: "bool \<Rightarrow> 'l \<Rightarrow> 'l"
  op_mark_end :: "'l \<Rightarrow> 'l"
  op_eof :: "'l \<Rightarrow> bool"

text \<open>\<^verbatim>\<open>ACCEPT_TOKEN\<close>.\<close>

definition accept_token :: "'l TSLexer \<Rightarrow> TSSymbol option \<Rightarrow> bool \<times> 'l \<Rightarrow> bool \<times> 'l" where
  "accept_token ops accept = (\<lambda>(result, l).
     case accept of None \<Rightarrow> (result, l)
     | Some symbol \<Rightarrow> (True, op_mark_end ops (op_set_result ops symbol l)))"

text \<open>
  \<^verbatim>\<open>START_LEXER\<close>, \<^verbatim>\<open>ADVANCE\<close>, \<^verbatim>\<open>SKIP\<close> and \<^verbatim>\<open>END_STATE\<close>: run the state machine from \<open>state\<close>. \<open>None\<close> is a
  lex function that does not return.
\<close>

partial_function (option) lex_run ::
  "'l TSLexer \<Rightarrow> (TSStateId \<Rightarrow> lex_row) \<Rightarrow> TSStateId \<Rightarrow> bool \<Rightarrow> 'l \<Rightarrow> (bool \<times> 'l) option" where
  "lex_run ops rows state result l =
     (let r = accept_token ops (row_accept (rows state)) (result, l)
      in case row_move (rows state) (op_lookahead ops l) (op_eof ops l) of
           END_STATE \<Rightarrow> Some r
         | ADVANCE s \<Rightarrow> lex_run ops rows s (fst r) (op_advance ops False (snd r))
         | SKIP s \<Rightarrow> lex_run ops rows s (fst r) (op_advance ops True (snd r)))"

declare lex_run.simps [code]

text \<open>
  What a provider of the callbacks promises: an invariant that every callback keeps, as long
  as the lex function accepts only \<open>allowed\<close> symbols.
\<close>

definition accepts_only :: "(TSSymbol \<Rightarrow> bool) \<Rightarrow> (TSStateId \<Rightarrow> lex_row) \<Rightarrow> bool" where
  "accepts_only allowed rows \<longleftrightarrow> (\<forall>s a. row_accept (rows s) = Some a \<longrightarrow> allowed a)"

lemma accepts_only_True [simp]: "accepts_only (\<lambda>_. True) rows"
  by (simp add: accepts_only_def)

locale ts_lexer =
  fixes ops :: "'l TSLexer" and inv :: "'l \<Rightarrow> bool" and allowed :: "TSSymbol \<Rightarrow> bool"
  assumes inv_advance: "inv l \<Longrightarrow> inv (op_advance ops skip l)"
    and inv_mark_end: "inv l \<Longrightarrow> inv (op_mark_end ops l)"
    and inv_set_result: "inv l \<Longrightarrow> allowed s \<Longrightarrow> inv (op_set_result ops s l)"
begin

lemma inv_accept_token:
  "inv l \<Longrightarrow> accepts_only allowed rows \<Longrightarrow> inv (snd (accept_token ops (row_accept (rows s)) (r, l)))"
  by (auto simp: accept_token_def accepts_only_def inv_mark_end inv_set_result split: option.split)

lemma lex_run_inv:
  assumes "lex_run ops rows state result l = Some r" and "inv l" and "accepts_only allowed rows"
  shows "inv (snd r)"
proof -
  have "ops = ops \<longrightarrow> rows = rows \<longrightarrow> inv l \<longrightarrow> inv (snd r)"
  proof (rule lex_run.raw_induct [where P = "\<lambda>ops' rows' state result l r.
        ops' = ops \<longrightarrow> rows' = rows \<longrightarrow> inv l \<longrightarrow> inv (snd r)", OF _ assms(1)])
    fix lex_run' ops' rows' state result l r
    assume IH: "\<And>ops' rows' state result l r. lex_run' ops' rows' state result l = Some r \<Longrightarrow>
        ops' = ops \<longrightarrow> rows' = rows \<longrightarrow> inv l \<longrightarrow> inv (snd r)"
      and eq: "(let r = accept_token ops' (row_accept (rows' state)) (result, l)
        in case row_move (rows' state) (op_lookahead ops' l) (op_eof ops' l) of
             ADVANCE s \<Rightarrow> lex_run' ops' rows' s (fst r) (op_advance ops' False (snd r))
           | SKIP s \<Rightarrow> lex_run' ops' rows' s (fst r) (op_advance ops' True (snd r))
           | END_STATE \<Rightarrow> Some r) = Some r"
    show "ops' = ops \<longrightarrow> rows' = rows \<longrightarrow> inv l \<longrightarrow> inv (snd r)"
    proof (intro impI)
      assume "ops' = ops" "rows' = rows" "inv l"
      then show "inv (snd r)"
        using eq assms(3)
        by (auto simp: Let_def inv_accept_token inv_advance split: lex_move.splits dest!: IH)
    qed
  qed
  then show ?thesis using assms(2) by simp
qed

end

text \<open>
  A provider over finite input: advancing consumes something until the end of file is
  reached, and is then without effect.
\<close>

locale ts_lexer_finite = ts_lexer +
  fixes remaining :: "'l \<Rightarrow> nat"
  assumes advance_progress:
      "inv l \<Longrightarrow> \<not> op_eof ops l \<Longrightarrow> remaining (op_advance ops skip l) < remaining l"
    and advance_at_eof: "inv l \<Longrightarrow> op_eof ops l \<Longrightarrow> op_advance ops skip l = l"
    and lookahead_at_eof: "inv l \<Longrightarrow> op_eof ops l \<Longrightarrow> op_lookahead ops l = 0"
    and accept_remaining: "inv l \<Longrightarrow> allowed s \<Longrightarrow> remaining (op_mark_end ops (op_set_result ops s l)) = remaining l"
    and accept_eof: "inv l \<Longrightarrow> allowed s \<Longrightarrow> op_eof ops (op_mark_end ops (op_set_result ops s l)) = op_eof ops l"

text \<open>
  A lex function that makes progress: at the end of file, where advancing does nothing, its
  moves follow a ranking of its states down.
\<close>

definition lex_rank_ok :: "(TSStateId \<Rightarrow> nat) \<Rightarrow> (TSStateId \<Rightarrow> lex_row) \<Rightarrow> bool" where
  "lex_rank_ok rank rows \<longleftrightarrow>
     (\<forall>s. case row_move (rows s) 0 True of END_STATE \<Rightarrow> True
          | ADVANCE s' \<Rightarrow> rank s' < rank s | SKIP s' \<Rightarrow> rank s' < rank s)"

context ts_lexer_finite
begin

lemma accept_token_remaining:
  "inv l \<Longrightarrow> accepts_only allowed rows \<Longrightarrow>
     remaining (snd (accept_token ops (row_accept (rows s)) (r, l))) = remaining l"
  by (auto simp: accept_token_def accepts_only_def accept_remaining split: option.split)

lemma accept_token_eof:
  "inv l \<Longrightarrow> accepts_only allowed rows \<Longrightarrow>
     op_eof ops (snd (accept_token ops (row_accept (rows s)) (r, l))) = op_eof ops l"
  by (auto simp: accept_token_def accepts_only_def accept_eof split: option.split)

lemma lex_run_terminates:
  assumes "lex_rank_ok rank rows" and "inv l" and "accepts_only allowed rows"
  shows "\<exists>r. lex_run ops rows state result l = Some r"
  using assms(2)
proof (induction "(remaining l, rank state)" arbitrary: state result l
    rule: wf_induct_rule [OF wf_lex_prod [OF wf_less_than wf_less_than]])
  case (1 state l)
  let ?r = "accept_token ops (row_accept (rows state)) (result, l)"
  have inv: "inv (snd ?r)" using 1(2) assms(3) by (rule inv_accept_token)
  have step: "\<exists>r. lex_run ops rows s (fst ?r) (op_advance ops skip (snd ?r)) = Some r"
    if move: "row_move (rows state) (op_lookahead ops l) (op_eof ops l) \<in> {ADVANCE s, SKIP s}"
    for s skip
  proof (cases "op_eof ops l")
    case True
    have same: "op_advance ops skip (snd ?r) = snd ?r"
      by (rule advance_at_eof [OF inv]) (simp add: accept_token_eof 1(2) assms(3) True)
    have "row_move (rows state) 0 True \<in> {ADVANCE s, SKIP s}"
      using move lookahead_at_eof [OF 1(2) True] True by simp
    then have "rank s < rank state"
      using assms(1) [unfolded lex_rank_ok_def, rule_format, of state] by auto
    then show ?thesis
      unfolding same
      by (intro 1(1)) (simp_all add: accept_token_remaining 1(2) assms(3) inv)
  next
    case False
    have "remaining (op_advance ops skip (snd ?r)) < remaining (snd ?r)"
      by (rule advance_progress [OF inv]) (simp add: accept_token_eof 1(2) assms(3) False)
    then show ?thesis
      by (intro 1(1)) (simp_all add: accept_token_remaining 1(2) assms(3) inv_advance inv)
  qed
  show ?case
    unfolding lex_run.simps [of ops rows state] Let_def
    using step by (auto split: lex_move.split simp del: split_paired_Ex)
qed

end

section \<open>The lexer\<close>

definition TF_BOM :: int where
  "TF_BOM = 0xFEFF"

definition TF_NO_END :: u32 where
  "TF_NO_END = UINT32_MAX"

text \<open>\<open>lx_lookahead\<close> and \<open>lx_result_symbol\<close> are the members of the embedded \<^verbatim>\<open>TSLexer data\<close>.\<close>

record TFLexer =
  lx_lookahead :: int
  lx_result_symbol :: TSSymbol
  lx_lang :: TFLanguage
  lx_source :: "u8 list"
  lx_size :: u32
  lx_byte :: u32
  lx_point :: TFPoint
  lx_lookahead_size :: u32
  token_start_byte :: u32
  token_start_point :: TFPoint
  token_end_byte :: u32
  token_end_point :: TFPoint
  token_is_keyword :: bool
  token_lex_state :: TSStateId

definition tf_lexer_eof :: "TFLexer \<Rightarrow> bool" where
  "tf_lexer_eof self \<longleftrightarrow> lx_byte self \<ge> lx_size self"

definition tf_lexer_get_lookahead :: "TFLexer \<Rightarrow> TFLexer" where
  "tf_lexer_get_lookahead self =
    (if lx_byte self \<ge> lx_size self then self\<lparr>lx_lookahead_size := 1, lx_lookahead := 0\<rparr>
     else
       let lead = lx_source self ! unat (lx_byte self)
       in if lead < 0x80 then self\<lparr>lx_lookahead_size := 1, lx_lookahead := uint lead\<rparr>
          else
            let (code, i) = tf_utf8_next (drop (unat (lx_byte self)) (lx_source self))
                              (lx_size self - lx_byte self) 1
            in self\<lparr>lx_lookahead := code,
                    lx_lookahead_size := (if code = TF_DECODE_ERROR then 1 else i)\<rparr>)"

definition tf_lexer_seek :: "u32 \<Rightarrow> TFPoint \<Rightarrow> TFLexer \<Rightarrow> TFLexer" where
  "tf_lexer_seek byte point self =
     tf_lexer_get_lookahead (self\<lparr>lx_byte := byte, lx_point := point\<rparr>)"

definition tf_lexer_do_advance :: "bool \<Rightarrow> TFLexer \<Rightarrow> TFLexer" where
  "tf_lexer_do_advance skip self =
    (let self = (if lx_lookahead_size self \<noteq> 0 then
                   self\<lparr>lx_point := (if lx_lookahead self = 10
                          then \<lparr>row = row (lx_point self) + 1, column = 0\<rparr>
                          else (lx_point self)\<lparr>column := column (lx_point self) + lx_lookahead_size self\<rparr>),
                        lx_byte := lx_byte self + lx_lookahead_size self\<rparr>
                 else self);
         self = (if skip then self\<lparr>token_start_byte := lx_byte self, token_start_point := lx_point self\<rparr>
                 else self)
     in tf_lexer_get_lookahead self)"

definition tf_lexer_advance :: "bool \<Rightarrow> TFLexer \<Rightarrow> TFLexer" where
  "tf_lexer_advance skip self =
     (if lx_byte self \<ge> lx_size self then self else tf_lexer_do_advance skip self)"

definition tf_lexer_mark_end :: "TFLexer \<Rightarrow> TFLexer" where
  "tf_lexer_mark_end self =
     self\<lparr>token_end_byte := lx_byte self, token_end_point := lx_point self\<rparr>"

text \<open>The rescan of the line up to the current byte: \<open>None\<close> would be a loop that does not end.\<close>

partial_function (option) get_column_loop :: "TFLexer \<Rightarrow> u32 \<Rightarrow> u32 \<Rightarrow> u32 option" where
  "get_column_loop self i col =
     (if i < lx_byte self then
        let (code_point, n) = tf_utf8_next (drop (unat i) (lx_source self)) (lx_size self - i) 1;
            n = (if code_point = TF_DECODE_ERROR then 1 else n);
            col = (if i \<noteq> 0 \<or> code_point \<noteq> TF_BOM then col + 1 else col)
        in get_column_loop self (i + n) col
      else Some col)"

declare get_column_loop.simps [code]

definition tf_lexer_get_column :: "TFLexer \<Rightarrow> u32 option" where
  "tf_lexer_get_column self =
     get_column_loop self (lx_byte self - column (lx_point self)) 0"

definition tf_lexer_is_at_included_range_start :: "TFLexer \<Rightarrow> bool" where
  "tf_lexer_is_at_included_range_start self \<longleftrightarrow> lx_byte self = 0 \<and> lx_size self > 0"

text \<open>The callbacks \<^verbatim>\<open>tf_lexer_init\<close> installs.\<close>

definition tf_lexer_ops :: "TFLexer TSLexer" where
  "tf_lexer_ops = \<lparr>op_lookahead = lx_lookahead,
     op_set_result = (\<lambda>s self. self\<lparr>lx_result_symbol := s\<rparr>),
     op_advance = tf_lexer_advance, op_mark_end = tf_lexer_mark_end, op_eof = tf_lexer_eof\<rparr>"

definition tf_lexer_init :: "TFLanguage \<Rightarrow> u8 list \<Rightarrow> u32 \<Rightarrow> TFLexer" where
  "tf_lexer_init lang source sz =
     tf_lexer_get_lookahead
       \<lparr>lx_lookahead = 0, lx_result_symbol = 0, lx_lang = lang, lx_source = source, lx_size = sz,
        lx_byte = 0, lx_point = zero_point, lx_lookahead_size = 0,
        token_start_byte = 0, token_start_point = zero_point,
        token_end_byte = 0, token_end_point = zero_point,
        token_is_keyword = False, token_lex_state = 0\<rparr>"

definition tf_lexer_start :: "TFLexer \<Rightarrow> TFLexer" where
  "tf_lexer_start self =
    (let self = self\<lparr>token_start_byte := lx_byte self, token_start_point := lx_point self,
                     token_end_byte := TF_NO_END, lx_result_symbol := 0\<rparr>
     in if lx_byte self = 0 \<and> lx_size self > 0 \<and> lx_lookahead self = TF_BOM
        then tf_lexer_advance True self else self)"

definition tf_lexer_finish :: "TFLexer \<Rightarrow> TFLexer" where
  "tf_lexer_finish self =
     (if token_end_byte self = TF_NO_END then tf_lexer_mark_end self else self)"

text \<open>One run of a generated lex function: start, run from \<open>state\<close>, finish.\<close>

definition tf_lexer_scan ::
  "(TSStateId \<Rightarrow> lex_row) \<Rightarrow> TSStateId \<Rightarrow> TFLexer \<Rightarrow> (bool \<times> TFLexer) option" where
  "tf_lexer_scan rows state self =
     map_option (\<lambda>(found, self). (found, tf_lexer_finish self))
       (lex_run tf_lexer_ops rows state False (tf_lexer_start self))"

text \<open>The token as \<^verbatim>\<open>tf_lexer_next\<close> fills it in.\<close>

definition lexed_token :: "TFLexer \<Rightarrow> TFToken" where
  "lexed_token self =
     \<lparr>tok_symbol = lx_result_symbol self,
      tok_start_byte = token_start_byte self, tok_end_byte = token_end_byte self,
      tok_start_point = token_start_point self, tok_end_point = token_end_point self\<rparr>"

text \<open>
  The keyword re-lex: the word token \<open>out\<close> becomes a keyword when the keyword lexer accepts,
  ends at the same byte, and the keyword is usable or reserved in \<open>state\<close>.
\<close>

definition tf_lexer_keyword :: "TSStateId \<Rightarrow> TFToken \<Rightarrow> TFLexer \<Rightarrow> (TFLexer \<times> TFToken) option" where
  "tf_lexer_keyword state out self =
    (let lang = lx_lang self
     in map_option (\<lambda>(is_keyword, self).
          if is_keyword \<and> token_end_byte self = tok_end_byte out \<and>
             (tf_lookup lang state (lx_result_symbol self) \<noteq> 0 \<or>
              tf_is_reserved_word lang state (lx_result_symbol self))
          then (self\<lparr>token_is_keyword := True\<rparr>, out\<lparr>tok_symbol := lx_result_symbol self\<rparr>)
          else (self, out))
        (tf_lexer_scan (keyword_lex_fn (ts lang)) 0
           (tf_lexer_seek (tok_start_byte out) (tok_start_point out) self)))"

text \<open>
  The next token, with the lexer after it; no token (and the caller's left alone) when
  nothing matches. The outer \<open>None\<close> is a lex function that does not return.
\<close>

definition tf_lexer_next :: "TSStateId \<Rightarrow> TFLexer \<Rightarrow> (TFLexer \<times> TFToken option) option" where
  "tf_lexer_next state self =
    (let t = ts (lx_lang self);
         self = self\<lparr>token_is_keyword := False, token_lex_state := state\<rparr>
     in Option.bind (tf_lexer_scan (lex_fn t) (lex_state (tf_lex_mode (lx_lang self) state)) self)
         (\<lambda>(found, self).
            if \<not> found then Some (self, None)
            else
              let out = lexed_token self
              in map_option (\<lambda>(self, out). (tf_lexer_seek (tok_end_byte out) (tok_end_point out) self, Some out))
                   (if tok_symbol out = keyword_capture_token t \<and> tok_symbol out \<noteq> 0
                    then tf_lexer_keyword state out self
                    else Some (self, out))))"

section \<open>Positions in the source\<close>

text \<open>The point of a byte offset: newlines before it, and bytes since the last one.\<close>

definition point_at :: "u8 list \<Rightarrow> nat \<Rightarrow> TFPoint" where
  "point_at s n =
     \<lparr>row = of_nat (length (filter (\<lambda>b. b = 10) (take n s))),
      column = of_nat (length (takeWhile (\<lambda>b. b \<noteq> 10) (rev (take n s))))\<rparr>"

lemma point_at_0 [simp]: "point_at s 0 = zero_point"
  by (simp add: point_at_def zero_point_def)

lemma point_at_Suc:
  assumes "n < length s"
  shows "point_at s (Suc n) =
     (if s ! n = 10 then \<lparr>row = row (point_at s n) + 1, column = 0\<rparr>
      else (point_at s n)\<lparr>column := column (point_at s n) + 1\<rparr>)"
  using assms by (simp add: point_at_def take_Suc_conv_app_nth)

lemma point_at_plus:
  assumes "n + k \<le> length s" and "\<forall>i < k. s ! (n + i) \<noteq> 10"
  shows "point_at s (n + k) = (point_at s n)\<lparr>column := column (point_at s n) + of_nat k\<rparr>"
  using assms by (induction k) (simp_all add: point_at_Suc)

text \<open>What the lexer should see at a byte: the character there and the bytes it spans.\<close>

definition lookahead_at :: "u8 list \<Rightarrow> u32 \<Rightarrow> u32 \<Rightarrow> int \<times> u32" where
  "lookahead_at s sz byte =
     (if byte \<ge> sz then (0, 1)
      else let (code, n) = tf_utf8_next (drop (unat byte) s) (sz - byte) 1
           in (code, if code = TF_DECODE_ERROR then 1 else n))"

lemma available_drop:
  "unat (sz :: u32) = length s \<Longrightarrow> byte < sz \<Longrightarrow>
     unat (sz - byte) = length (drop (unat byte) s) \<and> 0 < sz - byte"
  by (simp add: unat_sub less_imp_le word_less_nat_alt)

lemma tf_utf8_next_ascii: "s ! 0 < 0x80 \<Longrightarrow> tf_utf8_next s available len = (uint (s ! 0), 1)"
  by (simp add: tf_utf8_next_def Let_def)

lemma get_lookahead_eq:
  assumes "unat (lx_size self) = length (lx_source self)"
  shows "tf_lexer_get_lookahead self =
     self\<lparr>lx_lookahead := fst (lookahead_at (lx_source self) (lx_size self) (lx_byte self)),
          lx_lookahead_size := snd (lookahead_at (lx_source self) (lx_size self) (lx_byte self))\<rparr>"
proof -
  have "drop (unat (lx_byte self)) (lx_source self) ! 0 = lx_source self ! unat (lx_byte self)"
    if "lx_byte self < lx_size self"
    using that assms by (simp add: word_less_nat_alt)
  then show ?thesis
    by (cases "lx_source self ! unat (lx_byte self) < 0x80")
       (simp_all add: tf_lexer_get_lookahead_def lookahead_at_def tf_utf8_next_ascii Let_def
        TF_DECODE_ERROR_def split: prod.split)
qed

lemma utf8_encode_high: "128 \<le> c \<Longrightarrow> n \<in> set (utf8_encode c) \<Longrightarrow> 128 \<le> n"
  by (auto simp: utf8_encode_def split: if_splits)

lemma utf8_bytes_no_newline:
  assumes "scalar_value c" and "b \<in> set (utf8_bytes c)" and "c \<noteq> 10"
  shows "b \<noteq> 10"
proof
  assume b: "b = 10"
  have "unat b \<in> set (map unat (utf8_bytes c))" using assms(2) by simp
  then have in_enc: "10 \<in> set (utf8_encode c)"
    using assms(1) b by (simp only: map_unat_utf8_bytes) simp
  show False
  proof (cases "c < 128")
    case True
    then show False using in_enc assms(3) by (simp add: utf8_encode_def)
  next
    case False
    then show False using utf8_encode_high [OF _ in_enc] by simp
  qed
qed

text \<open>
  One character: it spans at least a byte and stays inside the source, and only a newline
  character contains a newline byte.
\<close>

lemma lookahead_span:
  assumes "unat sz = length s" and "byte < sz" and "lookahead_at s sz byte = (code, n)"
  shows "1 \<le> unat n" and "unat byte + unat n \<le> length s"
    and "code = 10 \<Longrightarrow> unat n = 1 \<and> s ! unat byte = 10"
    and "code \<noteq> 10 \<Longrightarrow> \<forall>i < unat n. s ! (unat byte + i) \<noteq> 10"
proof -
  let ?s = "drop (unat byte) s"
  obtain code' m where dec: "tf_utf8_next ?s (sz - byte) 1 = (code', m)"
    by (cases "tf_utf8_next ?s (sz - byte) 1")
  note av = available_drop [OF assms(1,2)]
  have byte: "unat byte < length s" using assms(1,2) by (simp add: word_less_nat_alt)
  have code: "code = code'" "n = (if code' = TF_DECODE_ERROR then 1 else m)"
    using assms(2,3) dec by (auto simp: lookahead_at_def not_le [symmetric])
  have goal: "1 \<le> unat n \<and> unat byte + unat n \<le> length s \<and>
      (code = 10 \<longrightarrow> unat n = 1 \<and> s ! unat byte = 10) \<and>
      (code \<noteq> 10 \<longrightarrow> (\<forall>i < unat n. s ! (unat byte + i) \<noteq> 10))"
  proof (cases "code' = TF_DECODE_ERROR")
    case True
    have "?s ! 0 \<noteq> 10"
      using dec True by (auto simp: tf_utf8_next_def TF_DECODE_ERROR_def)
    then show ?thesis using True code byte by (simp add: TF_DECODE_ERROR_def)
  next
    case False
    obtain c where c: "code' = int c" "scalar_value c" "unat m = length (utf8_bytes c)"
      "unat m \<le> unat (sz - byte)" "take (unat m) ?s = utf8_bytes c"
      using tf_utf8_next_sound [OF dec False _ conjunct2 [OF av]] av by auto
    have n: "n = m" using code False by simp
    have "1 \<le> unat n" using n c(3) length_utf8_encode [of c] by auto
    moreover have bound: "unat byte + unat n \<le> length s" using n c(4) av byte by simp
    moreover have nth: "s ! (unat byte + i) \<in> set (utf8_bytes c)" if "i < unat n" for i
    proof -
      have "utf8_bytes c ! i = s ! (unat byte + i)"
        using that n bound by (simp add: c(5) [symmetric])
      then show ?thesis using that n c(3) by (metis nth_mem)
    qed
    moreover have "utf8_bytes c = [10]" if "c = 10" by (simp add: that utf8_bytes_def utf8_encode_def)
    moreover have "s ! unat byte = 10" if "c = 10"
      using nth [of 0] \<open>1 \<le> unat n\<close> \<open>c = 10 \<Longrightarrow> utf8_bytes c = [10]\<close> that by simp
    ultimately show ?thesis
      using code c(1-3) False n utf8_bytes_no_newline [OF c(2)] by (cases "c = 10") auto
  qed
  then show "1 \<le> unat n" "unat byte + unat n \<le> length s"
    "code = 10 \<Longrightarrow> unat n = 1 \<and> s ! unat byte = 10"
    "code \<noteq> 10 \<Longrightarrow> \<forall>i < unat n. s ! (unat byte + i) \<noteq> 10"
    by auto
qed

section \<open>The invariant\<close>

text \<open>
  Between tokens: the offset is inside the source, the point is that of the offset and the
  lookahead is the character there.
\<close>

definition lexer_pos :: "TFLanguage \<Rightarrow> u8 list \<Rightarrow> TFLexer \<Rightarrow> bool" where
  "lexer_pos lang source self \<longleftrightarrow>
     lx_lang self = lang \<and> lx_source self = source \<and> unat (lx_size self) = length source \<and>
     lx_byte self \<le> lx_size self \<and> lx_point self = point_at source (unat (lx_byte self)) \<and>
     (lx_lookahead self, lx_lookahead_size self) = lookahead_at source (lx_size self) (lx_byte self)"

text \<open>While a lex function runs from offset \<open>lo\<close>: the marks it has set lie behind it.\<close>

definition lexer_inv :: "TFLanguage \<Rightarrow> u8 list \<Rightarrow> u32 \<Rightarrow> TFLexer \<Rightarrow> bool" where
  "lexer_inv lang source lo self \<longleftrightarrow>
     lexer_pos lang source self \<and> lo \<le> lx_byte self \<and>
     lo \<le> token_start_byte self \<and> token_start_byte self \<le> lx_byte self \<and>
     token_start_point self = point_at source (unat (token_start_byte self)) \<and>
     (token_end_byte self = TF_NO_END \<or>
      lo \<le> token_end_byte self \<and> token_end_byte self \<le> lx_byte self \<and>
      token_end_point self = point_at source (unat (token_end_byte self)))"

lemma lexer_pos_get_lookahead:
  assumes "lx_lang self = lang" and "lx_source self = source" and "unat (lx_size self) = length source"
    and "lx_byte self \<le> lx_size self" and "lx_point self = point_at source (unat (lx_byte self))"
  shows "lexer_pos lang source (tf_lexer_get_lookahead self)"
  using assms by (simp add: get_lookahead_eq lexer_pos_def)

text \<open>Advancing moves past one character, without wrap-around, and keeps the point right.\<close>

lemma advance_position:
  assumes "lexer_pos lang source self" and "lx_byte self < lx_size self"
  defines "k \<equiv> lx_lookahead_size self"
  shows "unat (lx_byte self + k) = unat (lx_byte self) + unat k" and "1 \<le> unat k"
    and "lx_byte self + k \<le> lx_size self"
    and "(if lx_lookahead self = 10 then \<lparr>row = row (lx_point self) + 1, column = 0\<rparr>
          else (lx_point self)\<lparr>column := column (lx_point self) + k\<rparr>)
         = point_at source (unat (lx_byte self + k))"
proof -
  note pos = assms(1) [unfolded lexer_pos_def]
  have la: "lookahead_at source (lx_size self) (lx_byte self) = (lx_lookahead self, k)"
    using pos by (simp add: k_def)
  note span = lookahead_span [OF _ assms(2) la]
  have len: "length source = unat (lx_size self)" using pos by simp
  have "unat (lx_byte self) + unat k < 4294967296"
    using span(2) len by (metis le_less_trans unat_u32_less)
  then show sum: "unat (lx_byte self + k) = unat (lx_byte self) + unat k" by (rule unat_plus_u32)
  show "1 \<le> unat k" using span(1) len by simp
  show "lx_byte self + k \<le> lx_size self" using span(2) len sum by (simp add: word_le_nat_alt)
  show "(if lx_lookahead self = 10 then \<lparr>row = row (lx_point self) + 1, column = 0\<rparr>
          else (lx_point self)\<lparr>column := column (lx_point self) + k\<rparr>)
         = point_at source (unat (lx_byte self + k))"
  proof (cases "lx_lookahead self = 10")
    case True
    then have "unat k = 1" "source ! unat (lx_byte self) = 10" using span(3) len by auto
    moreover have "unat (lx_byte self) < length source"
      using assms(2) len by (simp add: word_less_nat_alt)
    ultimately show ?thesis using True pos by (simp add: sum point_at_Suc)
  next
    case False
    then show ?thesis using pos span(2,4) len by (simp add: sum point_at_plus)
  qed
qed

lemma lexer_inv_advance:
  assumes "lexer_inv lang source lo self"
  shows "lexer_inv lang source lo (tf_lexer_advance skip self)"
proof (cases "lx_byte self < lx_size self")
  case False
  then show ?thesis using assms by (simp add: tf_lexer_advance_def not_less)
next
  case True
  note inv = assms [unfolded lexer_inv_def]
  have pos: "lexer_pos lang source self" using inv by simp
  note adv = advance_position [OF pos True]
  have nz: "lx_lookahead_size self \<noteq> 0" using adv(2) by auto
  have grow: "lx_byte self \<le> lx_byte self + lx_lookahead_size self"
    using adv(1) by (simp add: word_le_nat_alt)
  define l where "l = self\<lparr>lx_point := point_at source (unat (lx_byte self + lx_lookahead_size self)),
      lx_byte := lx_byte self + lx_lookahead_size self\<rparr>"
  define m where "m = (if skip then l\<lparr>token_start_byte := lx_byte l, token_start_point := lx_point l\<rparr> else l)"
  have eq: "tf_lexer_advance skip self = tf_lexer_get_lookahead m"
    using True nz adv(4)
    by (simp add: tf_lexer_advance_def tf_lexer_do_advance_def not_le l_def m_def Let_def)
  have m: "lx_lang m = lang" "lx_source m = source" "lx_size m = lx_size self"
    "lx_byte m = lx_byte self + lx_lookahead_size self"
    "lx_point m = point_at source (unat (lx_byte m))"
    "token_end_byte m = token_end_byte self" "token_end_point m = token_end_point self"
    "token_start_byte m = (if skip then lx_byte m else token_start_byte self)"
    "token_start_point m = (if skip then lx_point m else token_start_point self)"
    using pos by (simp_all add: m_def l_def lexer_pos_def)
  have "lexer_pos lang source (tf_lexer_get_lookahead m)"
    by (rule lexer_pos_get_lookahead) (use m pos adv(3) in \<open>simp_all add: lexer_pos_def\<close>)
  then show ?thesis
    using inv grow m pos
    by (auto simp: eq lexer_inv_def get_lookahead_eq lexer_pos_def intro: order_trans)
qed

lemma tf_lexer_ops_simps [simp]:
  "op_lookahead tf_lexer_ops = lx_lookahead"
  "op_set_result tf_lexer_ops = (\<lambda>s self. self\<lparr>lx_result_symbol := s\<rparr>)"
  "op_advance tf_lexer_ops = tf_lexer_advance"
  "op_mark_end tf_lexer_ops = tf_lexer_mark_end"
  "op_eof tf_lexer_ops = tf_lexer_eof"
  by (simp_all add: tf_lexer_ops_def)

lemma lexer_inv_mark_end: "lexer_inv lang source lo self \<Longrightarrow> lexer_inv lang source lo (tf_lexer_mark_end self)"
  by (auto simp: tf_lexer_mark_end_def lexer_inv_def lexer_pos_def)

lemma lexer_inv_set_result:
  "lexer_inv lang source lo self \<Longrightarrow> lexer_inv lang source lo (self\<lparr>lx_result_symbol := s\<rparr>)"
  by (simp add: lexer_inv_def lexer_pos_def)

lemma lexer_advance_remaining:
  assumes "lexer_inv lang source lo l" and "\<not> tf_lexer_eof l"
  shows "unat (lx_size (tf_lexer_advance skip l)) - unat (lx_byte (tf_lexer_advance skip l))
      < unat (lx_size l) - unat (lx_byte l)"
proof -
  have less: "lx_byte l < lx_size l" using assms(2) by (simp add: tf_lexer_eof_def not_le)
  have pos: "lexer_pos lang source l" using assms(1) by (simp add: lexer_inv_def)
  note adv = advance_position [OF pos less]
  have nz: "lx_lookahead_size l \<noteq> 0" using adv(2) by auto
  have "lx_byte (tf_lexer_advance skip l) = lx_byte l + lx_lookahead_size l"
    and "lx_size (tf_lexer_advance skip l) = lx_size l"
    using less nz pos
    by (simp_all add: tf_lexer_advance_def tf_lexer_do_advance_def not_le
        Let_def get_lookahead_eq lexer_pos_def)
  then show ?thesis using adv(1,2) less by (simp add: word_less_nat_alt)
qed

interpretation lexer: ts_lexer_finite tf_lexer_ops "lexer_inv lang source lo" "\<lambda>_. True"
    "\<lambda>self. unat (lx_size self) - unat (lx_byte self)"
  by unfold_locales
     (simp_all add: lexer_inv_advance lexer_inv_mark_end lexer_inv_set_result lexer_advance_remaining,
      auto simp: tf_lexer_eof_def tf_lexer_advance_def tf_lexer_mark_end_def lexer_inv_def lexer_pos_def
        lookahead_at_def)

section \<open>One token\<close>

lemma lexer_pos_init:
  assumes "unat sz = length source"
  shows "lexer_pos lang source (tf_lexer_init lang source sz)"
  unfolding tf_lexer_init_def by (rule lexer_pos_get_lookahead) (use assms in simp_all)

lemma lexer_pos_seek:
  assumes "lexer_pos lang source self" and "byte \<le> lx_size self" and "point = point_at source (unat byte)"
  shows "lexer_pos lang source (tf_lexer_seek byte point self)" and "lx_byte (tf_lexer_seek byte point self) = byte"
proof -
  show "lexer_pos lang source (tf_lexer_seek byte point self)"
    unfolding tf_lexer_seek_def
    by (rule lexer_pos_get_lookahead) (use assms in \<open>simp_all add: lexer_pos_def\<close>)
  show "lx_byte (tf_lexer_seek byte point self) = byte"
    using assms(1) by (simp add: tf_lexer_seek_def get_lookahead_eq lexer_pos_def)
qed

lemma lexer_inv_start:
  assumes "lexer_pos lang source self"
  shows "lexer_inv lang source (lx_byte self) (tf_lexer_start self)"
proof -
  define l where "l = self\<lparr>token_start_byte := lx_byte self, token_start_point := lx_point self,
           token_end_byte := TF_NO_END, lx_result_symbol := 0\<rparr>"
  have "lexer_inv lang source (lx_byte self) l"
    using assms by (simp add: l_def lexer_inv_def lexer_pos_def)
  moreover have "tf_lexer_start self = l \<or> tf_lexer_start self = tf_lexer_advance True l"
    unfolding tf_lexer_start_def Let_def l_def [symmetric] by simp
  ultimately show ?thesis using lexer_inv_advance by metis
qed

text \<open>
  After a scan both marks are set. Marking the end at offset \<open>2 ^ 32 - 1\<close> is not told apart
  from not marking it, but then the lexer is at the end of the input and marking again
  changes nothing.
\<close>

definition token_marked :: "u8 list \<Rightarrow> u32 \<Rightarrow> TFLexer \<Rightarrow> bool" where
  "token_marked source lo self \<longleftrightarrow>
     lo \<le> token_start_byte self \<and> token_start_byte self \<le> lx_size self \<and>
     token_start_point self = point_at source (unat (token_start_byte self)) \<and>
     lo \<le> token_end_byte self \<and> token_end_byte self \<le> lx_size self \<and>
     token_end_point self = point_at source (unat (token_end_byte self))"

lemma lexer_inv_finish:
  assumes "lexer_inv lang source lo self"
  shows "lexer_pos lang source (tf_lexer_finish self)" and "token_marked source lo (tf_lexer_finish self)"
  using assms
  by (auto simp: tf_lexer_finish_def tf_lexer_mark_end_def lexer_inv_def token_marked_def lexer_pos_def
      intro: order_trans)

lemma lexer_scan_inv:
  assumes "tf_lexer_scan rows state self = Some (found, self')" and "lexer_pos lang source self"
  shows "lexer_pos lang source self'" and "token_marked source (lx_byte self) self'"
proof -
  obtain l where run: "lex_run tf_lexer_ops rows state False (tf_lexer_start self) = Some (found, l)"
    and l: "self' = tf_lexer_finish l"
    using assms(1) by (auto simp: tf_lexer_scan_def)
  have "lexer_inv lang source (lx_byte self) l"
    using lexer.lex_run_inv [OF run lexer_inv_start [OF assms(2)] accepts_only_True] by simp
  then show "lexer_pos lang source self'" "token_marked source (lx_byte self) self'"
    by (simp_all add: l lexer_inv_finish)
qed

lemma lexer_scan_terminates:
  assumes "lex_rank_ok rank rows" and "lexer_pos lang source self"
  shows "\<exists>r. tf_lexer_scan rows state self = Some r"
  using lexer.lex_run_terminates [OF assms(1) lexer_inv_start [OF assms(2)] accepts_only_True]
  by (auto simp: tf_lexer_scan_def)

text \<open>A token whose ends are offsets of the source, at or after \<open>lo\<close>, with their points.\<close>

definition token_at :: "u8 list \<Rightarrow> u32 \<Rightarrow> TFToken \<Rightarrow> bool" where
  "token_at source lo tok \<longleftrightarrow>
     lo \<le> tok_start_byte tok \<and> unat (tok_start_byte tok) \<le> length source \<and>
     tok_start_point tok = point_at source (unat (tok_start_byte tok)) \<and>
     lo \<le> tok_end_byte tok \<and> unat (tok_end_byte tok) \<le> length source \<and>
     tok_end_point tok = point_at source (unat (tok_end_byte tok))"

lemma token_at_lexed:
  "lexer_pos lang source self \<Longrightarrow> token_marked source lo self \<Longrightarrow> token_at source lo (lexed_token self)"
  by (auto simp: token_at_def lexed_token_def token_marked_def lexer_pos_def word_le_nat_alt)

lemma token_at_set_symbol [simp]: "token_at source lo (tok\<lparr>tok_symbol := s\<rparr>) = token_at source lo tok"
  by (simp add: token_at_def)

lemma lexer_keyword_inv:
  assumes "tf_lexer_keyword state out self = Some (self', out')"
    and "lexer_pos lang source self" and "token_at source lo out"
  shows "lexer_pos lang source self'" and "\<exists>s. out' = out\<lparr>tok_symbol := s\<rparr>"
proof -
  obtain kw l where scan: "tf_lexer_scan (keyword_lex_fn (ts (lx_lang self))) 0
        (tf_lexer_seek (tok_start_byte out) (tok_start_point out) self) = Some (kw, l)"
    and res: "self' = l \<or> self' = l\<lparr>token_is_keyword := True\<rparr>" "out' = out \<or> (\<exists>s. out' = out\<lparr>tok_symbol := s\<rparr>)"
    using assms(1) by (auto simp: tf_lexer_keyword_def Let_def split: if_splits)
  have "tok_start_byte out \<le> lx_size self"
    using assms(2,3) by (simp add: token_at_def lexer_pos_def word_le_nat_alt)
  then have "lexer_pos lang source (tf_lexer_seek (tok_start_byte out) (tok_start_point out) self)"
    using assms(2,3) by (intro lexer_pos_seek) (simp_all add: token_at_def)
  then have "lexer_pos lang source l" using lexer_scan_inv(1) [OF scan] by simp
  then show "lexer_pos lang source self'" using res(1) by (auto simp: lexer_pos_def)
  have "out = out\<lparr>tok_symbol := tok_symbol out\<rparr>" by simp
  then show "\<exists>s. out' = out\<lparr>tok_symbol := s\<rparr>" using res(2) by metis
qed

lemma lexer_next_inv:
  assumes "tf_lexer_next state self = Some (self', r)" and "lexer_pos lang source self"
  shows "lexer_pos lang source self'"
    and "\<And>tok. r = Some tok \<Longrightarrow> token_at source (lx_byte self) tok \<and> lx_byte self' = tok_end_byte tok"
proof -
  define l0 where "l0 = self\<lparr>token_is_keyword := False, token_lex_state := state\<rparr>"
  have l0: "lexer_pos lang source l0" "lx_byte l0 = lx_byte self"
    using assms(2) by (simp_all add: l0_def lexer_pos_def)
  obtain found l where scan: "tf_lexer_scan (lex_fn (ts (lx_lang self)))
       (lex_state (tf_lex_mode (lx_lang l0) state)) l0 = Some (found, l)"
    and rest: "(if \<not> found then Some (l, None)
            else map_option (\<lambda>(self, out). (tf_lexer_seek (tok_end_byte out) (tok_end_point out) self, Some out))
                   (if tok_symbol (lexed_token l) = keyword_capture_token (ts (lx_lang self)) \<and>
                       tok_symbol (lexed_token l) \<noteq> 0
                    then tf_lexer_keyword state (lexed_token l) l
                    else Some (l, lexed_token l))) = Some (self', r)"
    using assms(1)
    unfolding tf_lexer_next_def Let_def l0_def [symmetric] bind_eq_Some_conv split_paired_Ex prod.case by blast
  have l: "lexer_pos lang source l" "token_at source (lx_byte self) (lexed_token l)"
    using lexer_scan_inv [OF scan l0(1)] token_at_lexed l0(2) by auto
  have fin: "lexer_pos lang source (tf_lexer_seek (tok_end_byte out) (tok_end_point out) m) \<and>
      lx_byte (tf_lexer_seek (tok_end_byte out) (tok_end_point out) m) = tok_end_byte out"
    if "lexer_pos lang source m" "token_at source (lx_byte self) out" for m out
  proof -
    have "tok_end_byte out \<le> lx_size m"
      using that by (simp add: token_at_def lexer_pos_def word_le_nat_alt)
    then show ?thesis using that lexer_pos_seek by (simp add: token_at_def)
  qed
  have "lexer_pos lang source self' \<and>
      (\<forall>tok. r = Some tok \<longrightarrow> token_at source (lx_byte self) tok \<and> lx_byte self' = tok_end_byte tok)"
  proof (cases found)
    case False
    then show ?thesis using rest l by simp
  next
    case True
    obtain m out where kw: "(if tok_symbol (lexed_token l) = keyword_capture_token (ts (lx_lang self)) \<and>
            tok_symbol (lexed_token l) \<noteq> 0
          then tf_lexer_keyword state (lexed_token l) l else Some (l, lexed_token l)) = Some (m, out)"
      and eq: "self' = tf_lexer_seek (tok_end_byte out) (tok_end_point out) m" "r = Some out"
      using rest True by (auto simp: map_option_eq_Some simp del: split_paired_Ex)
    have m: "lexer_pos lang source m \<and> token_at source (lx_byte self) out"
    proof (cases "tf_lexer_keyword state (lexed_token l) l = Some (m, out)")
      case True
      then show ?thesis using lexer_keyword_inv [OF True l] l(2) by auto
    next
      case False
      then show ?thesis using kw l by (auto split: if_splits)
    qed
    then show ?thesis using fin [OF conjunct1 [OF m] conjunct2 [OF m]] eq by simp
  qed
  then show "lexer_pos lang source self'"
    and "\<And>tok. r = Some tok \<Longrightarrow> token_at source (lx_byte self) tok \<and> lx_byte self' = tok_end_byte tok"
    by auto
qed

lemma lexer_next_terminates:
  assumes "lex_rank_ok rank (lex_fn (ts lang))" and "lex_rank_ok rank' (keyword_lex_fn (ts lang))"
    and "lexer_pos lang source self"
  shows "\<exists>r. tf_lexer_next state self = Some r"
proof -
  define l0 where "l0 = self\<lparr>token_is_keyword := False, token_lex_state := state\<rparr>"
  have lang: "lx_lang self = lang" "lx_lang l0 = lang"
    using assms(3) by (simp_all add: l0_def lexer_pos_def)
  have l0: "lexer_pos lang source l0" using assms(3) by (simp add: l0_def lexer_pos_def)
  obtain found l where scan: "tf_lexer_scan (lex_fn (ts lang)) (lex_state (tf_lex_mode lang state)) l0
       = Some (found, l)"
    using lexer_scan_terminates [OF assms(1) l0] by (metis surj_pair)
  note l = lexer_scan_inv [OF scan l0]
  have tok: "token_at source (lx_byte l0) (lexed_token l)" using l by (rule token_at_lexed)
  then have "lexer_pos lang source
      (tf_lexer_seek (tok_start_byte (lexed_token l)) (tok_start_point (lexed_token l)) l)"
    using l(1) by (intro lexer_pos_seek) (simp_all add: token_at_def lexer_pos_def word_le_nat_alt)
  moreover have "lx_lang l = lang" using l(1) by (simp add: lexer_pos_def)
  ultimately obtain r where "tf_lexer_scan (keyword_lex_fn (ts (lx_lang l))) 0
      (tf_lexer_seek (tok_start_byte (lexed_token l)) (tok_start_point (lexed_token l)) l) = Some r"
    using lexer_scan_terminates [OF assms(2)] by metis
  then have "\<exists>r. tf_lexer_keyword state (lexed_token l) l = Some r"
    by (simp add: tf_lexer_keyword_def Let_def del: split_paired_Ex)
  then show ?thesis
    unfolding tf_lexer_next_def Let_def l0_def [symmetric] lang scan bind.bind_lunit prod.case
    by auto
qed

text \<open>Where a token comes from: the main scan, or the keyword scan over the same bytes.\<close>

lemma lexer_next_found:
  assumes "tf_lexer_next state self = Some (self', Some tok)" and "lexer_pos lang source self"
  obtains l where "tf_lexer_scan (lex_fn (ts lang)) (lex_state (tf_lex_mode lang state))
        (self\<lparr>token_is_keyword := False, token_lex_state := state\<rparr>) = Some (True, l)"
      "tok = lexed_token l"
    | l k where "tf_lexer_scan (lex_fn (ts lang)) (lex_state (tf_lex_mode lang state))
        (self\<lparr>token_is_keyword := False, token_lex_state := state\<rparr>) = Some (True, l)"
      "tf_lexer_scan (keyword_lex_fn (ts lang)) 0
        (tf_lexer_seek (token_start_byte l) (token_start_point l) l) = Some (True, k)"
      "tok = (lexed_token l)\<lparr>tok_symbol := lx_result_symbol k\<rparr>"
      "token_end_byte k = token_end_byte l"
      "lx_result_symbol l = keyword_capture_token (ts lang)" "lx_result_symbol l \<noteq> 0"
      "tf_lookup lang state (lx_result_symbol k) \<noteq> 0 \<or> tf_is_reserved_word lang state (lx_result_symbol k)"
proof -
  define l0 where "l0 = self\<lparr>token_is_keyword := False, token_lex_state := state\<rparr>"
  have lang: "lx_lang self = lang" "lx_lang l0 = lang"
    using assms(2) by (simp_all add: l0_def lexer_pos_def)
  have pos0: "lexer_pos lang source l0" using assms(2) by (simp add: l0_def lexer_pos_def)
  obtain l where scan: "tf_lexer_scan (lex_fn (ts lang)) (lex_state (tf_lex_mode lang state)) l0 = Some (True, l)"
    and rest: "map_option (\<lambda>(self, out). (tf_lexer_seek (tok_end_byte out) (tok_end_point out) self, Some out))
                   (if tok_symbol (lexed_token l) = keyword_capture_token (ts lang) \<and>
                       tok_symbol (lexed_token l) \<noteq> 0
                    then tf_lexer_keyword state (lexed_token l) l
                    else Some (l, lexed_token l)) = Some (self', Some tok)"
    using assms(1)
    unfolding tf_lexer_next_def Let_def l0_def [symmetric] lang bind_eq_Some_conv split_paired_Ex prod.case
    by (auto split: if_split_asm)
  have l: "lx_lang l = lang" using lexer_scan_inv(1) [OF scan pos0] by (simp add: lexer_pos_def)
  have sym: "tok_symbol (lexed_token l) = lx_result_symbol l"
    "tok_start_byte (lexed_token l) = token_start_byte l" "tok_end_byte (lexed_token l) = token_end_byte l"
    "tok_start_point (lexed_token l) = token_start_point l"
    by (simp_all add: lexed_token_def)
  show thesis
  proof (cases "tok = lexed_token l")
    case True
    then show thesis using that(1) scan unfolding l0_def by blast
  next
    case False
    then have kw: "lx_result_symbol l = keyword_capture_token (ts lang)" "lx_result_symbol l \<noteq> 0"
      and "map_option (\<lambda>(self, out). (tf_lexer_seek (tok_end_byte out) (tok_end_point out) self, Some out))
        (tf_lexer_keyword state (lexed_token l) l) = Some (self', Some tok)"
      using rest by (simp_all add: sym split: if_split_asm)
    then obtain m where "tf_lexer_keyword state (lexed_token l) l = Some (m, tok)"
      by (auto simp: map_option_eq_Some)
    then obtain k where "tf_lexer_scan (keyword_lex_fn (ts lang)) 0
          (tf_lexer_seek (token_start_byte l) (token_start_point l) l) = Some (True, k)"
        "tok = (lexed_token l)\<lparr>tok_symbol := lx_result_symbol k\<rparr>" "token_end_byte k = token_end_byte l"
        "tf_lookup lang state (lx_result_symbol k) \<noteq> 0 \<or> tf_is_reserved_word lang state (lx_result_symbol k)"
      using False unfolding tf_lexer_keyword_def Let_def l sym
      by (auto simp: map_option_eq_Some split: if_split_asm)
    then show thesis using that(2) [of l k] scan kw unfolding l0_def by blast
  qed
qed

interpretation lexer_result: ts_lexer tf_lexer_ops "\<lambda>self. allowed (lx_result_symbol self)" allowed
  by unfold_locales
     (simp_all add: tf_lexer_advance_def tf_lexer_do_advance_def tf_lexer_get_lookahead_def
      tf_lexer_mark_end_def Let_def split: prod.split)

lemma lexer_scan_symbol:
  assumes "tf_lexer_scan rows state self = Some (found, l)" and "accepts_only allowed rows" and "allowed 0"
  shows "allowed (lx_result_symbol l)"
proof -
  obtain m where run: "lex_run tf_lexer_ops rows state False (tf_lexer_start self) = Some (found, m)"
    and l: "l = tf_lexer_finish m"
    using assms(1) by (auto simp: tf_lexer_scan_def)
  have "lx_result_symbol (tf_lexer_start self) = 0"
    by (simp add: tf_lexer_start_def tf_lexer_advance_def tf_lexer_do_advance_def
        tf_lexer_get_lookahead_def Let_def split: prod.split)
  then have "allowed (lx_result_symbol m)"
    using lexer_result.lex_run_inv [OF run _ assms(2)] assms(3) by simp
  then show ?thesis by (simp add: l tf_lexer_finish_def tf_lexer_mark_end_def)
qed

lemma lexer_next_symbol:
  assumes "tf_lexer_next state self = Some (self', Some tok)" and "lexer_pos lang source self"
    and "accepts_only allowed (lex_fn (ts lang))" and "accepts_only allowed (keyword_lex_fn (ts lang))"
    and "allowed 0"
  shows "allowed (tok_symbol tok)"
  using assms(1,2)
proof (cases rule: lexer_next_found)
  case (1 l)
  then show ?thesis using lexer_scan_symbol [OF 1(1) assms(3,5)] by (simp add: lexed_token_def)
next
  case (2 l k)
  then show ?thesis using lexer_scan_symbol [OF 2(2) assms(4,5)] by simp
qed

end
