(* ===== verification/Lexer_Props.thy ===== *)
theory Lexer_Props
  imports Lexer Demo
begin

text \<open>
  The properties of the lexer adapter: positions, progress, the keyword re-lex, the column
  callback and the character-set search, each with a witness on the demonstration grammar or
  on concrete bytes.
\<close>

section \<open>The column callback\<close>

text \<open>One pass of the loop is one character of the lexer.\<close>

lemma get_column_step:
  assumes "lexer_pos lang source self" and "i < lx_byte self" and "lookahead_at source (lx_size self) i = (code, n)"
  shows "get_column_loop self i col =
      get_column_loop self (i + n) (if i \<noteq> 0 \<or> code \<noteq> TF_BOM then col + 1 else col)"
    and "unat (i + n) = unat i + unat n" and "1 \<le> unat n" and "unat i + unat n \<le> length source"
proof -
  have pos: "lx_source self = source" "unat (lx_size self) = length source" "lx_byte self \<le> lx_size self"
    using assms(1) by (simp_all add: lexer_pos_def)
  have less: "i < lx_size self" using assms(2) pos(3) by simp
  note span = lookahead_span [OF pos(2) less assms(3)]
  show "1 \<le> unat n" and len: "unat i + unat n \<le> length source" by (rule span)+
  have "unat i + unat n < 4294967296"
    using len pos(2) by (metis le_less_trans unat_u32_less)
  then show "unat (i + n) = unat i + unat n" by (rule unat_plus_u32)
  show "get_column_loop self i col =
      get_column_loop self (i + n) (if i \<noteq> 0 \<or> code \<noteq> TF_BOM then col + 1 else col)"
    using assms(2,3) less
    by (subst get_column_loop.simps)
       (auto simp: lookahead_at_def pos(1) not_le [symmetric] Let_def split: prod.splits)
qed

lemma get_column_returns:
  assumes "lexer_pos lang source self"
  shows "\<exists>c. get_column_loop self i col = Some c"
proof (induction "unat (lx_byte self) - unat i" arbitrary: i col rule: less_induct)
  case less
  show ?case
  proof (cases "i < lx_byte self")
    case False
    then show ?thesis by (subst get_column_loop.simps) simp
  next
    case True
    obtain code n where la: "lookahead_at source (lx_size self) i = (code, n)"
      by (cases "lookahead_at source (lx_size self) i")
    note step = get_column_step [OF assms True la]
    have "unat (lx_byte self) - unat (i + n) < unat (lx_byte self) - unat i"
      using True step(2,3) by (simp add: word_less_nat_alt)
    then show ?thesis unfolding step(1) by (rule less)
  qed
qed

text \<open>On text that is well-formed up to the lexer's offset the loop counts its characters.\<close>

definition bom_skipped :: "nat \<Rightarrow> nat list \<Rightarrow> nat" where
  "bom_skipped start cs = (if start = 0 \<and> cs \<noteq> [] \<and> hd cs = 0xFEFF then 1 else 0)"

lemma get_column_counts:
  assumes "lexer_pos lang source self" and "list_all scalar_value cs"
    and "take (unat (lx_byte self)) source = take (unat i) source @ concat (map utf8_bytes cs)"
    and "unat i \<le> unat (lx_byte self)"
  shows "get_column_loop self i col = Some (col + of_nat (length cs - bom_skipped (unat i) cs))"
  using assms(2-4)
proof (induction cs arbitrary: i col)
  case Nil
  have "unat (lx_byte self) \<le> length source"
    using assms(1) by (simp add: lexer_pos_def word_le_nat_alt)
  then have "unat i = unat (lx_byte self)"
    using Nil(2,3) by (auto dest: arg_cong [where f = length])
  then have "\<not> i < lx_byte self" by (simp add: word_less_nat_alt)
  then show ?case by (subst get_column_loop.simps) (simp add: bom_skipped_def)
next
  case (Cons c cs)
  let ?k = "length (utf8_encode c)"
  have pos: "unat (lx_size self) = length source" "lx_byte self \<le> lx_size self" "lx_source self = source"
    using assms(1) by (simp_all add: lexer_pos_def)
  have byte: "unat (lx_byte self) \<le> length source" using pos by (simp add: word_le_nat_alt)
  have k: "1 \<le> ?k" "?k \<le> 4" using length_utf8_encode [of c] by auto
  have split: "drop (unat i) (take (unat (lx_byte self)) source) = utf8_bytes c @ concat (map utf8_bytes cs)"
    using Cons(3,4) byte by simp
  have sum: "unat (lx_byte self) - unat i = ?k + length (concat (map utf8_bytes cs))"
    using arg_cong [OF split, of length] byte by simp
  have less: "i < lx_byte self" using sum k by (simp add: word_less_nat_alt)
  have less': "i < lx_size self" using less pos(2) by simp
  have rest: "drop (unat i) source = utf8_bytes c @ (concat (map utf8_bytes cs) @ drop (unat (lx_byte self)) source)"
  proof -
    have "drop (unat i) source = drop (unat i) (take (unat (lx_byte self)) source) @ drop (unat (lx_byte self)) source"
      using Cons(4) byte
      by (metis append_take_drop_id drop_append diff_is_0_eq drop0 length_take min.absorb2)
    then show ?thesis by (simp add: split)
  qed
  have av: "unat (lx_size self - i) = length (drop (unat i) source)"
    using available_drop [OF pos(1) less'] by simp
  have "?k \<le> length (drop (unat i) source)" unfolding rest by simp
  then have "tf_utf8_next (drop (unat i) source) (lx_size self - i) 1 = (int c, of_nat ?k)"
    using tf_utf8_next_encode [of c "lx_size self - i" "concat (map utf8_bytes cs) @ drop (unat (lx_byte self)) source" 1]
      Cons(2) av rest by simp
  then have la: "lookahead_at source (lx_size self) i = (int c, of_nat ?k)"
    using less' [folded not_le] by (simp add: lookahead_at_def TF_DECODE_ERROR_def)
  note step = get_column_step [OF assms(1) less la]
  have uk: "unat (of_nat ?k :: u32) = ?k" using k by (simp add: unat_of_nat)
  have nxt: "unat (i + of_nat ?k) = unat i + ?k" using step(2) uk by simp
  have bound: "unat (i + of_nat ?k) \<le> unat (lx_byte self)" using sum k nxt by linarith
  have "take (unat (lx_byte self)) source = take (unat (i + of_nat ?k)) source @ concat (map utf8_bytes cs)"
  proof -
    have "take (unat i + ?k) source = take (unat i) source @ utf8_bytes c"
      using rest by (simp add: take_add)
    then show ?thesis using Cons(3) nxt by simp
  qed
  then have "get_column_loop self (i + of_nat ?k) col' =
      Some (col' + of_nat (length cs - bom_skipped (unat i + ?k) cs))" for col'
    using Cons(1) [of "i + of_nat ?k"] Cons(2) bound nxt by simp
  moreover have "bom_skipped (unat i + ?k) cs = 0" using k by (auto simp: bom_skipped_def)
  moreover have "i = 0 \<longleftrightarrow> unat i = 0" by (simp add: unat_eq_0)
  ultimately show ?case
    unfolding step(1) by (auto simp: bom_skipped_def TF_BOM_def)
qed

text \<open>The column of a point is the length of the line before it, in bytes.\<close>

lemma line_column:
  assumes "10 \<notin> set line" and "pre = [] \<or> last pre = 10"
  shows "column (point_at (pre @ line @ rest) (length pre + length line)) = of_nat (length line)"
proof -
  have "takeWhile (\<lambda>b. b \<noteq> 10) (rev line @ rev pre) = rev line @ takeWhile (\<lambda>b. b \<noteq> 10) (rev pre)"
    using assms(1) by (intro takeWhile_append2) auto
  moreover have "takeWhile (\<lambda>b. b \<noteq> 10) (rev pre) = []"
    using assms(2) by (cases pre rule: rev_cases) simp_all
  moreover have "take (length pre + length line) (pre @ line @ rest) = pre @ line"
    using append_eq_conv_conj [of "pre @ line" rest] by simp
  ultimately have "takeWhile (\<lambda>b. b \<noteq> 10) (rev (take (length pre + length line) (pre @ line @ rest))) = rev line"
    by (simp only: rev_append append_Nil2)
  then show ?thesis by (simp only: point_at_def TFPoint.simps length_rev)
qed

lemma word_of_nat_unat_sum:
  assumes "unat (w :: u32) = m + n"
  shows "w - of_nat n = of_nat m"
proof -
  have "w = of_nat m + of_nat n"
    using arg_cong [OF assms, of "of_nat :: nat \<Rightarrow> u32"] by simp
  then show ?thesis by simp
qed

text \<open>
  C13: on well-formed text \<^verbatim>\<open>get_column\<close> gives the number of characters between the start of the
  line and the lexer's position, not counting a byte order mark at the start of the source.
\<close>

theorem get_column_characters:
  assumes "lexer_pos lang (pre @ concat (map utf8_bytes cs) @ rest) self"
    and "unat (lx_byte self) = length pre + length (concat (map utf8_bytes cs))"
    and "pre = [] \<or> last pre = 10"
    and "list_all scalar_value cs" and "10 \<notin> set cs"
  shows "tf_lexer_get_column self = Some (of_nat (length cs - bom_skipped (length pre) cs))"
proof -
  let ?line = "concat (map utf8_bytes cs)"
  let ?s = "pre @ ?line @ rest"
  have no_nl: "10 \<notin> set ?line"
    using assms(4,5) utf8_bytes_no_newline by (fastforce simp: list_all_iff)
  have point: "lx_point self = point_at ?s (unat (lx_byte self))"
    using assms(1) by (simp add: lexer_pos_def)
  have col: "column (lx_point self) = of_nat (length ?line)"
    using line_column [OF no_nl assms(3), of rest] by (simp add: point assms(2))
  have "length pre + length ?line < 4294967296"
    using assms(2) unat_u32_less [of "lx_byte self"] by simp
  then have start: "lx_byte self - column (lx_point self) = of_nat (length pre)"
    and pre: "unat (of_nat (length pre) :: u32) = length pre"
    using assms(2) word_of_nat_unat_sum by (simp_all add: col unat_of_nat)
  show ?thesis
    unfolding tf_lexer_get_column_def start
    by (subst get_column_counts [OF assms(1,4)]) (simp_all add: pre assms(2))
qed

text \<open>The second line of a source, up to its \<open>c\<close>: two characters in three bytes.\<close>

definition sample :: "u8 list" where
  "sample = [97, 10, 98, 195, 169, 99]"

definition sample_lexer :: TFLexer where
  "sample_lexer = tf_lexer_seek 5 \<lparr>row = 1, column = 3\<rparr> (tf_lexer_init demo_lang sample 6)"

lemma sample_lexer_pos: "lexer_pos demo_lang sample sample_lexer"
proof -
  have "lexer_pos demo_lang sample (tf_lexer_init demo_lang sample 6)"
    by (rule lexer_pos_init) (simp add: sample_def)
  moreover have "\<lparr>row = 1, column = 3\<rparr> = point_at sample (unat (5 :: u32))" by code_simp
  moreover have "lx_size (tf_lexer_init demo_lang sample 6) = 6"
    by (simp add: tf_lexer_init_def tf_lexer_get_lookahead_def sample_def)
  ultimately show ?thesis
    unfolding sample_lexer_def by (intro lexer_pos_seek) simp_all
qed

theorem get_column_characters_witness: "tf_lexer_get_column sample_lexer = Some 2"
proof -
  let ?cs = "[98, 233] :: nat list"
  have src: "sample = [97, 10] @ concat (map utf8_bytes ?cs) @ [99]" by code_simp
  have byte: "lx_byte sample_lexer = 5"
    by (simp add: sample_lexer_def tf_lexer_seek_def tf_lexer_init_def tf_lexer_get_lookahead_def sample_def)
  have len: "length (concat (map utf8_bytes ?cs)) = 3" by (simp add: utf8_encode_def)
  have at: "unat (5 :: u32) = length [97, 10 :: u8] + length (concat (map utf8_bytes ?cs))"
    unfolding len by simp
  have cs: "list_all scalar_value ?cs" "10 \<notin> set ?cs" by (simp_all add: scalar_value_def)
  have "tf_lexer_get_column sample_lexer =
      Some (of_nat (length ?cs - bom_skipped (length [97, 10 :: u8]) ?cs))"
    by (rule get_column_characters [OF sample_lexer_pos [unfolded src] _ _ cs]) (simp_all only: byte at, simp_all)
  then show ?thesis by (simp add: bom_skipped_def)
qed

text \<open>
  C14: on any bytes, well-formed or not, \<^verbatim>\<open>get_column\<close> returns.
\<close>

theorem get_column_total:
  assumes "lexer_pos lang source self"
  shows "\<exists>c. tf_lexer_get_column self = Some c"
  unfolding tf_lexer_get_column_def using assms by (rule get_column_returns)

theorem get_column_total_witness: "\<exists>c. tf_lexer_get_column sample_lexer = Some c"
  by (rule get_column_total [OF sample_lexer_pos])

section \<open>Character sets\<close>

definition in_range :: "int \<Rightarrow> TSCharacterRange \<Rightarrow> bool" where
  "in_range c r \<longleftrightarrow> fst r \<le> c \<and> c \<le> snd r"

definition ranges_sorted :: "TSCharacterRange list \<Rightarrow> bool" where
  "ranges_sorted rs \<longleftrightarrow> sorted_wrt (\<lambda>r r'. snd r < fst r') rs \<and> (\<forall>r \<in> set rs. fst r \<le> snd r)"

text \<open>A character above a range is in no range up to it, and one below it in none after it.\<close>

lemma ranges_beside:
  assumes "ranges_sorted rs" and "j < length rs" and "k < length rs" and "in_range c (rs ! k)"
  shows "c > snd (rs ! j) \<Longrightarrow> j < k" and "c < fst (rs ! j) \<Longrightarrow> k < j"
proof -
  have ord: "snd (rs ! a) < fst (rs ! b)" if "a < b" "b < length rs" for a b
    using assms(1) that by (metis ranges_sorted_def sorted_wrt_nth_less)
  have ok: "fst (rs ! j) \<le> snd (rs ! j)" using assms(1,2) by (simp add: ranges_sorted_def)
  show "j < k" if "c > snd (rs ! j)"
    using ord [of k j] assms(2-4) that ok by (cases k j rule: linorder_cases) (auto simp: in_range_def)
  show "k < j" if "c < fst (rs ! j)"
    using ord [of j k] assms(2-4) that ok by (cases k j rule: linorder_cases) (auto simp: in_range_def)
qed

lemma Bex_set_nth: "(\<exists>x \<in> set xs. P x) \<longleftrightarrow> (\<exists>k < length xs. P (xs ! k))"
  by (metis in_set_conv_nth)

lemma set_contains_loop_iff:
  assumes "ranges_sorted rs" and "0 < sz" and "index + sz \<le> length rs"
  shows "set_contains_loop rs index sz c \<longleftrightarrow> (\<exists>k. index \<le> k \<and> k < index + sz \<and> in_range c (rs ! k))"
  using assms(2,3)
proof (induction sz arbitrary: index rule: less_induct)
  case (less sz)
  show ?case
  proof (cases "sz > 1")
    case False
    then have "sz = 1" using less(2) by simp
    then show ?thesis
      by (subst set_contains_loop.simps) (auto simp: in_range_def Let_def less_Suc_eq_le dest: le_antisym)
  next
    case True
    define half where "half = sz div 2"
    define mid where "mid = index + half"
    have half: "0 < half" "half < sz" "half \<le> sz - half" using True by (auto simp: half_def)
    have mid: "mid < length rs" "index \<le> mid" using less(3) half by (simp_all add: mid_def)
    note IH = less(1) [of "sz - half"]
    show ?thesis
    proof (cases "in_range c (rs ! mid)")
      case True
      then show ?thesis
        using \<open>sz > 1\<close> half mid
        by (subst set_contains_loop.simps)
           (auto simp: Let_def in_range_def half_def [symmetric] mid_def intro!: exI [of _ mid])
    next
      case out: False
      have step: "set_contains_loop rs index sz c =
          set_contains_loop rs (if c > snd (rs ! mid) then mid else index) (sz - half) c"
        using \<open>sz > 1\<close> out
        by (subst set_contains_loop.simps) (auto simp: Let_def in_range_def half_def [symmetric] mid_def)
      show ?thesis
      proof (cases "c > snd (rs ! mid)")
        case True
        have "index \<le> k \<and> k < index + sz \<and> in_range c (rs ! k) \<longleftrightarrow>
            mid \<le> k \<and> k < mid + (sz - half) \<and> in_range c (rs ! k)" for k
          using ranges_beside(1) [OF assms(1) mid(1), of k c] True less(3) half mid
          by (auto simp: mid_def)
        then show ?thesis
          using step True IH [of mid] less(3) half by (simp add: mid_def)
      next
        case False
        then have "c < fst (rs ! mid)" using out by (simp add: in_range_def)
        then have "index \<le> k \<and> k < index + sz \<and> in_range c (rs ! k) \<longleftrightarrow>
            index \<le> k \<and> k < index + (sz - half) \<and> in_range c (rs ! k)" for k
          using ranges_beside(2) [OF assms(1) mid(1), of k c] less(3) half mid
          by (auto simp: mid_def)
        then show ?thesis
          using step False IH [of index] less(3) half by simp
      qed
    qed
  qed
qed

text \<open>
  C15: the binary search is right: on a non-empty sorted list of disjoint ranges it answers
  whether the character is in one of them.
\<close>

theorem set_contains_iff:
  assumes "ranges_sorted rs" and "rs \<noteq> []"
  shows "set_contains rs (length rs) c \<longleftrightarrow> (\<exists>r \<in> set rs. fst r \<le> c \<and> c \<le> snd r)"
  unfolding set_contains_def
  by (subst set_contains_loop_iff [OF assms(1)])
     (use assms(2) in \<open>simp_all add: in_range_def Bex_set_nth\<close>)

theorem set_contains_iff_witness:
  "set_contains [(48, 57), (65, 90), (95, 95), (97, 122)] 4 100"
proof -
  have "ranges_sorted [(48, 57), (65, 90), (95, 95), (97, 122)]" by (simp add: ranges_sorted_def)
  from set_contains_iff [OF this, of 100] show ?thesis by (simp add: eval_nat_numeral)
qed

section \<open>Tokens\<close>

text \<open>
  C10: a token lies in the source, at or after the position the lexer was at, its points are
  those of its ends, and the lexer is left at its end with its own position and lookahead
  right, ready for the next token.
\<close>

theorem lexer_next_token:
  assumes "tf_lexer_next state self = Some (self', Some tok)" and "lexer_pos lang source self"
  shows "token_at source (lx_byte self) tok \<and> lx_byte self' = tok_end_byte tok
     \<and> lexer_pos lang source self'"
  using lexer_next_inv [OF assms] by simp

text \<open>
  C11: the lexer returns from every state and position, when the grammar's lex functions make
  progress at the end of the input.
\<close>

theorem lexer_next_returns:
  assumes "lex_rank_ok rank (lex_fn (ts lang))" and "lex_rank_ok rank' (keyword_lex_fn (ts lang))"
    and "lexer_pos lang source self"
  shows "\<exists>self' r. tf_lexer_next state self = Some (self', r)"
  using lexer_next_terminates [OF assms, of state] by simp

text \<open>
  C12: a token is what the main scan lexed, up to its symbol; the symbol differs only where
  the scan gave the word token, and is then usable or reserved in the state lexed for.
\<close>

theorem lexer_next_keyword:
  assumes "tf_lexer_next state self = Some (self', Some tok)" and "lexer_pos lang source self"
  shows "\<exists>l. tf_lexer_scan (lex_fn (ts lang)) (lex_state (tf_lex_mode lang state))
          (self\<lparr>token_is_keyword := False, token_lex_state := state\<rparr>) = Some (True, l) \<and>
      tok = (lexed_token l)\<lparr>tok_symbol := tok_symbol tok\<rparr> \<and>
      (tok_symbol tok \<noteq> lx_result_symbol l \<longrightarrow>
         lx_result_symbol l = keyword_capture_token (ts lang) \<and>
         (tf_lookup lang state (tok_symbol tok) \<noteq> 0 \<or> tf_is_reserved_word lang state (tok_symbol tok)))"
  using assms
proof (cases rule: lexer_next_found)
  case (1 l)
  then show ?thesis by (intro exI [of _ l]) (simp add: lexed_token_def)
next
  case (2 l k)
  then show ?thesis by (intro exI [of _ l]) simp
qed

text \<open>The demonstration grammar on \<^verbatim>\<open>end\<close>: a keyword where state 7 closes an item, a word elsewhere.\<close>

definition end_source :: "u8 list" where
  "end_source = [101, 110, 100]"

definition end_lexer :: TFLexer where
  "end_lexer = tf_lexer_init demo_lang end_source 3"

lemma end_lexer_pos: "lexer_pos demo_lang end_source end_lexer"
  unfolding end_lexer_def by (rule lexer_pos_init) (simp add: end_source_def)

lemma end_lexer_tokens:
  "map_option (map_option tok_symbol \<circ> snd) (tf_lexer_next 7 end_lexer) = Some (Some 3)"
  "map_option (map_option tok_symbol \<circ> snd) (tf_lexer_next 1 end_lexer) = Some (Some 1)"
  by code_simp+

lemma demo_ranks:
  "lex_rank_ok (\<lambda>s. if s = 0 then 1 else 0) (lex_fn (ts demo_lang))"
  "lex_rank_ok (\<lambda>s. if s = 0 then 1 else 0) (keyword_lex_fn (ts demo_lang))"
  by (simp_all add: lex_rank_ok_def demo_def demo_lex_def demo_keyword_lex_def is_letter_def)

theorem lexer_next_token_witness:
  "\<exists>tok. map_option snd (tf_lexer_next 7 end_lexer) = Some (Some tok) \<and> token_at end_source 0 tok"
proof -
  obtain self' tok where nxt: "tf_lexer_next 7 end_lexer = Some (self', Some tok)"
    using end_lexer_tokens(1) by auto
  then show ?thesis
    using lexer_next_token [OF nxt end_lexer_pos] by (auto simp: token_at_def)
qed

theorem lexer_next_returns_witness: "\<exists>self' r. tf_lexer_next 7 end_lexer = Some (self', r)"
  by (rule lexer_next_returns [OF demo_ranks end_lexer_pos])

theorem lexer_next_keyword_witness:
  "\<exists>l. tf_lexer_scan demo_lex 0 (end_lexer\<lparr>token_is_keyword := False, token_lex_state := 7\<rparr>) = Some (True, l)"
proof -
  obtain self' tok where nxt: "tf_lexer_next 7 end_lexer = Some (self', Some tok)"
    using end_lexer_tokens(1) by auto
  then show ?thesis
    using lexer_next_keyword [OF nxt end_lexer_pos] by (auto simp: demo_def tf_lex_mode_def)
qed

end
