(* ===== verification/Parser.thy ===== *)
theory Parser
  imports Lexer Language "HOL-Library.While_Combinator"
begin

text \<open>
  The parser's data and the operations on its stack (\<^verbatim>\<open>tf_parser.c\<close>): growing, pushing, shifting,
  reducing, the error messages, the keyword demotion and the driver loop. The resolution of a
  conflict (\<^verbatim>\<open>tf_parser__split\<close>) is an argument of the loop.
\<close>

section \<open>Data\<close>

text \<open>A value the sink returned: \<open>None\<close> is \<^verbatim>\<open>NULL\<close>.\<close>

record 'v TFNode =
  nd_symbol :: TSSymbol
  nd_extra :: bool
  nd_start_byte :: u32
  nd_end_byte :: u32
  nd_start_point :: TFPoint
  nd_end_point :: TFPoint
  nd_value :: "'v option"

text \<open>\<open>rd_children\<close> is the run of \<^verbatim>\<open>node_count\<close> cells that \<^verbatim>\<open>children\<close> points to.\<close>

record 'v TFReduction =
  rd_symbol :: TSSymbol
  rd_production_id :: u16
  rd_child_count :: u32
  rd_node_count :: u32
  rd_children :: "'v TFNode list"
  rd_start_byte :: u32
  rd_end_byte :: u32
  rd_start_point :: TFPoint
  rd_end_point :: TFPoint

text \<open>
  The consumer: callbacks over its payload \<open>'p\<close>, handed the payload and returning it. A
  missing callback is \<open>None\<close>.
\<close>

record ('p, 'v) TFSink =
  on_shift :: "('p \<Rightarrow> TFToken \<Rightarrow> bool \<Rightarrow> 'p \<times> 'v option) option"
  on_reduce :: "('p \<Rightarrow> 'v TFReduction \<Rightarrow> 'p \<times> 'v option) option"
  on_discard :: "('p \<Rightarrow> 'v \<Rightarrow> 'p) option"

definition TF_ERROR_MESSAGE_SIZE :: nat where
  "TF_ERROR_MESSAGE_SIZE = 512"

text \<open>\<open>er_message\<close> is the text before the terminating zero.\<close>

record TFError =
  er_byte :: u32
  er_point :: TFPoint
  er_message :: string

text \<open>
  The parser. \<open>ps_nodes\<close> and \<open>ps_states\<close> are the live parts of the two arrays, bottom first:
  \<^verbatim>\<open>depth\<close> is the length of \<open>ps_nodes\<close>, and \<open>ps_states\<close> has one entry more. \<open>ps_capacity\<close> is the
  number of cells allocated. \<open>ps_spec\<close> is what \<^verbatim>\<open>tf_parser__split\<close> keeps between conflicts, of a
  type of its own; \<open>ps_error\<close> is \<open>None\<close> when the caller passed no \<^verbatim>\<open>TFError\<close>.
\<close>

record ('p, 'v, 's) TFParser =
  ps_lang :: TFLanguage
  ps_lexer :: TFLexer
  ps_sink :: "('p, 'v) TFSink"
  ps_payload :: 'p
  ps_states :: "TSStateId list"
  ps_nodes :: "'v TFNode list"
  ps_capacity :: u32
  ps_leading :: nat
  ps_root_emitted :: bool
  ps_error :: "TFError option"
  ps_split_count :: u32
  ps_spec :: "'s option"

definition ps_depth :: "('p, 'v, 's) TFParser \<Rightarrow> nat" where
  "ps_depth self = length (ps_nodes self)"

text \<open>
  How an operation ends: \<^verbatim>\<open>true\<close>; \<^verbatim>\<open>false\<close>, for lack of memory; or in a fault, which is behaviour
  the C standard does not define (or the failed assertion): reading below the bottom of the
  stack, writing past its capacity, printing a buffer nothing was written to, accepting
  before the root was reported.
\<close>

datatype fault = Stack_Underflow | Stack_Overflow | Unset_Message | Root_Missing

datatype op_end = Op_Ok | Op_Oom | Op_Fault fault

section \<open>The stack\<close>

text \<open>The 64-bit doubling of \<^verbatim>\<open>tf_parser__grow\<close>.\<close>

definition grow_capacity :: "u32 \<Rightarrow> u32 \<Rightarrow> u64" where
  "grow_capacity capacity needed =
     while (\<lambda>c. c < ucast needed) (\<lambda>c. c * 2) (if capacity \<noteq> 0 then ucast capacity else 64)"

definition tf_parser_grow ::
  "allocator \<Rightarrow> u32 \<Rightarrow> ('p, 'v, 's) TFParser \<Rightarrow> ('p, 'v, 's) TFParser \<times> bool" where
  "tf_parser_grow mem needed self =
     (if needed \<le> ps_capacity self then (self, True)
      else
        let capacity = grow_capacity (ps_capacity self) needed;
            capacity = (if capacity > ucast UINT32_MAX then ucast UINT32_MAX else capacity);
            states = mem A_parser_states (unat (capacity + 1));
            nodes = mem A_parser_nodes (unat capacity)
        in if \<not> states \<or> \<not> nodes then (self, False)
           else (self\<lparr>ps_capacity := ucast capacity\<rparr>, True))"

definition tf_parser_push ::
  "allocator \<Rightarrow> 'v TFNode \<Rightarrow> TSStateId \<Rightarrow> ('p, 'v, 's) TFParser \<Rightarrow> ('p, 'v, 's) TFParser \<times> op_end" where
  "tf_parser_push mem node state self =
    (let (self, ok) = tf_parser_grow mem (of_nat (ps_depth self) + 1) self
     in if \<not> ok then (self, Op_Oom)
        else if \<not> ps_depth self < unat (ps_capacity self) then (self, Op_Fault Stack_Overflow)
        else (self\<lparr>ps_nodes := ps_nodes self @ [node], ps_states := ps_states self @ [state]\<rparr>, Op_Ok))"

definition tf_parser_emit_shift ::
  "('p, 'v) TFSink \<Rightarrow> 'p \<Rightarrow> TFToken \<Rightarrow> bool \<Rightarrow> 'p \<times> 'v option" where
  "tf_parser_emit_shift sink payload token extra =
     (case on_shift sink of Some f \<Rightarrow> f payload token extra | None \<Rightarrow> (payload, None))"

definition tf_parser_emit_reduce ::
  "('p, 'v) TFSink \<Rightarrow> 'p \<Rightarrow> 'v TFReduction \<Rightarrow> 'p \<times> 'v option" where
  "tf_parser_emit_reduce sink payload reduction =
     (case on_reduce sink of Some f \<Rightarrow> f payload reduction | None \<Rightarrow> (payload, None))"

definition token_node :: "TFToken \<Rightarrow> bool \<Rightarrow> 'v option \<Rightarrow> 'v TFNode" where
  "token_node token extra value =
     \<lparr>nd_symbol = tok_symbol token, nd_extra = extra,
      nd_start_byte = tok_start_byte token, nd_end_byte = tok_end_byte token,
      nd_start_point = tok_start_point token, nd_end_point = tok_end_point token,
      nd_value = value\<rparr>"

definition tf_parser_shift ::
  "allocator \<Rightarrow> TFToken \<Rightarrow> bool \<Rightarrow> TSStateId \<Rightarrow> ('p, 'v, 's) TFParser
     \<Rightarrow> ('p, 'v, 's) TFParser \<times> op_end" where
  "tf_parser_shift mem token extra state self =
    (let (payload, value) = tf_parser_emit_shift (ps_sink self) (ps_payload self) token extra;
         self = self\<lparr>ps_payload := payload\<rparr>;
         self = (if extra \<and> ps_depth self = ps_leading self
                 then self\<lparr>ps_leading := ps_leading self + 1\<rparr> else self)
     in tf_parser_push mem (token_node token extra value) state self)"

section \<open>Error messages\<close>

text \<open>
  \<^verbatim>\<open>snprintf\<close> into the \<open>n\<close> bytes from \<open>at\<close> of a buffer that holds the text \<open>out\<close>: what was before
  \<open>at\<close> stays, and the new text is cut to leave room for the terminating zero.
\<close>

definition print_at :: "string \<Rightarrow> nat \<Rightarrow> nat \<Rightarrow> string \<Rightarrow> string" where
  "print_at out at n txt = take at out @ take (n - 1) txt"

definition tf_parser_fail ::
  "u32 \<Rightarrow> TFPoint \<Rightarrow> string \<Rightarrow> ('p, 'v, 's) TFParser \<Rightarrow> ('p, 'v, 's) TFParser" where
  "tf_parser_fail byte point txt self =
     (case ps_error self of None \<Rightarrow> self
      | Some _ \<Rightarrow>
        self\<lparr>ps_error := Some \<lparr>er_byte = byte, er_point = point,
                               er_message = print_at [] 0 TF_ERROR_MESSAGE_SIZE txt\<rparr>\<rparr>)"

definition tf_parser_symbol_name :: "TFLanguage \<Rightarrow> TSSymbol \<Rightarrow> string" where
  "tf_parser_symbol_name lang symbol =
     (case tf_language_symbol_name lang symbol of Some name \<Rightarrow> name | None \<Rightarrow> ''?'')"

text \<open>
  The scan over the terminals from \<open>symbol\<close> on. The buffer holds \<open>out\<close>, or nothing was written
  to it yet (\<open>None\<close>); \<open>used\<close> and \<open>found\<close> are the local variables, and \<open>found\<close> only tells a first
  name from a later one.
\<close>

fun expected_loop ::
  "TFLanguage \<Rightarrow> TSStateId \<Rightarrow> nat \<Rightarrow> nat list \<Rightarrow> nat \<Rightarrow> bool \<Rightarrow> string option \<Rightarrow> string option" where
  "expected_loop lang state sz [] used found out = out"
| "expected_loop lang state sz (symbol # symbols) used found out =
    (if tf_actions lang state (of_nat symbol) = [] then expected_loop lang state sz symbols used found out
     else
       let txt = (if found then '', '' else []) @ tf_parser_symbol_name lang (of_nat symbol);
           printed = print_at (case out of Some s \<Rightarrow> s | None \<Rightarrow> []) used (sz - used) txt;
           written = length txt
       in if written \<ge> sz - used
          then let back = (if used > 4 then used - 4 else 0)
               in Some (print_at printed back (sz - back) '', ...'')
          else expected_loop lang state sz symbols (used + written) True (Some printed))"

definition tf_parser_describe_expected :: "TFLanguage \<Rightarrow> TSStateId \<Rightarrow> nat \<Rightarrow> string option" where
  "tf_parser_describe_expected lang state sz =
     expected_loop lang state sz [0..<unat (token_count (ts lang))] 0 False None"

text \<open>Nothing reads the buffer when there is no \<^verbatim>\<open>TFError\<close> to print to.\<close>

definition tf_parser_fail_unexpected ::
  "TSStateId \<Rightarrow> TFToken \<Rightarrow> ('p, 'v, 's) TFParser \<Rightarrow> ('p, 'v, 's) TFParser \<times> op_end" where
  "tf_parser_fail_unexpected state token self =
     (case (ps_error self, tf_parser_describe_expected (ps_lang self) state (TF_ERROR_MESSAGE_SIZE div 2)) of
        (None, _) \<Rightarrow> (self, Op_Ok)
      | (Some _, None) \<Rightarrow> (self, Op_Fault Unset_Message)
      | (Some _, Some expected) \<Rightarrow>
        (tf_parser_fail (tok_start_byte token) (tok_start_point token)
           (''expected one of {'' @ expected @ ''}, found '' @
            tf_parser_symbol_name (ps_lang self) (tok_symbol token)) self, Op_Ok))"

section \<open>Reductions\<close>

text \<open>
  The scan down from the top: how many cells hold \<open>child_count\<close> structural ones, and how many
  extras lie above the first of those. \<open>None\<close> when it would read below the bottom.
\<close>

function reduce_scan ::
  "'v TFNode list \<Rightarrow> nat \<Rightarrow> nat \<Rightarrow> nat \<Rightarrow> nat \<Rightarrow> (nat \<times> nat) option" where
  "reduce_scan nodes child_count popped structural trailing_count =
     (if structural < child_count then
        let popped = popped + 1
        in if popped > length nodes then None
           else if \<not> nd_extra (nodes ! (length nodes - popped))
           then reduce_scan nodes child_count popped (structural + 1) trailing_count
           else if structural = 0
           then reduce_scan nodes child_count popped structural (trailing_count + 1)
           else reduce_scan nodes child_count popped structural trailing_count
      else Some (popped, trailing_count))"
  by pat_completeness auto
termination
  by (relation "measure (\<lambda>(nodes, _, popped, _, _). Suc (length nodes) - popped)") auto

declare reduce_scan.simps [simp del]

text \<open>The reduction over the cells \<open>nodes[base ..< end]\<close>, as first filled in.\<close>

definition span_reduction ::
  "TSSymbol \<Rightarrow> u16 \<Rightarrow> u32 \<Rightarrow> 'v TFNode list \<Rightarrow> nat \<Rightarrow> nat \<Rightarrow> 'v TFReduction" where
  "span_reduction symbol production_id child_count nodes base end =
    (let depth = length nodes;
         n = end - base;
         at_byte = (if depth \<noteq> 0 then nd_end_byte (nodes ! (depth - 1)) else 0);
         at_point = (if depth \<noteq> 0 then nd_end_point (nodes ! (depth - 1)) else zero_point)
     in \<lparr>rd_symbol = symbol, rd_production_id = production_id, rd_child_count = child_count,
         rd_node_count = of_nat n, rd_children = take n (drop base nodes),
         rd_start_byte = (if n > 0 then nd_start_byte (nodes ! base) else at_byte),
         rd_end_byte = (if n > 0 then nd_end_byte (nodes ! (end - 1)) else at_byte),
         rd_start_point = (if n > 0 then nd_start_point (nodes ! base) else at_point),
         rd_end_point = (if n > 0 then nd_end_point (nodes ! (end - 1)) else at_point)\<rparr>)"

text \<open>The cell a reduction leaves on the stack.\<close>

definition parent_node :: "'v TFReduction \<Rightarrow> 'v option \<Rightarrow> 'v TFNode" where
  "parent_node reduction value =
     \<lparr>nd_symbol = rd_symbol reduction, nd_extra = False,
      nd_start_byte = rd_start_byte reduction, nd_end_byte = rd_end_byte reduction,
      nd_start_point = rd_start_point reduction, nd_end_point = rd_end_point reduction,
      nd_value = value\<rparr>"

text \<open>The root's reduction: all of the stack and the end token above it.\<close>

definition root_reduction ::
  "TFToken \<Rightarrow> 'v TFNode list \<Rightarrow> 'v option \<Rightarrow> 'v TFReduction \<Rightarrow> 'v TFReduction" where
  "root_reduction lookahead nodes value reduction =
    (let children = nodes @ [token_node lookahead True value];
         total = length nodes + 1
     in reduction\<lparr>rd_node_count := of_nat total, rd_children := children,
          rd_start_byte := (if total > 1 then nd_start_byte (children ! 0) else tok_start_byte lookahead),
          rd_start_point := (if total > 1 then nd_start_point (children ! 0) else tok_start_point lookahead),
          rd_end_byte := tok_end_byte lookahead, rd_end_point := tok_end_point lookahead\<rparr>)"

definition absorb_end ::
  "allocator \<Rightarrow> TFToken \<Rightarrow> 'v TFReduction \<Rightarrow> ('p, 'v, 's) TFParser
     \<Rightarrow> ('p, 'v, 's) TFParser \<times> 'v TFReduction \<times> op_end" where
  "absorb_end mem lookahead reduction self =
    (let (self, ok) = tf_parser_grow mem (of_nat (ps_depth self) + 1) self
     in if \<not> ok then (self, reduction, Op_Oom)
        else if \<not> ps_depth self < unat (ps_capacity self) then (self, reduction, Op_Fault Stack_Overflow)
        else
          let (payload, value) = tf_parser_emit_shift (ps_sink self) (ps_payload self) lookahead True
          in (self\<lparr>ps_root_emitted := True, ps_payload := payload\<rparr>,
              root_reduction lookahead (ps_nodes self) value reduction, Op_Ok))"

text \<open>The parent takes the cell at \<open>base\<close>, with the trailing extras on top of it in its state.\<close>

definition place_parent ::
  "allocator \<Rightarrow> nat \<Rightarrow> nat \<Rightarrow> TSStateId \<Rightarrow> 'v TFNode \<Rightarrow> ('p, 'v, 's) TFParser
     \<Rightarrow> ('p, 'v, 's) TFParser \<times> op_end" where
  "place_parent mem base end state parent self =
    (let trailing_count = ps_depth self - end;
         (self, ok) = tf_parser_grow mem (of_nat (base + 1 + trailing_count)) self
     in if \<not> ok then (self, Op_Oom)
        else if \<not> base + 1 + trailing_count \<le> unat (ps_capacity self)
        then (self, Op_Fault Stack_Overflow)
        else (self\<lparr>ps_nodes := take base (ps_nodes self) @ parent # drop end (ps_nodes self),
                   ps_states := take (base + 1) (ps_states self) @ replicate (1 + trailing_count) state\<rparr>,
              Op_Ok))"

definition tf_parser_reduce ::
  "allocator \<Rightarrow> TSSymbol \<Rightarrow> u32 \<Rightarrow> u16 \<Rightarrow> TFToken option \<Rightarrow> ('p, 'v, 's) TFParser
     \<Rightarrow> ('p, 'v, 's) TFParser \<times> op_end" where
  "tf_parser_reduce mem symbol child_count production_id lookahead self =
    (case reduce_scan (ps_nodes self) (unat child_count) 0 0 0 of
       None \<Rightarrow> (self, Op_Fault Stack_Underflow)
     | Some (popped, trailing_count) \<Rightarrow>
       let base = ps_depth self - popped;
           end = ps_depth self - trailing_count;
           reduction = span_reduction symbol production_id child_count (ps_nodes self) base end;
           state = tf_next_state (ps_lang self) (ps_states self ! base) symbol;
           (self, emitted, ended) =
             (case lookahead of
                Some token \<Rightarrow>
                  if tok_symbol token = 0 \<and> base = ps_leading self \<and> accepts_end (ps_lang self) ! unat state
                  then absorb_end mem token reduction self else (self, reduction, Op_Ok)
              | None \<Rightarrow> (self, reduction, Op_Ok))
       in if ended \<noteq> Op_Ok then (self, ended)
          else
            let (payload, value) = tf_parser_emit_reduce (ps_sink self) (ps_payload self) emitted
            in place_parent mem base end state (parent_node reduction value) (self\<lparr>ps_payload := payload\<rparr>))"

section \<open>Keywords\<close>

definition tf_parser_demote_keyword :: "TFLanguage \<Rightarrow> TSStateId \<Rightarrow> TFToken \<Rightarrow> bool \<Rightarrow> TFToken option" where
  "tf_parser_demote_keyword lang state token was_keyword =
    (if \<not> was_keyword \<or> tok_symbol token = keyword_capture_token (ts lang) then None
     else if tf_is_reserved_word lang state (tok_symbol token) then None
     else if tf_actions lang state (keyword_capture_token (ts lang)) = [] then None
     else Some (token\<lparr>tok_symbol := keyword_capture_token (ts lang)\<rparr>))"

section \<open>The driver loop\<close>

text \<open>
  Where the two nested loops of \<^verbatim>\<open>tf_parser__run\<close> stand: before lexing a token, at the dispatch of
  the token in a state, at the \<^verbatim>\<open>oom\<close> label, or at the \<^verbatim>\<open>done\<close> label with what it is done with.
\<close>

datatype 'v run_end = Parsed "'v option" | Failed | Fault fault

datatype 'v control = Lex | Dispatch TSStateId | Out_Of_Memory | Done "'v run_end"

text \<open>
  \<^verbatim>\<open>tf_parser__split\<close>: it resolves a conflict at the token and gives the token to go on with, or
  has failed and reported why; \<open>None\<close> when it does not return.
\<close>

datatype split_end = Split_Ok TFToken | Split_Failed | Split_Fault fault

type_synonym ('p, 'v, 's) splitter =
  "TFToken \<Rightarrow> ('p, 'v, 's) TFParser \<Rightarrow> (('p, 'v, 's) TFParser \<times> split_end) option"

definition top_state :: "('p, 'v, 's) TFParser \<Rightarrow> TSStateId" where
  "top_state self = ps_states self ! ps_depth self"

definition tf_parser_lex ::
  "TFToken \<Rightarrow> ('p, 'v, 's) TFParser \<Rightarrow> (('p, 'v, 's) TFParser \<times> TFToken \<times> 'v control) option" where
  "tf_parser_lex token self =
    (let state = top_state self
     in map_option (\<lambda>(lexer, lexed).
          let self = self\<lparr>ps_lexer := lexer\<rparr>
          in case lexed of
               None \<Rightarrow> (tf_parser_fail (lx_byte lexer) (lx_point lexer) ''unexpected character'' self,
                        token, Done Failed)
             | Some token \<Rightarrow> (self, token, Dispatch state))
        (tf_lexer_next state (ps_lexer self)))"

text \<open>An error report, after which the loop is done.\<close>

definition unexpected ::
  "TSStateId \<Rightarrow> TFToken \<Rightarrow> ('p, 'v, 's) TFParser \<Rightarrow> ('p, 'v, 's) TFParser \<times> TFToken \<times> 'v control" where
  "unexpected state token self =
    (let (self, ended) = tf_parser_fail_unexpected state token self
     in (self, token, Done (case ended of Op_Fault f \<Rightarrow> Fault f | _ \<Rightarrow> Failed)))"

text \<open>Where the loop goes after an operation that can run out of memory.\<close>

definition after_op :: "'v control \<Rightarrow> op_end \<Rightarrow> 'v control" where
  "after_op next ended = (case ended of Op_Ok \<Rightarrow> next | Op_Oom \<Rightarrow> Out_Of_Memory | Op_Fault f \<Rightarrow> Done (Fault f))"

definition tf_parser_act ::
  "allocator \<Rightarrow> TSStateId \<Rightarrow> TFToken \<Rightarrow> TSParseAction \<Rightarrow> ('p, 'v, 's) TFParser
     \<Rightarrow> ('p, 'v, 's) TFParser \<times> TFToken \<times> 'v control" where
  "tf_parser_act mem state token action self =
    (case action of
       Shift next_state extra repetition \<Rightarrow>
         let (self, ended) = tf_parser_shift mem token extra (if extra then state else next_state) self
         in (self, token, after_op Lex ended)
     | Reduce child_count symbol dynamic_precedence production_id \<Rightarrow>
         let (self, ended) = tf_parser_reduce mem symbol (ucast child_count) production_id (Some token) self
         in (self, token, after_op (Dispatch (top_state self)) ended)
     | Accept \<Rightarrow>
         if \<not> ps_root_emitted self then (self, token, Done (Fault Root_Missing))
         else (self, token, Done (Parsed (if ps_leading self < ps_depth self
                                          then nd_value (ps_nodes self ! ps_leading self) else None)))
     | Recover \<Rightarrow> unexpected state token self)"

definition tf_parser_dispatch ::
  "allocator \<Rightarrow> ('p, 'v, 's) splitter \<Rightarrow> TSStateId \<Rightarrow> TFToken \<Rightarrow> ('p, 'v, 's) TFParser
     \<Rightarrow> (('p, 'v, 's) TFParser \<times> TFToken \<times> 'v control) option" where
  "tf_parser_dispatch mem split state token self =
    (case tf_actions (ps_lang self) state (tok_symbol token) of
       [] \<Rightarrow> Some (case tf_parser_demote_keyword (ps_lang self) state token (token_is_keyword (ps_lexer self)) of
                     Some token \<Rightarrow> (self, token, Dispatch state)
                   | None \<Rightarrow> unexpected state token self)
     | [action] \<Rightarrow> Some (tf_parser_act mem state token action self)
     | _ \<Rightarrow> map_option (\<lambda>(self, ended). case ended of
                Split_Ok token \<Rightarrow> (self, token, Dispatch (top_state self))
              | Split_Failed \<Rightarrow> (self, token, Done Failed)
              | Split_Fault f \<Rightarrow> (self, token, Done (Fault f)))
            (split token self))"

text \<open>The loops. \<open>None\<close> is a parse that does not return.\<close>

partial_function (option) tf_parser_loop ::
  "allocator \<Rightarrow> ('p, 'v, 's) splitter \<Rightarrow> ('p, 'v, 's) TFParser \<times> TFToken \<times> 'v control
     \<Rightarrow> (('p, 'v, 's) TFParser \<times> 'v run_end) option" where
  "tf_parser_loop mem split x =
    (case x of (self, token, control) \<Rightarrow>
       case control of
         Lex \<Rightarrow> Option.bind (tf_parser_lex token self) (tf_parser_loop mem split)
       | Dispatch state \<Rightarrow>
           Option.bind (tf_parser_dispatch mem split state token self) (tf_parser_loop mem split)
       | Out_Of_Memory \<Rightarrow>
           Some (tf_parser_fail (tok_start_byte token) (tok_start_point token) ''out of memory'' self, Failed)
       | Done ended \<Rightarrow> Some (self, ended))"

declare tf_parser_loop.simps [code]

text \<open>The values of a stack that was given up go back to the consumer, bottom first.\<close>

definition discard_values :: "('p, 'v) TFSink \<Rightarrow> 'v TFNode list \<Rightarrow> 'p \<Rightarrow> 'p" where
  "discard_values sink nodes payload =
    (case on_discard sink of None \<Rightarrow> payload
     | Some discard \<Rightarrow>
       fold (\<lambda>node payload. case nd_value node of None \<Rightarrow> payload | Some v \<Rightarrow> discard payload v) nodes payload)"

definition no_sink :: "('p, 'v) TFSink" where
  "no_sink = \<lparr>on_shift = None, on_reduce = None, on_discard = None\<rparr>"

definition zero_token :: TFToken where
  "zero_token = \<lparr>tok_symbol = 0, tok_start_byte = 0, tok_end_byte = 0,
     tok_start_point = zero_point, tok_end_point = zero_point\<rparr>"

definition zero_error :: TFError where
  "zero_error = \<lparr>er_byte = 0, er_point = zero_point, er_message = []\<rparr>"

text \<open>
  \<^verbatim>\<open>tf_parser__run\<close>, on the \<open>sz\<close> bytes of \<open>source\<close>: the payload and the error the caller is left
  with, and how the parse ended. \<open>want_error\<close> is whether the caller passed a \<^verbatim>\<open>TFError\<close>. A fault
  ends the run where it happens.
\<close>

definition tf_parser_run ::
  "allocator \<Rightarrow> ('p, 'v, 's) splitter \<Rightarrow> TFLanguage \<Rightarrow> u8 list \<Rightarrow> u64 \<Rightarrow> ('p, 'v) TFSink option
     \<Rightarrow> bool \<Rightarrow> 'p \<Rightarrow> ('p \<times> TFError option \<times> 'v run_end) option" where
  "tf_parser_run mem split lang source sz sink want_error payload =
    (let self = \<lparr>ps_lang = lang, ps_lexer = tf_lexer_init lang source (ucast sz),
                 ps_sink = (case sink of Some s \<Rightarrow> s | None \<Rightarrow> no_sink), ps_payload = payload,
                 ps_states = [], ps_nodes = [], ps_capacity = 0, ps_leading = 0,
                 ps_root_emitted = False, ps_error = (if want_error then Some zero_error else None),
                 ps_split_count = 0, ps_spec = None\<rparr>
     in if sz > ucast UINT32_MAX
        then Some (payload, ps_error (tf_parser_fail 0 zero_point ''input is larger than 4 GiB'' self), Failed)
        else
          let (self, ok) = tf_parser_grow mem 64 self
          in map_option (\<lambda>(self, ended).
               (case ended of Failed \<Rightarrow> discard_values (ps_sink self) (ps_nodes self) (ps_payload self)
                | _ \<Rightarrow> ps_payload self, ps_error self, ended))
               (tf_parser_loop mem split
                  (if ok then (self\<lparr>ps_states := [1]\<rparr>, zero_token, Lex)
                   else (self, zero_token, Out_Of_Memory))))"

end
