(* ===== verification/Parser_Stack.thy ===== *)
theory Parser_Stack
  imports Parser
begin

text \<open>
  Lemmas on the stack operations: the capacity arithmetic, what a push, a shift and a
  reduction do to the stack on every branch, and the decomposition the reduction's scan finds.
\<close>

section \<open>Growing\<close>

lemma grow_capacity_bounds:
  "unat needed \<le> unat (grow_capacity capacity needed) \<and> unat (grow_capacity capacity needed) < 2 ^ 33"
proof -
  let ?start = "if capacity \<noteq> 0 then ucast capacity else 64 :: u64"
  define P where "P c \<longleftrightarrow> c \<noteq> 0 \<and> unat (c :: u64) < 2 ^ 33" for c
  have uneeded: "unat (ucast needed :: u64) = unat needed" by simp
  have wide: "unat (ucast capacity :: u64) = unat capacity" by simp
  have "unat capacity < 2 ^ 33" by (rule less_trans [OF unat_u32_less]) simp
  then have start: "P ?start"
    using wide by (auto simp: P_def simp flip: unat_eq_0)
  have double: "unat (c * 2) = unat c * 2" "P (c * 2)" if "P c" "c < ucast needed" for c
  proof -
    have "unat c < unat needed" using that(2) uneeded by (simp add: word_less_nat_alt)
    then have small: "unat c < 4294967296" using unat_u32_less by (rule less_trans)
    then show eq: "unat (c * 2) = unat c * 2" by (simp add: unat_word_ariths)
    moreover have "unat c \<noteq> 0" using that(1) by (simp add: P_def unat_eq_0)
    ultimately show "P (c * 2)"
      using small unfolding P_def unat_eq_0 [symmetric] by simp
  qed
  show ?thesis
    unfolding grow_capacity_def
  proof (rule while_rule [where P = P and r = "measure (\<lambda>c. 2 ^ 33 - unat c)"])
    show "P ?start" by (rule start)
    show "P (c * 2)" if "P c" "c < ucast needed" for c using double that by blast
    show "unat needed \<le> unat c \<and> unat c < 2 ^ 33" if "P c" "\<not> c < ucast needed" for c
      using that uneeded by (simp add: P_def word_less_nat_alt)
    show "(c * 2, c) \<in> measure (\<lambda>c. 2 ^ 33 - unat c)" if "P c" "c < ucast needed" for c
      using that double [OF that] by (simp add: P_def unat_gt_0 diff_less_mono2)
  qed simp
qed

text \<open>The doubling stops as soon as it is enough.\<close>

lemma grow_capacity_doubles:
  defines "start capacity \<equiv> (if capacity \<noteq> 0 then unat (capacity :: u32) else 64)"
  obtains k where "unat (grow_capacity capacity needed) = start capacity * 2 ^ k"
    "k = 0 \<or> start capacity * 2 ^ (k - 1) < unat needed"
proof -
  let ?start = "if capacity \<noteq> 0 then ucast capacity else 64 :: u64"
  define P where "P c \<longleftrightarrow> (\<exists>k. unat (c :: u64) = start capacity * 2 ^ k \<and>
      (k = 0 \<or> start capacity * 2 ^ (k - 1) < unat needed)) \<and> c \<noteq> 0" for c
  have uneeded: "unat (ucast needed :: u64) = unat needed" by simp
  have P0: "P ?start"
    unfolding P_def by (intro conjI exI [of _ 0]) (auto simp: start_def simp flip: unat_eq_0)
  have double: "unat (c * 2) = unat c * 2" "P (c * 2)" if P: "P c" and c: "c < ucast needed" for c
  proof -
    have less: "unat c < unat needed" using c uneeded by (simp add: word_less_nat_alt)
    then have "unat c < 4294967296" using unat_u32_less by (rule less_trans)
    then show eq: "unat (c * 2) = unat c * 2" by (simp add: unat_word_ariths)
    obtain k where k: "unat c = start capacity * 2 ^ k" using P by (auto simp: P_def)
    have "unat (c * 2) \<noteq> 0" using P eq by (simp add: P_def unat_eq_0)
    then have "c * 2 \<noteq> 0" by auto
    then show "P (c * 2)"
      unfolding P_def using k eq less by (intro conjI exI [of _ "Suc k"]) auto
  qed
  have "P (grow_capacity capacity needed)"
    unfolding grow_capacity_def
  proof (rule while_rule [where P = P and r = "measure (\<lambda>c. 2 ^ 33 - unat c)"])
    show "P ?start" by (rule P0)
    show "P (c * 2)" if "P c" "c < ucast needed" for c using double that by blast
    show "(c * 2, c) \<in> measure (\<lambda>c. 2 ^ 33 - unat c)" if "P c" "c < ucast needed" for c
    proof -
      have "unat c < unat needed" using that(2) uneeded by (simp add: word_less_nat_alt)
      then have "unat c < 4294967296" using unat_u32_less by (rule less_trans)
      moreover have "unat c \<noteq> 0" using that(1) by (simp add: P_def unat_eq_0)
      ultimately show ?thesis using double(1) [OF that] by simp
    qed
  qed simp_all
  then show thesis using that by (auto simp: P_def)
qed

lemma grow_shape:
  assumes "tf_parser_grow mem needed self = (self', ok)"
  shows "\<exists>c \<ge> ps_capacity self. self' = self\<lparr>ps_capacity := c\<rparr> \<and> (ok \<longrightarrow> needed \<le> c)"
proof (cases "needed \<le> ps_capacity self \<or> \<not> ok")
  case True
  then have "self' = self" "ok \<longrightarrow> needed \<le> ps_capacity self"
    using assms by (auto simp: tf_parser_grow_def Let_def split: if_split_asm)
  moreover have "self = self\<lparr>ps_capacity := ps_capacity self\<rparr>" by simp
  ultimately show ?thesis by (metis order_refl)
next
  case False
  define g where "g = grow_capacity (ps_capacity self) needed"
  define c :: u64 where "c = (if g > ucast UINT32_MAX then ucast UINT32_MAX else g)"
  have self': "self' = self\<lparr>ps_capacity := ucast c\<rparr>"
    using assms False by (auto simp: tf_parser_grow_def Let_def g_def c_def split: if_split_asm)
  have "unat needed \<le> unat g" using grow_capacity_bounds by (simp add: g_def)
  then have "unat needed \<le> unat c" "unat c < 2 ^ 32"
    using unat_u32_less [of needed] by (auto simp: c_def word_less_nat_alt simp del: unat_u32_less split: if_splits)
  then have "needed \<le> ucast c"
    by (simp add: word_le_nat_alt unsigned_ucast_eq take_bit_nat_eq_self)
  then show ?thesis using self' False by (intro exI [of _ "ucast c"]) auto
qed

lemma grow_cases:
  obtains c ok where "tf_parser_grow mem needed self = (self\<lparr>ps_capacity := c\<rparr>, ok)"
    "ps_capacity self \<le> c" "ok \<Longrightarrow> needed \<le> c"
  using grow_shape [of mem needed self] by (cases "tf_parser_grow mem needed self") auto

section \<open>The scan of a reduction\<close>

definition structural :: "'v TFNode list \<Rightarrow> nat" where
  "structural nodes = length (filter (\<lambda>n. \<not> nd_extra n) nodes)"

lemma structural_simps [simp]:
  "structural [] = 0"
  "structural (n # nodes) = (if nd_extra n then structural nodes else Suc (structural nodes))"
  "structural (xs @ ys) = structural xs + structural ys"
  by (simp_all add: structural_def)

text \<open>The same scan over the stack from the top down, collecting what it crosses.\<close>

fun take_kids :: "nat \<Rightarrow> 'v TFNode list \<Rightarrow> ('v TFNode list \<times> 'v TFNode list) option" where
  "take_kids 0 rs = Some ([], rs)"
| "take_kids (Suc n) [] = None"
| "take_kids (Suc n) (x # rs) =
     map_option (\<lambda>(ks, rest). (x # ks, rest)) (take_kids (if nd_extra x then Suc n else n) rs)"

lemma take_kids_split:
  "take_kids c rs = Some (ks, rest) \<Longrightarrow>
     rs = ks @ rest \<and> structural ks = c \<and> (if c = 0 then ks = [] else ks \<noteq> [] \<and> \<not> nd_extra (last ks))"
  by (induction c rs arbitrary: ks rest rule: take_kids.induct) (auto split: if_splits)

lemma take_kids_None: "take_kids c rs = None \<longleftrightarrow> structural rs < c"
  by (induction c rs rule: take_kids.induct) auto

lemma takeWhile_extra_snoc:
  "takeWhile nd_extra (pre @ [x]) =
     (if structural pre = 0 \<and> nd_extra x then takeWhile nd_extra pre @ [x] else takeWhile nd_extra pre)"
  by (induction pre) auto

lemma reduce_scan_take_kids:
  assumes "rev nodes = pre @ rs" and "structural pre \<le> c"
  shows "reduce_scan nodes c (length pre) (structural pre) (length (takeWhile nd_extra pre)) =
     map_option (\<lambda>(ks, rest). (length (pre @ ks), length (takeWhile nd_extra (pre @ ks))))
       (take_kids (c - structural pre) rs)"
  using assms
proof (induction rs arbitrary: pre)
  case Nil
  then have "length pre = length nodes" by (metis append_Nil2 length_rev)
  then show ?case
    using Nil(2) by (subst reduce_scan.simps) (cases "c - structural pre", auto simp: Let_def)
next
  case (Cons x rs)
  have len: "length nodes = length pre + Suc (length rs)"
    using arg_cong [OF Cons(2), of length] by simp
  have "nodes ! (length nodes - Suc (length pre)) = rev nodes ! length pre"
    using len by (simp add: rev_nth)
  then have x: "nodes ! (length nodes - Suc (length pre)) = x" using Cons(2) by simp
  note IH = Cons(1) [of "pre @ [x]"]
  show ?case
  proof (cases "c - structural pre")
    case 0
    then show ?thesis by (subst reduce_scan.simps) simp
  next
    case (Suc n)
    then have "c - Suc (structural pre) = n" "structural pre < c" by auto
    then show ?thesis
      using IH Cons(2) Suc len x takeWhile_extra_snoc [of pre x]
      by (subst reduce_scan.simps) (auto simp: Let_def option.map_comp comp_def split_def)
  qed
qed

text \<open>
  What a reduction finds: the stack is a part below, the cells of the children with the
  extras between them, and the extras above.
\<close>

definition reduce_split ::
  "nat \<Rightarrow> 'v TFNode list \<Rightarrow> 'v TFNode list \<Rightarrow> 'v TFNode list \<Rightarrow> 'v TFNode list \<Rightarrow> bool" where
  "reduce_split c nodes below kids trail \<longleftrightarrow>
     nodes = below @ kids @ trail \<and> structural kids = c \<and> list_all nd_extra trail \<and>
     (if c = 0 then kids = [] \<and> trail = []
      else kids \<noteq> [] \<and> \<not> nd_extra (hd kids) \<and> \<not> nd_extra (last kids))"

lemma length_take_drop_While: "length (dropWhile P xs) + length (takeWhile P xs) = length xs"
  by (metis add.commute length_append takeWhile_dropWhile_id)

lemma reduce_scan_Some:
  assumes "reduce_scan nodes c 0 0 0 = Some (popped, trailing)"
  obtains below kids trail where "reduce_split c nodes below kids trail"
    "popped = length kids + length trail" "trailing = length trail"
proof -
  have "map_option (\<lambda>(ks, rest). (length ks, length (takeWhile nd_extra ks))) (take_kids c (rev nodes))
      = Some (popped, trailing)"
    using assms reduce_scan_take_kids [of nodes "[]" "rev nodes" c] by simp
  then obtain ks rest where ks: "take_kids c (rev nodes) = Some (ks, rest)"
    and res: "popped = length ks" "trailing = length (takeWhile nd_extra ks)"
    by (auto simp: map_option_eq_Some)
  note split = take_kids_split [OF ks]
  let ?kids = "rev (dropWhile nd_extra ks)" and ?trail = "rev (takeWhile nd_extra ks)"
  have "rev (rev nodes) = rev rest @ rev ks" using split by simp
  then have "nodes = rev rest @ ?kids @ ?trail"
    by (simp flip: rev_append)
  moreover have "structural ?kids = c"
  proof -
    have "structural ks = structural (takeWhile nd_extra ks) + structural (dropWhile nd_extra ks)"
      by (metis structural_simps(3) takeWhile_dropWhile_id)
    moreover have "structural (takeWhile nd_extra xs) = 0" for xs :: "'a TFNode list" by (induction xs) auto
    moreover have "structural (rev xs) = structural xs" for xs :: "'a TFNode list" by (induction xs) auto
    ultimately show ?thesis using split by simp
  qed
  moreover have "list_all nd_extra ?trail" by (auto simp: list_all_iff dest: set_takeWhileD)
  moreover have "if c = 0 then ?kids = [] \<and> ?trail = []
      else ?kids \<noteq> [] \<and> \<not> nd_extra (hd ?kids) \<and> \<not> nd_extra (last ?kids)"
  proof (cases "c = 0")
    case True
    then show ?thesis using split by simp
  next
    case False
    then have ne: "dropWhile nd_extra ks \<noteq> []"
      using split by (metis dropWhile_eq_Nil_conv last_in_set)
    then have "\<not> nd_extra (hd (dropWhile nd_extra ks))" by (rule hd_dropWhile)
    moreover have "last (dropWhile nd_extra ks) = last ks"
      using ne by (metis last_appendR takeWhile_dropWhile_id)
    ultimately show ?thesis using ne split False by (simp add: hd_rev last_rev)
  qed
  ultimately have "reduce_split c nodes (rev rest) ?kids ?trail" by (simp add: reduce_split_def)
  then show thesis
    by (rule that) (simp_all add: res length_take_drop_While)
qed

lemma reduce_scan_None: "reduce_scan nodes c 0 0 0 = None \<longleftrightarrow> structural nodes < c"
proof -
  have "structural (rev xs) = structural xs" for xs :: "'a TFNode list" by (induction xs) auto
  then show ?thesis
    using reduce_scan_take_kids [of nodes "[]" "rev nodes" c] take_kids_None [of c "rev nodes"] by simp
qed

section \<open>Pushing and shifting\<close>

lemma push_cases:
  assumes "tf_parser_push mem node state self = (self', e)"
  obtains c where "self' = self\<lparr>ps_capacity := c, ps_nodes := ps_nodes self @ [node],
      ps_states := ps_states self @ [state]\<rparr>" "e = Op_Ok" "ps_depth self < unat c"
    | c where "self' = self\<lparr>ps_capacity := c\<rparr>" "e = Op_Oom \<or> e = Op_Fault Stack_Overflow"
proof (cases rule: grow_cases [of mem "of_nat (ps_depth self) + 1" self])
  case (1 c ok)
  have depth: "ps_depth (self\<lparr>ps_capacity := c\<rparr>) = ps_depth self" by (simp add: ps_depth_def)
  have push: "tf_parser_push mem node state self =
     (if \<not> ok then (self\<lparr>ps_capacity := c\<rparr>, Op_Oom)
      else if \<not> ps_depth self < unat c then (self\<lparr>ps_capacity := c\<rparr>, Op_Fault Stack_Overflow)
      else (self\<lparr>ps_capacity := c, ps_nodes := ps_nodes self @ [node], ps_states := ps_states self @ [state]\<rparr>, Op_Ok))"
    unfolding tf_parser_push_def 1(1) Let_def prod.case depth by simp
  show thesis
  proof (cases "ok \<and> ps_depth self < unat c")
    case True
    then show thesis using push assms by (intro that(1) [of c]) simp_all
  next
    case False
    then show thesis using push assms by (intro that(2) [of c]) (auto split: if_splits)
  qed
qed

text \<open>The extras at the bottom of the stack, counted while nothing else was shifted.\<close>

definition bump_leading :: "bool \<Rightarrow> ('p, 'v, 's) TFParser \<Rightarrow> nat" where
  "bump_leading extra self =
     (if extra \<and> ps_depth self = ps_leading self then ps_leading self + 1 else ps_leading self)"

lemma shift_Ok:
  assumes "tf_parser_shift mem token extra state self = (self', Op_Ok)"
  obtains p v c where "tf_parser_emit_shift (ps_sink self) (ps_payload self) token extra = (p, v)"
    "self' = self\<lparr>ps_payload := p, ps_leading := bump_leading extra self, ps_capacity := c,
       ps_nodes := ps_nodes self @ [token_node token extra v], ps_states := ps_states self @ [state]\<rparr>"
    "ps_depth self < unat c"
proof -
  obtain p v where emit: "tf_parser_emit_shift (ps_sink self) (ps_payload self) token extra = (p, v)"
    by (cases "tf_parser_emit_shift (ps_sink self) (ps_payload self) token extra")
  define s1 where "s1 = self\<lparr>ps_payload := p, ps_leading := bump_leading extra self\<rparr>"
  have push: "tf_parser_push mem (token_node token extra v) state s1 = (self', Op_Ok)"
    using assms emit
    by (cases "extra \<and> ps_depth self = ps_leading self")
       (auto simp: tf_parser_shift_def s1_def bump_leading_def ps_depth_def Let_def)
  then show thesis
    by (cases rule: push_cases) (use that emit in \<open>auto simp: s1_def ps_depth_def\<close>)
qed

lemma shift_not_Ok:
  assumes "tf_parser_shift mem token extra state self = (self', e)" and "e \<noteq> Op_Ok"
  shows "e = Op_Oom \<or> e = Op_Fault Stack_Overflow"
    and "ps_nodes self' = ps_nodes self"
    and "\<exists>p c l. self' = self\<lparr>ps_payload := p, ps_leading := l, ps_capacity := c\<rparr>"
proof -
  obtain p v where emit: "tf_parser_emit_shift (ps_sink self) (ps_payload self) token extra = (p, v)"
    by (cases "tf_parser_emit_shift (ps_sink self) (ps_payload self) token extra")
  define s1 where "s1 = self\<lparr>ps_payload := p, ps_leading := bump_leading extra self\<rparr>"
  have push: "tf_parser_push mem (token_node token extra v) state s1 = (self', e)"
    using assms(1) emit
    by (cases "extra \<and> ps_depth self = ps_leading self")
       (auto simp: tf_parser_shift_def s1_def bump_leading_def ps_depth_def Let_def)
  obtain c where "self' = s1\<lparr>ps_capacity := c\<rparr>" "e = Op_Oom \<or> e = Op_Fault Stack_Overflow"
    using push by (cases rule: push_cases) (use assms(2) in auto)
  then show "e = Op_Oom \<or> e = Op_Fault Stack_Overflow" "ps_nodes self' = ps_nodes self"
    "\<exists>p c l. self' = self\<lparr>ps_payload := p, ps_leading := l, ps_capacity := c\<rparr>"
    by (auto simp: s1_def)
qed

section \<open>Reducing\<close>

text \<open>The reduction over the cells \<open>kids\<close> above \<open>below\<close>.\<close>

definition reduction_over ::
  "TSSymbol \<Rightarrow> u16 \<Rightarrow> u32 \<Rightarrow> 'v TFNode list \<Rightarrow> 'v TFNode list \<Rightarrow> 'v TFReduction" where
  "reduction_over symbol production_id child_count below kids =
     \<lparr>rd_symbol = symbol, rd_production_id = production_id, rd_child_count = child_count,
      rd_node_count = of_nat (length kids), rd_children = kids,
      rd_start_byte = (if kids \<noteq> [] then nd_start_byte (hd kids)
                       else if below \<noteq> [] then nd_end_byte (last below) else 0),
      rd_end_byte = (if kids \<noteq> [] then nd_end_byte (last kids)
                     else if below \<noteq> [] then nd_end_byte (last below) else 0),
      rd_start_point = (if kids \<noteq> [] then nd_start_point (hd kids)
                        else if below \<noteq> [] then nd_end_point (last below) else zero_point),
      rd_end_point = (if kids \<noteq> [] then nd_end_point (last kids)
                      else if below \<noteq> [] then nd_end_point (last below) else zero_point)\<rparr>"

lemma span_reduction_split:
  assumes "reduce_split (unat child_count) nodes below kids trail"
  shows "span_reduction symbol production_id child_count nodes (length below) (length below + length kids)
     = reduction_over symbol production_id child_count below kids"
proof (cases "kids = []")
  case True
  then have "nodes = below" using assms by (auto simp: reduce_split_def split: if_splits)
  then show ?thesis
    using True by (simp add: span_reduction_def reduction_over_def Let_def last_conv_nth)
next
  case False
  have nodes: "nodes = below @ kids @ trail" using assms by (simp add: reduce_split_def)
  have "nodes ! length below = hd kids" using False by (simp add: nodes nth_append hd_conv_nth)
  moreover have "nodes ! (length below + length kids - 1) = last kids"
    using False nth_append_length_plus [of below "kids @ trail" "length kids - 1"]
    by (cases kids) (simp_all add: nodes nth_append last_conv_nth)
  moreover have "take (length kids) (drop (length below) nodes) = kids" by (simp add: nodes)
  ultimately show ?thesis
    using False by (simp add: span_reduction_def reduction_over_def Let_def)
qed

text \<open>Whether a reduction from \<open>base\<close> to \<open>state\<close> is the root's, before the token \<open>lookahead\<close>.\<close>

definition root_due :: "TFToken option \<Rightarrow> nat \<Rightarrow> TSStateId \<Rightarrow> ('p, 'v, 's) TFParser \<Rightarrow> bool" where
  "root_due lookahead base state self =
     (case lookahead of None \<Rightarrow> False
      | Some token \<Rightarrow> tok_symbol token = 0 \<and> base = ps_leading self \<and> accepts_end (ps_lang self) ! unat state)"

text \<open>What the sink is told: the reduction, or the end token and then the root over everything.\<close>

definition emit_reduction ::
  "TFToken option \<Rightarrow> bool \<Rightarrow> 'v TFReduction \<Rightarrow> ('p, 'v, 's) TFParser \<Rightarrow> 'p \<times> 'v option" where
  "emit_reduction lookahead root rd self =
     (if root then
        let (p, v) = tf_parser_emit_shift (ps_sink self) (ps_payload self) (the lookahead) True
        in tf_parser_emit_reduce (ps_sink self) p (root_reduction (the lookahead) (ps_nodes self) v rd)
      else tf_parser_emit_reduce (ps_sink self) (ps_payload self) rd)"

lemma place_parent_cases:
  assumes "place_parent mem (length below) (length below + length kids) state parent self = (self', e)"
    and "ps_nodes self = below @ kids @ trail"
  obtains c where "e = Op_Ok" "length below + 1 + length trail \<le> unat c"
      "self' = self\<lparr>ps_capacity := c, ps_nodes := below @ parent # trail,
         ps_states := take (length below + 1) (ps_states self) @ replicate (1 + length trail) state\<rparr>"
    | c where "e = Op_Oom \<or> e = Op_Fault Stack_Overflow" "self' = self\<lparr>ps_capacity := c\<rparr>"
proof -
  have tc: "ps_depth self - (length below + length kids) = length trail"
    using assms(2) by (simp add: ps_depth_def)
  show thesis
  proof (cases rule: grow_cases [of mem "of_nat (length below + 1 + length trail)" self])
    case (1 c ok)
    have pp: "place_parent mem (length below) (length below + length kids) state parent self =
       (if \<not> ok then (self\<lparr>ps_capacity := c\<rparr>, Op_Oom)
        else if \<not> length below + 1 + length trail \<le> unat c
        then (self\<lparr>ps_capacity := c\<rparr>, Op_Fault Stack_Overflow)
        else (self\<lparr>ps_capacity := c, ps_nodes := below @ parent # trail,
           ps_states := take (length below + 1) (ps_states self) @ replicate (1 + length trail) state\<rparr>, Op_Ok))"
      unfolding place_parent_def Let_def tc 1(1) prod.case using assms(2) by simp
    show thesis
    proof (cases "ok \<and> length below + 1 + length trail \<le> unat c")
      case True
      then have "(self', e) = (self\<lparr>ps_capacity := c, ps_nodes := below @ parent # trail,
           ps_states := take (length below + 1) (ps_states self) @ replicate (1 + length trail) state\<rparr>, Op_Ok)"
        using pp assms(1) by presburger
      then show thesis using True by (intro that(1) [of c]) simp_all
    next
      case False
      then have "self' = self\<lparr>ps_capacity := c\<rparr> \<and> (e = Op_Oom \<or> e = Op_Fault Stack_Overflow)"
        using pp assms(1) by (metis Pair_inject)
      then show thesis by (intro that(2) [of c]) simp_all
    qed
  qed
qed

text \<open>The end token: nothing but the payload, the capacity and the mark of the root changes.\<close>

lemma absorb_end_cases:
  assumes "absorb_end mem token rd self = (self', rd', e)"
  obtains c p v where "e = Op_Ok" "ps_depth self < unat c"
      "tf_parser_emit_shift (ps_sink self) (ps_payload self) token True = (p, v)"
      "self' = self\<lparr>ps_capacity := c, ps_root_emitted := True, ps_payload := p\<rparr>"
      "rd' = root_reduction token (ps_nodes self) v rd"
    | c where "e = Op_Oom \<or> e = Op_Fault Stack_Overflow" "self' = self\<lparr>ps_capacity := c\<rparr>"
proof (cases rule: grow_cases [of mem "of_nat (ps_depth self) + 1" self])
  case (1 c ok)
  obtain p v where emit: "tf_parser_emit_shift (ps_sink self) (ps_payload self) token True = (p, v)"
    by (cases "tf_parser_emit_shift (ps_sink self) (ps_payload self) token True")
  have eq: "absorb_end mem token rd self =
     (if \<not> ok then (self\<lparr>ps_capacity := c\<rparr>, rd, Op_Oom)
      else if \<not> ps_depth self < unat c then (self\<lparr>ps_capacity := c\<rparr>, rd, Op_Fault Stack_Overflow)
      else (self\<lparr>ps_capacity := c, ps_root_emitted := True, ps_payload := p\<rparr>,
            root_reduction token (ps_nodes self) v rd, Op_Ok))"
    unfolding absorb_end_def Let_def 1(1) prod.case by (simp add: ps_depth_def emit)
  show thesis
  proof (cases "ok \<and> ps_depth self < unat c")
    case True
    then show thesis using eq assms emit by (intro that(1) [of c p v]) simp_all
  next
    case False
    then show thesis using eq assms by (intro that(2) [of c]) (auto split: if_splits)
  qed
qed

text \<open>The states of a reduction: where it goes from the state below the children.\<close>

definition goto_state :: "TSSymbol \<Rightarrow> nat \<Rightarrow> ('p, 'v, 's) TFParser \<Rightarrow> TSStateId" where
  "goto_state symbol base self = tf_next_state (ps_lang self) (ps_states self ! base) symbol"

lemma reduce_unfold:
  fixes self :: "('p, 'v, 's) TFParser" and symbol :: TSSymbol and production_id :: u16
  assumes "reduce_split (unat child_count) (ps_nodes self) below kids trail"
    and "reduce_scan (ps_nodes self) (unat child_count) 0 0 0
      = Some (length kids + length trail, length trail)"
  defines "state \<equiv> goto_state symbol (length below) self"
  defines "rd \<equiv> reduction_over symbol production_id child_count below kids"
  shows "tf_parser_reduce mem symbol child_count production_id lookahead self =
    (case (if root_due lookahead (length below) state self
           then absorb_end mem (the lookahead) rd self else (self, rd, Op_Ok)) of
      (self, emitted, ended) \<Rightarrow>
        if ended \<noteq> Op_Ok then (self, ended)
        else case tf_parser_emit_reduce (ps_sink self) (ps_payload self) emitted of
          (payload, value) \<Rightarrow>
            place_parent mem (length below) (length below + length kids) state (parent_node rd value)
              (self\<lparr>ps_payload := payload\<rparr>))"
proof -
  have nodes: "ps_nodes self = below @ kids @ trail" using assms(1) by (simp add: reduce_split_def)
  have base: "ps_depth self - (length kids + length trail) = length below"
    and "end": "ps_depth self - length trail = length below + length kids"
    by (simp_all add: ps_depth_def nodes)
  show ?thesis
    unfolding tf_parser_reduce_def assms(2) option.case prod.case Let_def base "end"
      span_reduction_split [OF assms(1)] rd_def [symmetric] goto_state_def [symmetric] state_def [symmetric]
    by (cases lookahead) (simp_all add: root_due_def)
qed

lemma reduce_Ok:
  assumes "tf_parser_reduce mem symbol child_count production_id lookahead self = (self', Op_Ok)"
  obtains below kids trail p v c where
    "reduce_split (unat child_count) (ps_nodes self) below kids trail"
    "emit_reduction lookahead (root_due lookahead (length below) (goto_state symbol (length below) self) self)
       (reduction_over symbol production_id child_count below kids) self = (p, v)"
    "self' = self\<lparr>ps_payload := p, ps_capacity := c,
       ps_root_emitted := (ps_root_emitted self \<or>
          root_due lookahead (length below) (goto_state symbol (length below) self) self),
       ps_nodes := below @ parent_node (reduction_over symbol production_id child_count below kids) v # trail,
       ps_states := take (length below + 1) (ps_states self) @
          replicate (1 + length trail) (goto_state symbol (length below) self)\<rparr>"
    "length below + 1 + length trail \<le> unat c"
proof -
  have "reduce_scan (ps_nodes self) (unat child_count) 0 0 0 \<noteq> None"
  proof
    assume "reduce_scan (ps_nodes self) (unat child_count) 0 0 0 = None"
    then show False using assms by (simp add: tf_parser_reduce_def)
  qed
  then obtain popped trailing where scan: "reduce_scan (ps_nodes self) (unat child_count) 0 0 0 = Some (popped, trailing)"
    by auto
  obtain below kids trail where split: "reduce_split (unat child_count) (ps_nodes self) below kids trail"
    and len: "popped = length kids + length trail" "trailing = length trail"
    using reduce_scan_Some [OF scan] .
  have nodes: "ps_nodes self = below @ kids @ trail" using split by (simp add: reduce_split_def)
  define state where "state = goto_state symbol (length below) self"
  define rd where "rd = reduction_over symbol production_id child_count below kids"
  define root where "root = root_due lookahead (length below) state self"
  note red = assms [unfolded reduce_unfold [OF split scan [unfolded len]], folded state_def rd_def, folded root_def]
  obtain p0 c0 emitted where
    one: "(if root then absorb_end mem (the lookahead) rd self else (self, rd, Op_Ok)) =
      (self\<lparr>ps_capacity := c0, ps_root_emitted := (ps_root_emitted self \<or> root), ps_payload := p0\<rparr>, emitted, Op_Ok)"
    and emit: "emit_reduction lookahead root rd self = tf_parser_emit_reduce (ps_sink self) p0 emitted"
  proof (cases root)
    case False
    then show thesis by (intro that [of "ps_payload self" "ps_capacity self" rd]) (simp_all add: emit_reduction_def)
  next
    case True
    obtain s1 rd1 e1 where ab: "absorb_end mem (the lookahead) rd self = (s1, rd1, e1)"
      by (cases "absorb_end mem (the lookahead) rd self")
    then have "e1 = Op_Ok" using red True by (auto split: if_splits)
    note ok = this
    from ab show thesis
    proof (cases rule: absorb_end_cases)
      case (1 c p v)
      then show thesis using that [of p c rd1] True ab by (simp add: emit_reduction_def)
    next
      case (2 c)
      then show thesis using ok by simp
    qed
  qed
  obtain p v where pv: "tf_parser_emit_reduce (ps_sink self) p0 emitted = (p, v)"
    by (cases "tf_parser_emit_reduce (ps_sink self) p0 emitted")
  have "place_parent mem (length below) (length below + length kids) state (parent_node rd v)
     (self\<lparr>ps_capacity := c0, ps_root_emitted := (ps_root_emitted self \<or> root), ps_payload := p\<rparr>) = (self', Op_Ok)"
    using red unfolding one by (simp add: pv)
  moreover have "ps_nodes (self\<lparr>ps_capacity := c0, ps_root_emitted := (ps_root_emitted self \<or> root),
      ps_payload := p\<rparr>) = below @ kids @ trail" by (simp add: nodes)
  ultimately show thesis
  proof (cases rule: place_parent_cases)
    case (1 c)
    then show thesis
      using that [OF split, of p v c] emit pv
      by (simp add: root_def state_def rd_def)
  qed simp
qed

lemma reduce_not_Ok:
  assumes "tf_parser_reduce mem symbol child_count production_id lookahead self = (self', e)" and "e \<noteq> Op_Ok"
  obtains "e = Op_Fault Stack_Underflow" "self' = self" "structural (ps_nodes self) < unat child_count"
    | p c r where "e = Op_Oom \<or> e = Op_Fault Stack_Overflow"
        "self' = self\<lparr>ps_payload := p, ps_capacity := c, ps_root_emitted := r\<rparr>"
proof (cases "reduce_scan (ps_nodes self) (unat child_count) 0 0 0")
  case None
  have "structural (ps_nodes self) < unat child_count" using None by (simp only: reduce_scan_None)
  moreover have "self' = self \<and> e = Op_Fault Stack_Underflow"
    using assms(1) unfolding tf_parser_reduce_def None option.case by simp
  ultimately show thesis using that(1) by simp
next
  case (Some pt)
  obtain popped trailing where scan: "reduce_scan (ps_nodes self) (unat child_count) 0 0 0 = Some (popped, trailing)"
    using Some by (cases pt) auto
  obtain below kids trail where split: "reduce_split (unat child_count) (ps_nodes self) below kids trail"
    and len: "popped = length kids + length trail" "trailing = length trail"
    using reduce_scan_Some [OF scan] .
  have nodes: "ps_nodes self = below @ kids @ trail" using split by (simp add: reduce_split_def)
  define state where "state = goto_state symbol (length below) self"
  define rd where "rd = reduction_over symbol production_id child_count below kids"
  define root where "root = root_due lookahead (length below) state self"
  note red = assms(1) [unfolded reduce_unfold [OF split scan [unfolded len]], folded state_def rd_def, folded root_def]
  obtain s1 rd1 e1 where one: "(if root then absorb_end mem (the lookahead) rd self else (self, rd, Op_Ok)) = (s1, rd1, e1)"
    by (metis prod_cases3)
  have s1: "\<exists>p c r. s1 = self\<lparr>ps_payload := p, ps_capacity := c, ps_root_emitted := r\<rparr>"
    "e1 = Op_Ok \<or> e1 = Op_Oom \<or> e1 = Op_Fault Stack_Overflow"
  proof -
    have "(\<exists>p c r. s1 = self\<lparr>ps_payload := p, ps_capacity := c, ps_root_emitted := r\<rparr>) \<and>
       (e1 = Op_Ok \<or> e1 = Op_Oom \<or> e1 = Op_Fault Stack_Overflow)"
    proof (cases root)
      case True
      then have "absorb_end mem (the lookahead) rd self = (s1, rd1, e1)" using one by simp
      then show ?thesis
      proof (cases rule: absorb_end_cases)
        case (1 c p v)
        then have "s1 = self\<lparr>ps_payload := p, ps_capacity := c, ps_root_emitted := True\<rparr>" by simp
        then show ?thesis using 1(1) by blast
      next
        case (2 c)
        then have "s1 = self\<lparr>ps_payload := ps_payload self, ps_capacity := c, ps_root_emitted := ps_root_emitted self\<rparr>"
          by simp
        then show ?thesis using 2(1) by blast
      qed
    next
      case False
      then have "s1 = self\<lparr>ps_payload := ps_payload self, ps_capacity := ps_capacity self, ps_root_emitted := ps_root_emitted self\<rparr>"
        "e1 = Op_Ok" using one by auto
      then show ?thesis by blast
    qed
    then show "\<exists>p c r. s1 = self\<lparr>ps_payload := p, ps_capacity := c, ps_root_emitted := r\<rparr>"
      "e1 = Op_Ok \<or> e1 = Op_Oom \<or> e1 = Op_Fault Stack_Overflow" by auto
  qed
  obtain p c r where shape: "s1 = self\<lparr>ps_payload := p, ps_capacity := c, ps_root_emitted := r\<rparr>"
    using s1(1) by blast
  show thesis
  proof (cases "e1 = Op_Ok")
    case False
    then show thesis using red s1(2) shape that(2) unfolding one by auto
  next
    case True
    obtain p' v where pv: "tf_parser_emit_reduce (ps_sink s1) (ps_payload s1) rd1 = (p', v)"
      by (cases "tf_parser_emit_reduce (ps_sink s1) (ps_payload s1) rd1")
    have "place_parent mem (length below) (length below + length kids) state (parent_node rd v)
        (s1\<lparr>ps_payload := p'\<rparr>) = (self', e)"
      using red True unfolding one by (simp add: pv)
    moreover have "ps_nodes (s1\<lparr>ps_payload := p'\<rparr>) = below @ kids @ trail" by (simp add: shape nodes)
    ultimately show thesis
    proof (cases rule: place_parent_cases)
      case (2 c')
      then show thesis by (intro that(2) [of r c' p']) (simp_all add: shape)
    qed (use assms(2) in simp)
  qed
qed

end
