(* ===== verification/Parser_Inv.thy ===== *)
theory Parser_Inv
  imports Parser_Stack
begin

text \<open>
  The driver as a state machine: its steps, the operations it performs on the parser between
  two of its loop heads, what the generated tables must promise, and the invariants every
  operation keeps. The interface of a sink is a locale: a client states what holds of its
  payload and the stack, and learns what holds when the parse ends.
\<close>

section \<open>What the tables promise\<close>

text \<open>
  Documented properties of generated tables, checked here by evaluation: every state an
  action or a goto leads to and every symbol it names exists, a state that accepts the end of
  the input does nothing else there, the end is never shifted or produced, and the lex
  functions accept only terminals.
\<close>

definition action_ok :: "TFLanguage \<Rightarrow> TSParseAction \<Rightarrow> bool" where
  "action_ok lang a =
     (case a of Shift s extra _ \<Rightarrow> extra \<or> unat s < unat (state_count (ts lang))
      | Reduce _ symbol _ _ \<Rightarrow> symbol \<noteq> 0 \<and> unat symbol < unat (symbol_count (ts lang))
      | _ \<Rightarrow> True)"

definition tables_ok :: "TFLanguage \<Rightarrow> bool" where
  "tables_ok lang \<longleftrightarrow>
     1 < unat (state_count (ts lang)) \<and> 0 < unat (token_count (ts lang)) \<and>
     unat (token_count (ts lang)) \<le> unat (symbol_count (ts lang)) \<and>
     unat (state_count (ts lang)) \<le> 0x10000 \<and> unat (symbol_count (ts lang)) \<le> 0x10000 \<and>
     unat (keyword_capture_token (ts lang)) < unat (token_count (ts lang)) \<and>
     list_all (\<lambda>q. list_all (\<lambda>t. list_all (action_ok lang) (tf_actions lang (of_nat q) (of_nat t)))
                 [0..<unat (token_count (ts lang))]) [0..<unat (state_count (ts lang))] \<and>
     list_all (\<lambda>q. list_all (\<lambda>a. unat (tf_next_state lang (of_nat q) (of_nat a)) < unat (state_count (ts lang)))
                 [0..<unat (symbol_count (ts lang))]) [0..<unat (state_count (ts lang))] \<and>
     list_all (\<lambda>q. accepts_end lang ! q \<longrightarrow> tf_actions lang (of_nat q) 0 = [Accept])
       [0..<unat (state_count (ts lang))] \<and>
     list_all (\<lambda>q. \<not> list_ex is_Shift (tf_actions lang (of_nat q) 0)) [0..<unat (state_count (ts lang))]"

abbreviation is_state :: "TFLanguage \<Rightarrow> TSStateId \<Rightarrow> bool" where
  "is_state lang q \<equiv> unat q < unat (state_count (ts lang))"

abbreviation is_token :: "TFLanguage \<Rightarrow> TSSymbol \<Rightarrow> bool" where
  "is_token lang t \<equiv> unat t < unat (token_count (ts lang))"

abbreviation is_symbol :: "TFLanguage \<Rightarrow> TSSymbol \<Rightarrow> bool" where
  "is_symbol lang a \<equiv> unat a < unat (symbol_count (ts lang))"

definition lexes_tokens :: "TFLanguage \<Rightarrow> bool" where
  "lexes_tokens lang \<longleftrightarrow>
     accepts_only (is_token lang) (lex_fn (ts lang)) \<and> accepts_only (is_token lang) (keyword_lex_fn (ts lang))"

lemma list_all_upt_word:
  "list_all P [0..<n] \<Longrightarrow> unat (w :: 'a::len word) < n \<Longrightarrow> P (unat w)"
  by (simp add: list_all_iff)

lemma tables_actions:
  assumes "tables_ok lang" and "is_state lang q" and "is_token lang t" and "a \<in> set (tf_actions lang q t)"
  shows "action_ok lang a"
proof -
  have "list_all (\<lambda>q. list_all (\<lambda>t. list_all (action_ok lang) (tf_actions lang (of_nat q) (of_nat t)))
      [0..<unat (token_count (ts lang))]) [0..<unat (state_count (ts lang))]"
    using assms(1) by (simp add: tables_ok_def)
  then have "list_all (\<lambda>t. list_all (action_ok lang) (tf_actions lang (of_nat (unat q)) (of_nat t)))
      [0..<unat (token_count (ts lang))]"
    using assms(2) by (rule list_all_upt_word)
  then have "list_all (action_ok lang) (tf_actions lang (of_nat (unat q)) (of_nat (unat t)))"
    using assms(3) by (rule list_all_upt_word)
  then show ?thesis using assms(4) by (simp add: list_all_iff)
qed

lemma tables_goto:
  assumes "tables_ok lang" and "is_state lang q" and "is_symbol lang a"
  shows "is_state lang (tf_next_state lang q a)"
proof -
  have "list_all (\<lambda>q. list_all (\<lambda>a. unat (tf_next_state lang (of_nat q) (of_nat a)) < unat (state_count (ts lang)))
      [0..<unat (symbol_count (ts lang))]) [0..<unat (state_count (ts lang))]"
    using assms(1) by (simp add: tables_ok_def)
  then have "list_all (\<lambda>a. unat (tf_next_state lang (of_nat (unat q)) (of_nat a)) < unat (state_count (ts lang)))
      [0..<unat (symbol_count (ts lang))]"
    using assms(2) by (rule list_all_upt_word)
  then have "unat (tf_next_state lang (of_nat (unat q)) (of_nat (unat a))) < unat (state_count (ts lang))"
    using assms(3) by (rule list_all_upt_word)
  then show ?thesis by simp
qed

lemma tables_accept:
  assumes "tables_ok lang" and "is_state lang q" and "accepts_end lang ! unat q"
  shows "tf_actions lang q 0 = [Accept]"
proof -
  have "list_all (\<lambda>q. accepts_end lang ! q \<longrightarrow> tf_actions lang (of_nat q) 0 = [Accept])
      [0..<unat (state_count (ts lang))]"
    using assms(1) by (simp add: tables_ok_def)
  then have "accepts_end lang ! unat q \<longrightarrow> tf_actions lang (of_nat (unat q)) 0 = [Accept]"
    using assms(2) by (rule list_all_upt_word)
  then show ?thesis using assms(3) by simp
qed

lemma tables_no_end_shift:
  assumes "tables_ok lang" and "is_state lang q" and "Shift s extra r \<in> set (tf_actions lang q 0)"
  shows False
proof -
  have "list_all (\<lambda>q. \<not> list_ex is_Shift (tf_actions lang (of_nat q) 0)) [0..<unat (state_count (ts lang))]"
    using assms(1) by (simp add: tables_ok_def)
  then have "\<not> list_ex is_Shift (tf_actions lang (of_nat (unat q)) 0)"
    using assms(2) by (rule list_all_upt_word)
  then show False using assms(3) by (auto simp: list_ex_iff)
qed

lemma tables_token_symbol: "tables_ok lang \<Longrightarrow> is_token lang t \<Longrightarrow> is_symbol lang t"
  by (simp add: tables_ok_def)

section \<open>Steps of the loop\<close>

text \<open>One pass of either loop.\<close>

inductive parser_step ::
  "allocator \<Rightarrow> ('p, 'v, 's) splitter \<Rightarrow> ('p, 'v, 's) TFParser \<times> TFToken \<times> 'v control
     \<Rightarrow> ('p, 'v, 's) TFParser \<times> TFToken \<times> 'v control \<Rightarrow> bool" for mem split where
  step_lex: "tf_parser_lex token self = Some x \<Longrightarrow> parser_step mem split (self, token, Lex) x"
| step_dispatch: "tf_parser_dispatch mem split state token self = Some x
    \<Longrightarrow> parser_step mem split (self, token, Dispatch state) x"

inductive_cases step_lexE: "parser_step mem split (self, token, Lex) x"
inductive_cases step_dispatchE: "parser_step mem split (self, token, Dispatch state) x"

inductive_simps parser_step_simps [simp]:
  "parser_step mem split (self, token, Lex) x"
  "parser_step mem split (self, token, Dispatch state) x"
  "parser_step mem split (self, token, Out_Of_Memory) x"
  "parser_step mem split (self, token, Done ended) x"

text \<open>Runs of steps to one of the two exits, which are exactly the runs of the loop that return.\<close>

inductive parser_ends ::
  "allocator \<Rightarrow> ('p, 'v, 's) splitter \<Rightarrow> ('p, 'v, 's) TFParser \<times> TFToken \<times> 'v control
     \<Rightarrow> ('p, 'v, 's) TFParser \<times> 'v run_end \<Rightarrow> bool" for mem split where
  ends_done: "parser_ends mem split (self, token, Done ended) (self, ended)"
| ends_oom: "parser_ends mem split (self, token, Out_Of_Memory)
    (tf_parser_fail (tok_start_byte token) (tok_start_point token) ''out of memory'' self, Failed)"
| ends_step: "parser_step mem split x y \<Longrightarrow> parser_ends mem split y r \<Longrightarrow> parser_ends mem split x r"

lemma loop_ends:
  assumes "tf_parser_loop mem split x = Some r"
  shows "parser_ends mem split x r"
proof (rule tf_parser_loop.raw_induct [where P = parser_ends and xa = "((mem, split), x)" and y = r,
      unfolded prod.case, OF _ assms])
  fix loop mem split x r
  assume IH: "\<And>mem split x r. loop mem split x = Some r \<Longrightarrow> parser_ends mem split x r"
    and eq: "(case x of (self, token, control) \<Rightarrow>
       case control of Lex \<Rightarrow> Option.bind (tf_parser_lex token self) (loop mem split)
       | Dispatch state \<Rightarrow> Option.bind (tf_parser_dispatch mem split state token self) (loop mem split)
       | Out_Of_Memory \<Rightarrow>
           Some (tf_parser_fail (tok_start_byte token) (tok_start_point token) ''out of memory'' self, Failed)
       | Done ended \<Rightarrow> Some (self, ended)) = Some r"
  obtain self token control where x: "x = (self, token, control)" by (cases x)
  show "parser_ends mem split x r"
  proof (cases control)
    case Lex
    then obtain y where "tf_parser_lex token self = Some y" "loop mem split y = Some r"
      using eq x by (auto simp: bind_eq_Some_conv simp del: split_paired_Ex)
    then show ?thesis using ends_step [OF _ IH] x Lex by simp
  next
    case (Dispatch state)
    then obtain y where "tf_parser_dispatch mem split state token self = Some y" "loop mem split y = Some r"
      using eq x by (auto simp: bind_eq_Some_conv simp del: split_paired_Ex)
    then show ?thesis using ends_step [OF _ IH] x Dispatch by simp
  qed (use eq x in \<open>auto intro: ends_done ends_oom\<close>)
qed

lemma ends_loop: "parser_ends mem split x r \<Longrightarrow> tf_parser_loop mem split x = Some r"
proof (induction rule: parser_ends.induct)
  case (ends_step x y r)
  obtain self token control where "x = (self, token, control)" by (cases x)
  then show ?case
    using ends_step(1,3) by (cases control) (simp_all add: tf_parser_loop.simps)
qed (simp_all add: tf_parser_loop.simps)

text \<open>An invariant of the steps holds where a run ends.\<close>

lemma ends_invariant:
  assumes "parser_ends mem split x r" and "I x" and "\<And>x y. I x \<Longrightarrow> parser_step mem split x y \<Longrightarrow> I y"
  shows "(\<exists>token. I (fst r, token, Done (snd r))) \<or>
     (\<exists>self token. I (self, token, Out_Of_Memory) \<and> snd r = Failed \<and>
        fst r = tf_parser_fail (tok_start_byte token) (tok_start_point token) ''out of memory'' self)"
  using assms(1,2)
proof (induction rule: parser_ends.induct)
  case (ends_step x y r)
  then show ?case using assms(3) by blast
qed auto

section \<open>Operations on the parser\<close>

definition stack_end :: "('p, 'v, 's) TFParser \<Rightarrow> u32" where
  "stack_end self = (if ps_nodes self = [] then 0 else nd_end_byte (last (ps_nodes self)))"

text \<open>Where a shift may go: an action's state, or where \<^verbatim>\<open>tf_next_state\<close> goes.\<close>

definition shift_target :: "TFLanguage \<Rightarrow> TSStateId \<Rightarrow> TSSymbol \<Rightarrow> TSStateId \<Rightarrow> bool" where
  "shift_target lang q t s \<longleftrightarrow> s = tf_next_state lang q t \<or> (\<exists>r. Shift s False r \<in> set (tf_actions lang q t))"

text \<open>
  What happens to a parser between two tokens, and inside \<^verbatim>\<open>tf_parser__split\<close>: shifts of tokens of
  the source, reductions of symbols of the grammar, and changes to the rest of its state.
  Nothing is shifted or reduced once the root was reported.
\<close>

inductive parser_op ::
  "allocator \<Rightarrow> u8 list \<Rightarrow> ('p, 'v, 's) TFParser \<Rightarrow> ('p, 'v, 's) TFParser \<Rightarrow> bool" for mem source where
  op_shift: "\<not> ps_root_emitted self \<Longrightarrow> token_at source (stack_end self) token \<Longrightarrow>
    is_token (ps_lang self) (tok_symbol token) \<Longrightarrow> tok_symbol token \<noteq> 0 \<Longrightarrow>
    (if extra then s = top_state self else shift_target (ps_lang self) (top_state self) (tok_symbol token) s) \<Longrightarrow>
    tf_parser_shift mem token extra s self = (self', Op_Ok) \<Longrightarrow> parser_op mem source self self'"
| op_reduce: "\<not> ps_root_emitted self \<Longrightarrow> is_symbol (ps_lang self) symbol \<Longrightarrow> symbol \<noteq> 0 \<Longrightarrow>
    (\<And>token. lookahead = Some token \<Longrightarrow> token_at source (stack_end self) token) \<Longrightarrow>
    tf_parser_reduce mem symbol child_count production_id lookahead self = (self', Op_Ok)
    \<Longrightarrow> parser_op mem source self self'"
| op_other: "lexer_pos (ps_lang self) source l \<Longrightarrow>
    parser_op mem source self (self\<lparr>ps_lexer := l, ps_split_count := n, ps_spec := s, ps_error := e\<rparr>)"

text \<open>The shape of the stack: as many states as there should be, extras first, all states known.\<close>

definition stack_wf :: "('p, 'v, 's) TFParser \<Rightarrow> bool" where
  "stack_wf self \<longleftrightarrow>
     length (ps_states self) = Suc (length (ps_nodes self)) \<and>
     length (ps_nodes self) \<le> unat (ps_capacity self) \<and>
     ps_leading self \<le> length (ps_nodes self) \<and> list_all nd_extra (take (ps_leading self) (ps_nodes self)) \<and>
     (ps_leading self < length (ps_nodes self) \<longrightarrow> \<not> nd_extra (ps_nodes self ! ps_leading self)) \<and>
     list_all (is_state (ps_lang self)) (ps_states self)"

lemma stack_wf_state: "stack_wf self \<Longrightarrow> i \<le> length (ps_nodes self) \<Longrightarrow> is_state (ps_lang self) (ps_states self ! i)"
  by (simp add: stack_wf_def list_all_length)

lemma stack_wf_top: "stack_wf self \<Longrightarrow> is_state (ps_lang self) (top_state self)"
  using stack_wf_state [of self "length (ps_nodes self)"] by (simp add: top_state_def ps_depth_def)

lemma shift_target_state:
  assumes "tables_ok lang" and "is_state lang q" and "is_token lang t" and "shift_target lang q t s"
  shows "is_state lang s"
proof (cases "s = tf_next_state lang q t")
  case True
  then show ?thesis using tables_goto [OF assms(1,2) tables_token_symbol [OF assms(1,3)]] by simp
next
  case False
  then obtain r where "Shift s False r \<in> set (tf_actions lang q t)"
    using assms(4) by (auto simp: shift_target_def)
  from tables_actions [OF assms(1-3) this] show ?thesis by (simp add: action_ok_def)
qed

text \<open>A reduction's children start above the leading extras.\<close>

lemma reduce_split_leading:
  assumes "reduce_split c (ps_nodes self) below kids trail" and "stack_wf self"
  shows "ps_leading self \<le> length below"
proof (cases "c = 0")
  case True
  then show ?thesis using assms by (simp add: reduce_split_def stack_wf_def)
next
  case False
  then have "kids \<noteq> []" "\<not> nd_extra (hd kids)" and nodes: "ps_nodes self = below @ kids @ trail"
    using assms(1) by (auto simp: reduce_split_def)
  then have "\<not> nd_extra (ps_nodes self ! length below)" by (simp add: nth_append hd_conv_nth)
  moreover have "nd_extra (ps_nodes self ! i)" if "i < ps_leading self" for i
    using that assms(2) by (auto simp: stack_wf_def list_all_length)
  ultimately show ?thesis by (meson not_less)
qed

lemma stack_wf_shift:
  assumes "tf_parser_shift mem token extra s self = (self', Op_Ok)" and "stack_wf self"
    and "is_state (ps_lang self) s"
  shows "stack_wf self'"
  using assms(1)
proof (cases rule: shift_Ok)
  case (1 p v c)
  then show ?thesis
    using assms(2,3)
    by (auto simp: stack_wf_def bump_leading_def ps_depth_def token_node_def nth_append)
qed

lemma stack_wf_reduce:
  assumes "tf_parser_reduce mem symbol child_count production_id lookahead self = (self', Op_Ok)"
    and "stack_wf self" and "tables_ok (ps_lang self)" and "is_symbol (ps_lang self) symbol"
  shows "stack_wf self'"
  using assms(1)
proof (cases rule: reduce_Ok)
  case (1 below kids trail p v c)
  have nodes: "ps_nodes self = below @ kids @ trail" using 1(1) by (simp add: reduce_split_def)
  note lead = reduce_split_leading [OF 1(1) assms(2)]
  have goto: "is_state (ps_lang self) (goto_state symbol (length below) self)"
    unfolding goto_state_def using assms(2-4) nodes by (intro tables_goto stack_wf_state) simp_all
  have "nd_extra (parent_node rd v) = False" for rd :: "'b TFReduction" by (simp add: parent_node_def)
  then show ?thesis
    using 1 assms(2) lead goto nodes
    by (auto simp: stack_wf_def nth_append list_all_iff dest: in_set_takeD)
qed

lemma parser_op_env:
  assumes "parser_op mem source self self'"
  shows "ps_lang self' = ps_lang self" and "ps_sink self' = ps_sink self"
  using assms
  by (induction rule: parser_op.induct) (auto elim!: shift_Ok reduce_Ok)

lemma parser_op_lexer:
  assumes "parser_op mem source self self'" and "lexer_pos (ps_lang self) source (ps_lexer self)"
  shows "lexer_pos (ps_lang self) source (ps_lexer self')"
  using assms
  by (induction rule: parser_op.induct) (auto elim!: shift_Ok reduce_Ok)

lemma stack_wf_op:
  assumes "parser_op mem source self self'" and "stack_wf self" and "tables_ok (ps_lang self)"
  shows "stack_wf self'"
  using assms
proof (induction rule: parser_op.induct)
  case (op_shift self token extra s self')
  have "is_state (ps_lang self) s"
    using op_shift(5) stack_wf_top [OF op_shift(7)] shift_target_state [OF op_shift(8) _ op_shift(3)]
    by (simp split: if_splits)
  then show ?case using stack_wf_shift [OF op_shift(6)] op_shift by simp
next
  case (op_reduce self symbol lookahead child_count production_id self')
  then show ?case using stack_wf_reduce by blast
next
  case (op_other self l n s e)
  then show ?case by (simp add: stack_wf_def)
qed

section \<open>Spans\<close>

text \<open>
  A cell of the stack as a piece of the source: it starts at or after \<open>lo\<close>, and its points are
  those of its ends. The cells of a stack follow each other.
\<close>

definition node_at :: "u8 list \<Rightarrow> u32 \<Rightarrow> 'v TFNode \<Rightarrow> bool" where
  "node_at source lo n \<longleftrightarrow>
     lo \<le> nd_start_byte n \<and> unat (nd_start_byte n) \<le> length source \<and>
     nd_start_point n = point_at source (unat (nd_start_byte n)) \<and>
     lo \<le> nd_end_byte n \<and> unat (nd_end_byte n) \<le> length source \<and>
     nd_end_point n = point_at source (unat (nd_end_byte n))"

fun spans_from :: "u8 list \<Rightarrow> u32 \<Rightarrow> 'v TFNode list \<Rightarrow> bool" where
  "spans_from source lo [] = True"
| "spans_from source lo (n # nodes) = (node_at source lo n \<and> spans_from source (nd_end_byte n) nodes)"

definition end_from :: "u32 \<Rightarrow> 'v TFNode list \<Rightarrow> u32" where
  "end_from lo nodes = (if nodes = [] then lo else nd_end_byte (last nodes))"

lemma end_from_simps [simp]:
  "end_from lo [] = lo" "end_from lo (n # nodes) = end_from (nd_end_byte n) nodes"
  "end_from lo (xs @ ys) = end_from (end_from lo xs) ys"
  by (simp_all add: end_from_def)

lemma spans_from_append [simp]:
  "spans_from source lo (xs @ ys) \<longleftrightarrow> spans_from source lo xs \<and> spans_from source (end_from lo xs) ys"
  by (induction xs arbitrary: lo) auto

lemma spans_from_end:
  "spans_from source lo nodes \<Longrightarrow> nodes \<noteq> [] \<Longrightarrow>
     lo \<le> end_from lo nodes \<and> unat (end_from lo nodes) \<le> length source \<and>
     nd_end_point (last nodes) = point_at source (unat (end_from lo nodes))"
proof (induction nodes arbitrary: lo)
  case (Cons n nodes)
  then show ?case
    by (cases "nodes = []") (auto simp: node_at_def end_from_def dest: order_trans)
qed simp

abbreviation stack_spans :: "u8 list \<Rightarrow> ('p, 'v, 's) TFParser \<Rightarrow> bool" where
  "stack_spans source self \<equiv> spans_from source 0 (ps_nodes self)"

lemma stack_end_from: "stack_end self = end_from 0 (ps_nodes self)"
  by (simp add: stack_end_def end_from_def)

text \<open>A reduction's parent covers its children, and an empty one sits at the end of the stack.\<close>

lemma node_at_parent:
  assumes "spans_from source 0 (below @ kids)"
  shows "node_at source (end_from 0 below) (parent_node (reduction_over symbol production_id child_count below kids) v)"
    and "nd_end_byte (parent_node (reduction_over symbol production_id child_count below kids) v) = end_from 0 (below @ kids)"
proof -
  let ?n = "parent_node (reduction_over symbol production_id child_count below kids) v"
  show "nd_end_byte ?n = end_from 0 (below @ kids)"
    by (simp add: parent_node_def reduction_over_def end_from_def)
  show "node_at source (end_from 0 below) ?n"
  proof (cases kids)
    case Nil
    show ?thesis
    proof (cases "below = []")
      case True
      then show ?thesis
        using Nil by (simp add: node_at_def parent_node_def reduction_over_def)
    next
      case False
      then show ?thesis
        using assms Nil spans_from_end [of source 0 below]
        by (simp add: node_at_def parent_node_def reduction_over_def end_from_def)
    qed
  next
    case (Cons n ns)
    then have "node_at source (end_from 0 below) n" using assms by simp
    moreover have "end_from 0 below \<le> end_from (end_from 0 below) kids \<and>
        unat (end_from (end_from 0 below) kids) \<le> length source \<and>
        nd_end_point (last kids) = point_at source (unat (end_from (end_from 0 below) kids))"
      using assms Cons by (intro spans_from_end) simp_all
    ultimately show ?thesis
      using Cons by (simp add: node_at_def parent_node_def reduction_over_def end_from_def)
  qed
qed

lemma spans_shift:
  assumes "tf_parser_shift mem token extra s self = (self', Op_Ok)" and "stack_spans source self"
    and "token_at source (stack_end self) token"
  shows "stack_spans source self'" and "stack_end self' = tok_end_byte token"
  using assms
  by (auto elim!: shift_Ok simp: stack_end_from node_at_def token_at_def token_node_def)

lemma spans_reduce:
  assumes "tf_parser_reduce mem symbol child_count production_id lookahead self = (self', Op_Ok)"
    and "stack_spans source self"
  shows "stack_spans source self'" and "stack_end self' = stack_end self"
proof -
  have "stack_spans source self' \<and> stack_end self' = stack_end self"
    using assms(1)
  proof (cases rule: reduce_Ok)
    case (1 below kids trail p v c)
    have nodes: "ps_nodes self = below @ kids @ trail" using 1(1) by (simp add: reduce_split_def)
    then have "spans_from source 0 (below @ kids)" using assms(2) by simp
    note par = node_at_parent [OF this]
    show ?thesis
      using assms(2) par by (simp add: 1(3) nodes stack_end_from del: end_from_simps(3)) simp
  qed
  then show "stack_spans source self'" "stack_end self' = stack_end self" by auto
qed

lemma spans_op:
  assumes "parser_op mem source self self'" and "stack_spans source self"
  shows "stack_spans source self'"
  using assms
proof (induction rule: parser_op.induct)
  case (op_shift self token extra s self')
  then show ?case using spans_shift(1) by blast
next
  case (op_reduce self symbol lookahead child_count production_id self')
  then show ?case using spans_reduce(1) by blast
qed simp

section \<open>The invariant of the loop\<close>

text \<open>
  At the loop heads: the stack is well-formed, its cells follow each other through the source,
  and the lexer stands at the end of the stack, or after the token being dispatched, which
  follows the stack. Once the root was reported, the token is the end of the input and the
  state accepts it.
\<close>

definition at_heads :: "TFLanguage \<Rightarrow> u8 list \<Rightarrow> ('p, 'v, 's) TFParser \<Rightarrow> bool" where
  "at_heads lang source self \<longleftrightarrow>
     ps_lang self = lang \<and> lexer_pos lang source (ps_lexer self) \<and> stack_wf self \<and> stack_spans source self"

definition token_next :: "u8 list \<Rightarrow> TFToken \<Rightarrow> ('p, 'v, 's) TFParser \<Rightarrow> bool" where
  "token_next source token self \<longleftrightarrow>
     token_at source (stack_end self) token \<and> lx_byte (ps_lexer self) = tok_end_byte token \<and>
     is_token (ps_lang self) (tok_symbol token) \<and>
     (ps_root_emitted self \<longrightarrow> tok_symbol token = 0 \<and> accepts_end (ps_lang self) ! unat (top_state self))"

definition loop_inv ::
  "TFLanguage \<Rightarrow> u8 list \<Rightarrow> ('p, 'v, 's) TFParser \<times> TFToken \<times> 'v control \<Rightarrow> bool" where
  "loop_inv lang source = (\<lambda>(self, token, control).
     case control of
       Lex \<Rightarrow> at_heads lang source self \<and> \<not> ps_root_emitted self \<and> lx_byte (ps_lexer self) = stack_end self
     | Dispatch state \<Rightarrow> at_heads lang source self \<and> state = top_state self \<and> token_next source token self
     | _ \<Rightarrow> True)"

text \<open>What an operation that runs out of memory leaves.\<close>

inductive parser_stop ::
  "allocator \<Rightarrow> u8 list \<Rightarrow> ('p, 'v, 's) TFParser \<Rightarrow> ('p, 'v, 's) TFParser \<Rightarrow> bool" for mem source where
  stop_shift: "\<not> ps_root_emitted self \<Longrightarrow> token_at source (stack_end self) token \<Longrightarrow> tok_symbol token \<noteq> 0 \<Longrightarrow>
    tf_parser_shift mem token extra s self = (self', Op_Oom) \<Longrightarrow> parser_stop mem source self self'"
| stop_reduce: "\<not> ps_root_emitted self \<Longrightarrow> symbol \<noteq> 0 \<Longrightarrow>
    tf_parser_reduce mem symbol child_count production_id lookahead self = (self', Op_Oom) \<Longrightarrow>
    parser_stop mem source self self'"
| stop_here: "parser_stop mem source self self"

text \<open>
  What the loop relies on of \<^verbatim>\<open>tf_parser__split\<close>: it changes the parser by operations only, gives a
  token that may come next, and when it fails it has stopped in the middle of them.
\<close>

definition split_contract :: "allocator \<Rightarrow> TFLanguage \<Rightarrow> u8 list \<Rightarrow> ('p, 'v, 's) splitter \<Rightarrow> bool" where
  "split_contract mem lang source split \<longleftrightarrow>
     (\<forall>self token self' ended.
        at_heads lang source self \<and> \<not> ps_root_emitted self \<and> token_next source token self \<and>
        split token self = Some (self', ended) \<longrightarrow>
        (case ended of
           Split_Ok next \<Rightarrow> (parser_op mem source)\<^sup>*\<^sup>* self self' \<and> token_next source next self'
         | Split_Failed \<Rightarrow> (\<exists>s1 s2 l n s e. (parser_op mem source)\<^sup>*\<^sup>* self s1 \<and> \<not> ps_root_emitted s1 \<and>
             parser_stop mem source s1 s2 \<and>
             self' = s2\<lparr>ps_lexer := l, ps_split_count := n, ps_spec := s, ps_error := e\<rparr>)
         | Split_Fault _ \<Rightarrow> True))"

text \<open>How one step of the loop moves the parser.\<close>

inductive loop_moves ::
  "allocator \<Rightarrow> u8 list \<Rightarrow> ('p, 'v, 's) TFParser \<Rightarrow> ('p, 'v, 's) TFParser \<Rightarrow> 'v control \<Rightarrow> bool"
  for mem source where
  moves_on: "(parser_op mem source)\<^sup>*\<^sup>* self self' \<Longrightarrow> control = Lex \<or> (\<exists>s. control = Dispatch s) \<Longrightarrow>
    loop_moves mem source self self' control"
| moves_stop: "(parser_op mem source)\<^sup>*\<^sup>* self s1 \<Longrightarrow> \<not> ps_root_emitted s1 \<Longrightarrow> parser_stop mem source s1 s2 \<Longrightarrow>
    self' = s2\<lparr>ps_lexer := l, ps_split_count := n, ps_spec := s, ps_error := e\<rparr> \<Longrightarrow>
    control = Out_Of_Memory \<or> control = Done Failed \<Longrightarrow> loop_moves mem source self self' control"
| moves_accept: "ps_root_emitted self \<Longrightarrow> v = (if ps_leading self < ps_depth self
      then nd_value (ps_nodes self ! ps_leading self) else None) \<Longrightarrow>
    loop_moves mem source self self (Done (Parsed v))"
| moves_fault: "loop_moves mem source self self' (Done (Fault f))"

lemma parser_update_same:
  "self = self\<lparr>ps_lexer := ps_lexer self, ps_split_count := ps_split_count self,
     ps_spec := ps_spec self, ps_error := ps_error self\<rparr>"
  by simp

lemma op_lexer:
  "lexer_pos (ps_lang self) source l \<Longrightarrow> parser_op mem source self (self\<lparr>ps_lexer := l\<rparr>)"
  using op_other [where self = self and l = l and n = "ps_split_count self" and s = "ps_spec self" and e = "ps_error self"] by simp

lemma at_heads_ops:
  assumes "(parser_op mem source)\<^sup>*\<^sup>* self self'" and "at_heads lang source self" and "tables_ok lang"
  shows "at_heads lang source self'"
  using assms
proof (induction rule: rtranclp_induct)
  case (step s1 s2)
  then show ?case
    using parser_op_env [OF step(2)] parser_op_lexer [OF step(2)] stack_wf_op [OF step(2)] spans_op [OF step(2)]
    by (simp add: at_heads_def)
qed

lemma fail_update: "\<exists>e. tf_parser_fail byte point txt self = self\<lparr>ps_error := e\<rparr>"
proof (cases "ps_error self")
  case None
  then have "tf_parser_fail byte point txt self = self\<lparr>ps_error := ps_error self\<rparr>" by (simp add: tf_parser_fail_def)
  then show ?thesis by blast
qed (auto simp: tf_parser_fail_def)

lemma fail_unexpected_update: "\<exists>e. fst (tf_parser_fail_unexpected state token self) = self\<lparr>ps_error := e\<rparr>"
proof -
  have "self = self\<lparr>ps_error := ps_error self\<rparr>" by simp
  then have "\<exists>e. self = self\<lparr>ps_error := e\<rparr>" by blast
  then show ?thesis
    by (simp add: tf_parser_fail_unexpected_def fail_update split: option.split)
qed

lemma unexpected_moves:
  assumes "unexpected state token self = (self', token', control)" and "\<not> ps_root_emitted self"
  shows "loop_moves mem source self self' control \<and> (\<exists>ended. control = Done ended)"
proof -
  obtain s1 e1 where one: "tf_parser_fail_unexpected state token self = (s1, e1)" by fastforce
  then obtain e where "s1 = self\<lparr>ps_error := e\<rparr>"
    using fail_unexpected_update [of state token self] by auto
  then have s1: "s1 = self\<lparr>ps_lexer := ps_lexer self, ps_split_count := ps_split_count self,
      ps_spec := ps_spec self, ps_error := e\<rparr>" by simp
  have res: "self' = s1" "control = Done (case e1 of Op_Fault f \<Rightarrow> Fault f | _ \<Rightarrow> Failed)"
    using assms one by (auto simp: unexpected_def)
  have "loop_moves mem source self self' (Done Failed)"
    using moves_stop [OF rtranclp.rtrancl_refl assms(2) stop_here s1] res(1) by simp
  then show ?thesis
    using res(2) moves_fault by (auto split: op_end.split)
qed

lemma moves_op_simps [simp]:
  assumes "parser_op mem source self self'"
  shows "loop_moves mem source self self' Lex" and "loop_moves mem source self self' (Dispatch s)"
  using assms by (auto intro: moves_on)

lemma moves_oom [simp]:
  "parser_stop mem source self self' \<Longrightarrow> \<not> ps_root_emitted self \<Longrightarrow>
     loop_moves mem source self self' Out_Of_Memory"
  using moves_stop [OF rtranclp.rtrancl_refl _ _ parser_update_same] by blast

lemma moves_error [simp]:
  "\<not> ps_root_emitted self \<Longrightarrow>
     loop_moves mem source self (self\<lparr>ps_lexer := l, ps_error := e\<rparr>) (Done Failed)"
  by (rule moves_stop [OF rtranclp.rtrancl_refl _ stop_here, where l = l and n = "ps_split_count self"
        and s = "ps_spec self" and e = e]) simp_all

text \<open>A step from a loop head moves the parser by operations and keeps the invariant.\<close>

lemma lex_step:
  assumes "tf_parser_lex token self = Some (self', token', control)" and "loop_inv lang source (self, token, Lex)"
    and "lexes_tokens lang" and "tables_ok lang"
  shows "loop_moves mem source self self' control \<and> loop_inv lang source (self', token', control)"
proof -
  have heads: "at_heads lang source self" and quiet: "\<not> ps_root_emitted self"
    and byte: "lx_byte (ps_lexer self) = stack_end self"
    using assms(2) by (simp_all add: loop_inv_def)
  have lang: "ps_lang self = lang" and pos: "lexer_pos lang source (ps_lexer self)"
    using heads by (simp_all add: at_heads_def)
  obtain l r where lexed: "tf_lexer_next (top_state self) (ps_lexer self) = Some (l, r)"
    using assms(1) by (auto simp: tf_parser_lex_def Let_def)
  note lpos = lexer_next_inv [OF lexed pos]
  show ?thesis
  proof (cases r)
    case None
    obtain e where e: "tf_parser_fail (lx_byte l) (lx_point l) ''unexpected character'' (self\<lparr>ps_lexer := l\<rparr>)
        = self\<lparr>ps_lexer := l, ps_error := e\<rparr>"
      using fail_update [of _ _ _ "self\<lparr>ps_lexer := l\<rparr>"] by blast
    have self': "self' = self\<lparr>ps_lexer := l, ps_error := e\<rparr>" "control = Done Failed"
      using assms(1) lexed None e by (auto simp: tf_parser_lex_def Let_def)
    then show ?thesis using quiet by (simp add: loop_inv_def)
  next
    case (Some tok)
    have self': "self' = self\<lparr>ps_lexer := l\<rparr>" "token' = tok" "control = Dispatch (top_state self)"
      using assms(1) lexed Some by (auto simp: tf_parser_lex_def Let_def)
    have "is_token lang (tok_symbol tok)"
      using lexer_next_symbol [of _ _ _ _ lang source "is_token lang"] lexed Some pos assms(3,4)
      by (auto simp: lexes_tokens_def tables_ok_def)
    then have "token_next source tok self'"
      using lpos(2) [OF Some] byte lang quiet by (auto simp: self' token_next_def stack_end_def split: if_splits)
    moreover have "at_heads lang source self'"
      using heads lpos(1) by (auto simp: at_heads_def self' stack_wf_def)
    moreover have "parser_op mem source self self'"
      unfolding self' by (rule op_lexer) (simp add: lang lpos(1))
    ultimately show ?thesis
      by (simp add: loop_inv_def self'(2,3)) (simp add: self'(1) top_state_def ps_depth_def)
  qed
qed

lemma last_replicated: "(x # replicate n x) ! n = x"
  by (induction n) simp_all

lemma act_step:
  assumes "tf_parser_act mem state token action self = (self', token', control)"
    and "loop_inv lang source (self, token, Dispatch state)"
    and "tf_actions lang state (tok_symbol token) = [action]" and "tables_ok lang"
  shows "loop_moves mem source self self' control \<and> loop_inv lang source (self', token', control)"
proof -
  have heads: "at_heads lang source self" and state: "state = top_state self"
    and tok: "token_next source token self"
    using assms(2) by (simp_all add: loop_inv_def)
  have lang: "ps_lang self = lang" and wf: "stack_wf self" and spans: "stack_spans source self"
    and pos: "lexer_pos lang source (ps_lexer self)"
    using heads by (simp_all add: at_heads_def)
  have q: "is_state lang state" using stack_wf_top [OF wf] lang state by simp
  have t: "token_at source (stack_end self) token" "is_token lang (tok_symbol token)"
    using tok lang by (simp_all add: token_next_def)
  have quiet: "\<not> ps_root_emitted self" if "action \<noteq> Accept"
  proof
    assume "ps_root_emitted self"
    then have "tf_actions lang state 0 = [Accept]" "tok_symbol token = 0"
      using tok lang state tables_accept [OF assms(4) q] by (simp_all add: token_next_def)
    then show False using assms(3) that by simp
  qed
  have ok: "action_ok lang action" using tables_actions [OF assms(4) q t(2)] assms(3) by simp
  show ?thesis
  proof (cases action)
    case (Shift s extra r)
    have nz: "tok_symbol token \<noteq> 0"
      using tables_no_end_shift [OF assms(4) q] assms(3) Shift by fastforce
    obtain e where shift: "tf_parser_shift mem token extra (if extra then state else s) self = (self', e)"
      and res: "token' = token" "control = after_op Lex e"
      using assms(1) Shift by (auto simp: tf_parser_act_def split: prod.splits)
    show ?thesis
    proof (cases "e = Op_Ok")
      case True
      have op: "parser_op mem source self self'"
        using shift True quiet Shift t lang state assms(3) nz
        by (intro op_shift [where token = token and extra = extra]) (auto simp: shift_target_def)
      note after = at_heads_ops [OF r_into_rtranclp [of "parser_op mem source", OF op] heads assms(4)]
      have "lx_byte (ps_lexer self') = stack_end self'" "\<not> ps_root_emitted self'"
        using spans_shift(2) [OF shift [unfolded True] spans t(1)] tok quiet Shift shift [unfolded True]
        by (auto elim!: shift_Ok simp: token_next_def)
      then show ?thesis
        using op after True by (simp add: loop_inv_def res after_op_def)
    next
      case False
      then have stop: "parser_stop mem source self self' \<or> (\<exists>f. e = Op_Fault f)"
        using shift_not_Ok(1) [OF shift] shift quiet Shift nz t(1) stop_shift by fastforce
      show ?thesis
      proof (cases "\<exists>f. e = Op_Fault f")
        case True
        then show ?thesis using moves_fault by (auto simp: loop_inv_def res after_op_def)
      next
        case False
        then show ?thesis
          using stop \<open>e \<noteq> Op_Ok\<close> quiet Shift by (cases e) (auto simp: loop_inv_def res after_op_def)
      qed
    qed
  next
    case (Reduce cc symbol dp pid)
    have sym: "is_symbol lang symbol" "symbol \<noteq> 0" using ok Reduce by (simp_all add: action_ok_def)
    obtain e where red: "tf_parser_reduce mem symbol (ucast cc) pid (Some token) self = (self', e)"
      and res: "token' = token" "control = after_op (Dispatch (top_state self')) e"
      using assms(1) Reduce by (auto simp: tf_parser_act_def split: prod.splits)
    show ?thesis
    proof (cases "e = Op_Ok")
      case True
      have op: "parser_op mem source self self'"
        using red True quiet Reduce t lang sym
        by (intro op_reduce [where symbol = symbol and lookahead = "Some token"]) auto
      note after = at_heads_ops [OF r_into_rtranclp [of "parser_op mem source", OF op] heads assms(4)]
      have "token_next source token self'"
        using red [unfolded True]
      proof (cases rule: reduce_Ok)
        case (1 below kids trail p v c)
        have "length (take (length below + 1) (ps_states self)) = length below + 1"
          using wf 1(1) by (simp add: stack_wf_def reduce_split_def)
        then have top: "top_state self' = goto_state symbol (length below) self"
          by (simp add: 1(3) top_state_def ps_depth_def nth_append last_replicated)
        show ?thesis
          using spans_reduce(2) [OF red [unfolded True] spans] tok quiet Reduce
          by (simp add: token_next_def top) (auto simp: 1(3) root_due_def)
      qed
      then show ?thesis
        using op after True by (simp add: loop_inv_def res after_op_def)
    next
      case False
      from red False show ?thesis
      proof (cases rule: reduce_not_Ok)
        case 1
        then show ?thesis using moves_fault by (auto simp: loop_inv_def res after_op_def)
      next
        case (2 p c r)
        show ?thesis
        proof (cases "e = Op_Oom")
          case True
          then have "parser_stop mem source self self'"
            using red quiet Reduce sym stop_reduce by blast
          then show ?thesis
            using True quiet Reduce by (simp add: loop_inv_def res after_op_def)
        next
          case False
          then show ?thesis using 2 moves_fault by (auto simp: loop_inv_def res after_op_def)
        qed
      qed
    qed
  next
    case Accept
    have "self' = self \<and> (control = Done (Fault Root_Missing) \<or> ps_root_emitted self \<and>
        control = Done (Parsed (if ps_leading self < ps_depth self
          then nd_value (ps_nodes self ! ps_leading self) else None)))"
      using assms(1) Accept by (auto simp: tf_parser_act_def split: if_split_asm)
    then consider "self' = self" "control = Done (Fault Root_Missing)"
      | "self' = self" "ps_root_emitted self" "control = Done (Parsed (if ps_leading self < ps_depth self
          then nd_value (ps_nodes self ! ps_leading self) else None))"
      by blast
    then show ?thesis
    proof cases
      case 1
      then show ?thesis using moves_fault by (simp add: loop_inv_def)
    next
      case 2
      then show ?thesis
        using moves_accept [OF 2(2) refl, of mem source]
        by (simp only: loop_inv_def prod.case control.case simp_thms)
    qed
  next
    case Recover
    then have "unexpected state token self = (self', token', control)"
      using assms(1) by (simp add: tf_parser_act_def)
    from unexpected_moves [OF this, of mem source] quiet Recover show ?thesis by (auto simp: loop_inv_def)
  qed
qed

lemma dispatch_step:
  assumes "tf_parser_dispatch mem split state token self = Some (self', token', control)"
    and "loop_inv lang source (self, token, Dispatch state)"
    and "tables_ok lang" and "split_contract mem lang source split"
  shows "loop_moves mem source self self' control \<and> loop_inv lang source (self', token', control)"
proof -
  have heads: "at_heads lang source self" and state: "state = top_state self"
    and tok: "token_next source token self"
    using assms(2) by (simp_all add: loop_inv_def)
  have lang: "ps_lang self = lang" and wf: "stack_wf self" using heads by (simp_all add: at_heads_def)
  have q: "is_state lang state" using stack_wf_top [OF wf] lang state by simp
  have quiet: "\<not> ps_root_emitted self" if "tf_actions lang state (tok_symbol token) \<noteq> [Accept]"
    using that tok lang state tables_accept [OF assms(3) q] by (auto simp: token_next_def)
  consider "tf_actions lang state (tok_symbol token) = []"
    | action where "tf_actions lang state (tok_symbol token) = [action]"
    | a b rest where "tf_actions lang state (tok_symbol token) = a # b # rest"
    by (metis list.exhaust)
  then show ?thesis
  proof cases
    case 1
    show ?thesis
    proof (cases "tf_parser_demote_keyword lang state token (token_is_keyword (ps_lexer self))")
      case None
      then have "unexpected state token self = (self', token', control)"
        using assms(1) 1 lang by (simp add: tf_parser_dispatch_def)
      from unexpected_moves [OF this, of mem source] quiet 1 show ?thesis by (auto simp: loop_inv_def)
    next
      case (Some tok')
      then have res: "self' = self" "token' = tok'" "control = Dispatch state"
        using assms(1) 1 lang by (simp_all add: tf_parser_dispatch_def)
      have tok': "tok' = token\<lparr>tok_symbol := keyword_capture_token (ts lang)\<rparr>"
        using Some by (auto simp: tf_parser_demote_keyword_def split: if_splits)
      have "is_token lang (keyword_capture_token (ts lang))" using assms(3) by (simp add: tables_ok_def)
      then have "token_next source tok' self"
        using tok quiet 1 lang by (simp add: token_next_def tok')
      then show ?thesis
        using heads state moves_on [OF rtranclp.rtrancl_refl, of "Dispatch state"] by (simp add: loop_inv_def res)
    qed
  next
    case (2 action)
    then have "tf_parser_act mem state token action self = (self', token', control)"
      using assms(1) lang by (simp add: tf_parser_dispatch_def)
    from act_step [OF this assms(2) 2 assms(3)] show ?thesis .
  next
    case (3 a b rest)
    have "map_option (\<lambda>(self, ended). case ended of
                Split_Ok token \<Rightarrow> (self, token, Dispatch (top_state self))
              | Split_Failed \<Rightarrow> (self, token, Done Failed)
              | Split_Fault f \<Rightarrow> (self, token, Done (Fault f))) (split token self) = Some (self', token', control)"
      using assms(1) 3 lang by (simp add: tf_parser_dispatch_def)
    then obtain s1 ended where sp1: "split token self = Some (s1, ended)"
      and res1: "(case ended of Split_Ok token \<Rightarrow> (s1, token, Dispatch (top_state s1))
          | Split_Failed \<Rightarrow> (s1, token, Done Failed)
          | Split_Fault f \<Rightarrow> (s1, token, Done (Fault f))) = (self', token', control)"
      by (cases "split token self") auto
    then have "s1 = self'" by (cases ended) auto
    then have sp: "split token self = Some (self', ended)"
      and res: "(token', control) = (case ended of Split_Ok tok \<Rightarrow> (tok, Dispatch (top_state self'))
          | Split_Failed \<Rightarrow> (token, Done Failed) | Split_Fault f \<Rightarrow> (token, Done (Fault f)))"
      using sp1 res1 by (auto split: split_end.split_asm)
    have quiet: "\<not> ps_root_emitted self" using quiet 3 by simp
    have con: "case ended of
           Split_Ok next \<Rightarrow> (parser_op mem source)\<^sup>*\<^sup>* self self' \<and> token_next source next self'
         | Split_Failed \<Rightarrow> (\<exists>s1 s2 l n s e. (parser_op mem source)\<^sup>*\<^sup>* self s1 \<and> \<not> ps_root_emitted s1 \<and>
             parser_stop mem source s1 s2 \<and>
             self' = s2\<lparr>ps_lexer := l, ps_split_count := n, ps_spec := s, ps_error := e\<rparr>)
         | Split_Fault _ \<Rightarrow> True"
      using assms(4) heads quiet tok sp unfolding split_contract_def by blast
    show ?thesis
    proof (cases ended)
      case (Split_Ok nxt)
      then show ?thesis
        using con res at_heads_ops [of mem source self self', OF _ heads assms(3)]
        by (auto simp: loop_inv_def intro: moves_on)
    next
      case Split_Failed
      then show ?thesis using con res by (auto simp: loop_inv_def intro: moves_stop)
    next
      case (Split_Fault f)
      then show ?thesis using res by (auto simp: loop_inv_def intro: moves_fault)
    qed
  qed
qed

lemma loop_step:
  assumes "parser_step mem split (self, token, control) (self', token', control')"
    and "loop_inv lang source (self, token, control)"
    and "tables_ok lang" and "lexes_tokens lang" and "split_contract mem lang source split"
  shows "loop_moves mem source self self' control'" and "loop_inv lang source (self', token', control')"
  using assms lex_step [of token self self' token' control' lang source mem]
    dispatch_step [of mem split _ token self self' token' control' lang source]
  by (cases control; force)+

section \<open>A whole run\<close>

text \<open>
  A run that returns is an input that is too large, a first allocation that fails, or a run of
  the loop from the empty stack in state 1.
\<close>

definition run_payload :: "('p, 'v, 's) TFParser \<Rightarrow> 'v run_end \<Rightarrow> 'p" where
  "run_payload self ended =
     (case ended of Failed \<Rightarrow> discard_values (ps_sink self) (ps_nodes self) (ps_payload self)
      | _ \<Rightarrow> ps_payload self)"

definition starts ::
  "TFLanguage \<Rightarrow> u8 list \<Rightarrow> ('p, 'v) TFSink option \<Rightarrow> bool \<Rightarrow> 'p \<Rightarrow> ('p, 'v, 's) TFParser \<Rightarrow> bool" where
  "starts lang source sink want p0 self \<longleftrightarrow>
     loop_inv lang source (self, zero_token, Lex :: 'v control) \<and> ps_nodes self = [] \<and> ps_states self = [1] \<and>
     ps_payload self = p0 \<and> ps_sink self = (case sink of Some s \<Rightarrow> s | None \<Rightarrow> no_sink) \<and>
     ps_capacity self = 64 \<and> ps_leading self = 0 \<and> \<not> ps_root_emitted self \<and> ps_error self = (if want then Some zero_error else None)"

definition start_error :: "bool \<Rightarrow> TFError option \<Rightarrow> bool" where
  "start_error want e \<longleftrightarrow>
     (case e of None \<Rightarrow> \<not> want
      | Some e \<Rightarrow> want \<and> er_byte e = 0 \<and> er_point e = zero_point \<and>
          er_message e \<in> {''input is larger than 4 GiB'', ''out of memory''})"

lemma start_error_fail:
  assumes "ps_error self = (if want then Some zero_error else None)"
    and "txt \<in> {''input is larger than 4 GiB'', ''out of memory''}"
  shows "start_error want (ps_error (tf_parser_fail 0 zero_point txt self))"
  using assms by (auto simp: start_error_def tf_parser_fail_def print_at_def TF_ERROR_MESSAGE_SIZE_def split: option.split)

lemma run_cases:
  fixes split :: "('p, 'v, 's) splitter"
  assumes sz: "unat sz = length source" and tables: "tables_ok lang"
  obtains e where "tf_parser_run mem split lang source sz sink want p0 = Some (p0, e, Failed)" "start_error want e"
    | self0 where "starts lang source sink want p0 self0"
        "tf_parser_run mem split lang source sz sink want p0 =
           map_option (\<lambda>(self, ended). (run_payload self ended, ps_error self, ended))
             (tf_parser_loop mem split (self0, zero_token, Lex))"
proof (cases "sz > ucast UINT32_MAX")
  case True
  show thesis
    by (rule that(1))
       (use True in \<open>simp add: tf_parser_run_def Let_def\<close>, rule start_error_fail, simp_all)
next
  case False
  define init where "init = \<lparr>ps_lang = lang, ps_lexer = tf_lexer_init lang source (ucast sz),
                 ps_sink = (case sink of Some s \<Rightarrow> s | None \<Rightarrow> no_sink), ps_payload = p0,
                 ps_states = [], ps_nodes = [], ps_capacity = 0, ps_leading = 0,
                 ps_root_emitted = False, ps_error = (if want then Some zero_error else None),
                 ps_split_count = 0, ps_spec = (None :: 's option)\<rparr>"
  have small: "unat (ucast sz :: u32) = length source"
  proof -
    have "sz \<le> ucast UINT32_MAX" using False by simp
    then have "unat sz < 2 ^ 32" by (simp add: word_le_nat_alt)
    then show ?thesis using sz by (simp add: unsigned_ucast_eq take_bit_nat_eq_self)
  qed
  show thesis
  proof (cases rule: grow_cases [of mem 64 init])
    case (1 c ok)
    have run: "tf_parser_run mem split lang source sz sink want p0 =
      map_option (\<lambda>(self, ended). (run_payload self ended, ps_error self, ended))
        (tf_parser_loop mem split
           (if ok then (init\<lparr>ps_capacity := c, ps_states := [1]\<rparr>, zero_token, Lex)
            else (init\<lparr>ps_capacity := c\<rparr>, zero_token, Out_Of_Memory)))"
      using False 1(1) unfolding tf_parser_run_def Let_def init_def [symmetric] run_payload_def
      by (simp cong: prod.case_cong run_end.case_cong)
    show thesis
    proof (cases ok)
      case False
      obtain e where e: "tf_parser_fail 0 zero_point ''out of memory'' (init\<lparr>ps_capacity := c\<rparr>)
          = init\<lparr>ps_capacity := c, ps_error := e\<rparr>"
        using fail_update [of _ _ _ "init\<lparr>ps_capacity := c\<rparr>"] by blast
      then have "tf_parser_loop mem split (init\<lparr>ps_capacity := c\<rparr>, zero_token, Out_Of_Memory) =
         Some (init\<lparr>ps_capacity := c, ps_error := e\<rparr>, Failed)"
        by (simp add: tf_parser_loop.simps zero_token_def)
      then have "tf_parser_run mem split lang source sz sink want p0 = Some (p0, e, Failed)"
        using run False by (simp add: run_payload_def init_def discard_values_def split: option.split)
      moreover have "start_error want e"
        using start_error_fail [of "init\<lparr>ps_capacity := c\<rparr>" want "''out of memory''"] e by (simp add: init_def)
      ultimately show thesis by (rule that(1))
    next
      case True
      let ?self0 = "init\<lparr>ps_capacity := c, ps_states := [1]\<rparr>"
      have "grow_capacity 0 64 = 64" by (simp add: grow_capacity_def while_unfold)
      then have "tf_parser_grow mem 64 init = (init\<lparr>ps_capacity := 64\<rparr>, True) \<or> \<not> snd (tf_parser_grow mem 64 init)"
        by (simp add: tf_parser_grow_def Let_def init_def)
      then have "init\<lparr>ps_capacity := c\<rparr> = init\<lparr>ps_capacity := 64\<rparr>" using 1(1) True by simp
      then have c: "c = 64" using arg_cong [of _ _ ps_capacity] by fastforce
      have "lexer_pos lang source (ps_lexer ?self0)"
        unfolding init_def using lexer_pos_init [OF small] by simp
      moreover have "lx_byte (ps_lexer ?self0) = 0"
        using get_lookahead_eq [where self = "\<lparr>lx_lookahead = 0, lx_result_symbol = 0, lx_lang = lang,
          lx_source = source, lx_size = ucast sz, lx_byte = 0, lx_point = zero_point, lx_lookahead_size = 0,
          token_start_byte = 0, token_start_point = zero_point, token_end_byte = 0, token_end_point = zero_point,
          token_is_keyword = False, token_lex_state = 0\<rparr>"] small
        by (simp add: init_def tf_lexer_init_def)
      ultimately have "starts lang source sink want p0 ?self0"
        using tables
        by (simp add: starts_def loop_inv_def at_heads_def stack_wf_def stack_end_def init_def tables_ok_def c)
      then show thesis using that(2) run True by simp
    qed
  qed
qed

lemma run_Some:
  fixes split :: "('p, 'v, 's) splitter"
  assumes run: "tf_parser_run mem split lang source sz sink want p0 = Some (p, err, ended)"
    and "unat sz = length source" and "tables_ok lang"
  obtains "p = p0" "ended = Failed"
    | self0 self where "starts lang source sink want p0 self0"
        "parser_ends mem split (self0, zero_token, Lex) (self, ended)"
        "p = run_payload self ended" "err = ps_error self"
proof (cases rule: run_cases [OF assms(2,3), of mem split sink want p0])
  case (1 e)
  then show thesis using run that(1) by simp
next
  case (2 self0)
  then obtain self where "tf_parser_loop mem split (self0, zero_token, Lex) = Some (self, ended)"
    "p = run_payload self ended" "err = ps_error self"
    using run unfolding 2(2) map_option_eq_Some by auto
  then show thesis using that(2) 2(1) loop_ends by blast
qed

end
