(* ===== verification/Sink.thy ===== *)
theory Sink
  imports Parser_Inv
begin

text \<open>
  The interface between the driver and a consumer. A client gives an invariant between its
  payload and the cells of the stack that each callback keeps, and what reporting the root
  establishes; the driver then guarantees where the payload is when a parse ends.
\<close>

section \<open>Running out of memory in a reduction\<close>

text \<open>
  Only a production without children can need a new cell after its reduction was reported.
\<close>

lemma grow_enough: "needed \<le> ps_capacity self \<Longrightarrow> tf_parser_grow mem needed self = (self, True)"
  by (simp add: tf_parser_grow_def)

lemma place_parent_enough:
  assumes "ps_nodes self = below @ kids @ trail" and "length below + 1 + length trail \<le> unat (ps_capacity self)"
  shows "snd (place_parent mem (length below) (length below + length kids) state parent self) = Op_Ok"
proof -
  have tc: "ps_depth self - (length below + length kids) = length trail"
    using assms(1) by (simp add: ps_depth_def)
  have "unat (of_nat (length below + 1 + length trail) :: u32) \<le> length below + 1 + length trail"
    by (simp only: unat_of_nat) simp
  then have "of_nat (length below + 1 + length trail) \<le> ps_capacity self"
    using assms(2) by (simp add: word_le_nat_alt)
  then show ?thesis
    using assms(2) unfolding place_parent_def Let_def tc by (simp add: grow_enough)
qed

lemma reduce_Oom:
  assumes "tf_parser_reduce mem symbol child_count production_id lookahead self = (self', Op_Oom)"
    and "stack_wf self"
  obtains c where "self' = self\<lparr>ps_capacity := c\<rparr>"
    | p v c where "unat child_count = 0"
      "tf_parser_emit_reduce (ps_sink self) (ps_payload self)
         (reduction_over symbol production_id child_count (ps_nodes self) []) = (p, v)"
      "self' = self\<lparr>ps_payload := p, ps_capacity := c\<rparr>"
proof -
  have "reduce_scan (ps_nodes self) (unat child_count) 0 0 0 \<noteq> None"
  proof
    assume "reduce_scan (ps_nodes self) (unat child_count) 0 0 0 = None"
    then show False using assms(1) by (simp add: tf_parser_reduce_def)
  qed
  then obtain popped trailing where scan: "reduce_scan (ps_nodes self) (unat child_count) 0 0 0 = Some (popped, trailing)"
    by auto
  obtain below kids trail where split: "reduce_split (unat child_count) (ps_nodes self) below kids trail"
    and len: "popped = length kids + length trail" "trailing = length trail"
    using reduce_scan_Some [OF scan] .
  have nodes: "ps_nodes self = below @ kids @ trail" using split by (simp add: reduce_split_def)
  define state where "state = goto_state symbol (length below) self"
  define rd where "rd = reduction_over symbol production_id child_count below kids"
  define root where "root = root_due lookahead (length below) state self"
  note red = assms(1) [unfolded reduce_unfold [OF split scan [unfolded len]], folded state_def rd_def, folded root_def]
  show thesis
  proof (cases root)
    case True
    obtain s1 rd1 e1 where ab: "absorb_end mem (the lookahead) rd self = (s1, rd1, e1)"
      by (metis prod_cases3)
    from ab show thesis
    proof (cases rule: absorb_end_cases)
      case (1 c p v)
      obtain p' v' where pv: "tf_parser_emit_reduce (ps_sink s1) (ps_payload s1) rd1 = (p', v')"
        by (cases "tf_parser_emit_reduce (ps_sink s1) (ps_payload s1) rd1")
      have "place_parent mem (length below) (length below + length kids) state (parent_node rd v')
          (s1\<lparr>ps_payload := p'\<rparr>) = (self', Op_Oom)"
        using red True ab 1(1) pv by simp
      moreover have "snd (place_parent mem (length below) (length below + length kids) state (parent_node rd v')
          (s1\<lparr>ps_payload := p'\<rparr>)) = Op_Ok"
        using 1(2,4) nodes by (intro place_parent_enough [where trail = trail]) (simp_all add: ps_depth_def)
      ultimately show thesis by simp
    next
      case (2 c)
      then have "self' = s1" using red True ab by auto
      then show thesis using 2 that(1) by simp
    qed
  next
    case False
    obtain p v where pv: "tf_parser_emit_reduce (ps_sink self) (ps_payload self) rd = (p, v)"
      by (cases "tf_parser_emit_reduce (ps_sink self) (ps_payload self) rd")
    have place: "place_parent mem (length below) (length below + length kids) state (parent_node rd v)
        (self\<lparr>ps_payload := p\<rparr>) = (self', Op_Oom)"
      using red False pv by simp
    have empty: "unat child_count = 0"
    proof (rule ccontr)
      assume "unat child_count \<noteq> 0"
      then have "kids \<noteq> []" using split by (simp add: reduce_split_def)
      then have "length below + 1 + length trail \<le> unat (ps_capacity self)"
        using assms(2) nodes by (cases kids) (simp_all add: stack_wf_def)
      then have "snd (place_parent mem (length below) (length below + length kids) state (parent_node rd v)
          (self\<lparr>ps_payload := p\<rparr>)) = Op_Ok"
        using nodes by (intro place_parent_enough [where trail = trail]) simp_all
      then show False using place by simp
    qed
    then have bk: "below = ps_nodes self" "kids = []" using split by (simp_all add: reduce_split_def)
    have "ps_nodes (self\<lparr>ps_payload := p\<rparr>) = below @ kids @ trail" by (simp add: nodes)
    with place obtain c where "self' = self\<lparr>ps_payload := p, ps_capacity := c\<rparr>"
      by (cases rule: place_parent_cases) auto
    then show thesis using that(2) [of p v c] empty pv bk unfolding rd_def by simp
  qed
qed

section \<open>The interface\<close>

locale sink_client =
  fixes sink :: "('p, 'v) TFSink" and source :: "u8 list"
    and inv :: "'p \<Rightarrow> 'v TFNode list \<Rightarrow> bool" and rooted :: "'p \<Rightarrow> 'v option \<Rightarrow> bool"
  assumes client_shift: "inv p nodes \<Longrightarrow> spans_from source 0 nodes \<Longrightarrow>
      token_at source (end_from 0 nodes) token \<Longrightarrow> tok_symbol token \<noteq> 0 \<Longrightarrow>
      tf_parser_emit_shift sink p token extra = (p', v) \<Longrightarrow> inv p' (nodes @ [token_node token extra v])"
    and client_reduce: "inv p nodes \<Longrightarrow> spans_from source 0 nodes \<Longrightarrow>
      reduce_split (unat child_count) nodes below kids trail \<Longrightarrow> symbol \<noteq> 0 \<Longrightarrow>
      tf_parser_emit_reduce sink p (reduction_over symbol production_id child_count below kids) = (p', v) \<Longrightarrow>
      inv p' (below @ parent_node (reduction_over symbol production_id child_count below kids) v # trail)"
    and client_root: "inv p nodes \<Longrightarrow> spans_from source 0 nodes \<Longrightarrow>
      reduce_split (unat child_count) nodes below kids trail \<Longrightarrow> list_all nd_extra below \<Longrightarrow> symbol \<noteq> 0 \<Longrightarrow>
      token_at source (end_from 0 nodes) token \<Longrightarrow> tok_symbol token = 0 \<Longrightarrow>
      tf_parser_emit_shift sink p token True = (p1, v1) \<Longrightarrow>
      tf_parser_emit_reduce sink p1 (root_reduction token nodes v1
        (reduction_over symbol production_id child_count below kids)) = (p', v) \<Longrightarrow> rooted p' v"
begin

definition settled :: "('p, 'v, 's) TFParser \<Rightarrow> bool" where
  "settled self \<longleftrightarrow>
     (if ps_root_emitted self
      then ps_leading self < length (ps_nodes self) \<and> rooted (ps_payload self) (nd_value (ps_nodes self ! ps_leading self))
      else inv (ps_payload self) (ps_nodes self))"

text \<open>After a failure the stack may lack one value that the client has given out.\<close>

definition stranded :: "('p, 'v, 's) TFParser \<Rightarrow> bool" where
  "stranded self \<longleftrightarrow> (\<exists>lost. length lost \<le> 1 \<and> inv (ps_payload self) (ps_nodes self @ lost))"

lemma settled_op:
  assumes "parser_op mem source self self'" and "ps_sink self = sink" and "stack_wf self"
    and "stack_spans source self" and "settled self"
  shows "settled self'"
  using assms
proof (induction rule: parser_op.induct)
  case (op_shift self token extra s self')
  from op_shift(6) show ?case
  proof (cases rule: shift_Ok)
    case (1 p v c)
    then show ?thesis
      using op_shift(1,2,4,7,9,10) client_shift by (auto simp: settled_def stack_end_from)
  qed
next
  case (op_reduce self symbol lookahead child_count production_id self')
  from op_reduce(5) show ?case
  proof (cases rule: reduce_Ok)
    case (1 below kids trail p v c)
    let ?rd = "reduction_over symbol production_id child_count below kids"
    let ?root = "root_due lookahead (length below) (goto_state symbol (length below) self) self"
    have inv: "inv (ps_payload self) (ps_nodes self)" using op_reduce(1,9) by (simp add: settled_def)
    show ?thesis
    proof (cases ?root)
      case False
      then show ?thesis
        using client_reduce [OF inv op_reduce(8) 1(1) op_reduce(3)] 1(2,3) op_reduce(1,6)
        by (simp add: settled_def emit_reduction_def)
    next
      case True
      then obtain token where la: "lookahead = Some token" "tok_symbol token = 0" "length below = ps_leading self"
        by (auto simp: root_due_def split: option.splits)
      obtain p1 v1 where e1: "tf_parser_emit_shift sink (ps_payload self) token True = (p1, v1)"
        by (cases "tf_parser_emit_shift sink (ps_payload self) token True")
      have emit: "tf_parser_emit_reduce sink p1 (root_reduction token (ps_nodes self) v1 ?rd) = (p, v)"
        using 1(2) True la(1) e1 op_reduce(6) by (simp add: emit_reduction_def)
      have "token_at source (end_from 0 (ps_nodes self)) token"
        using op_reduce(4) [OF la(1)] by (simp add: stack_end_from)
      moreover have "list_all nd_extra below"
      proof -
        have "ps_nodes self = below @ kids @ trail" using 1(1) by (simp add: reduce_split_def)
        then show ?thesis using op_reduce(7) la(3) [symmetric] by (simp add: stack_wf_def)
      qed
      ultimately have "rooted p v"
        using client_root [OF inv op_reduce(8) 1(1) _ op_reduce(3) _ la(2) e1 emit] by simp
      moreover have "(below @ parent_node ?rd v # trail) ! ps_leading self = parent_node ?rd v"
        using la(3) by (metis nth_append_length)
      ultimately show ?thesis
        using True la(3) by (simp add: settled_def 1(3) parent_node_def)
    qed
  qed
next
  case (op_other self l n s e)
  then show ?case by (simp add: settled_def)
qed

lemma settled_ops:
  assumes "(parser_op mem source)\<^sup>*\<^sup>* self self'" and "ps_sink self = sink" and "at_heads lang source self"
    and "tables_ok lang" and "settled self"
  shows "settled self' \<and> ps_sink self' = sink"
  using assms
proof (induction rule: rtranclp_induct)
  case (step s1 s2)
  have "stack_wf s1" "stack_spans source s1" using at_heads_ops [OF step(1,5,6)] by (simp_all add: at_heads_def)
  then show ?case using step settled_op [OF step(2)] parser_op_env [OF step(2)] by simp
qed simp

lemma stranded_stop:
  assumes "parser_stop mem source self self'" and "ps_sink self = sink" and "stack_wf self"
    and "stack_spans source self" and "settled self" and "\<not> ps_root_emitted self"
  shows "stranded self' \<and> ps_sink self' = sink"
proof -
  have inv: "inv (ps_payload self) (ps_nodes self)" using assms(5,6) by (simp add: settled_def)
  have one: "stranded s" if "ps_payload s = p" "ps_nodes s = nodes" "inv p (nodes @ [x])" for p nodes x
    and s :: "('p, 'v, 's) TFParser"
    using that by (auto simp: stranded_def intro!: exI [of _ "[x]"])
  have none: "stranded s" if "ps_payload s = p" "ps_nodes s = nodes" "inv p nodes" for p nodes
    and s :: "('p, 'v, 's) TFParser"
    using that by (auto simp: stranded_def intro!: exI [of _ "[]"])
  from assms(1) show ?thesis
  proof cases
    case (stop_shift token extra s)
    obtain p v where emit: "tf_parser_emit_shift sink (ps_payload self) token extra = (p, v)"
      by (cases "tf_parser_emit_shift sink (ps_payload self) token extra")
    have "ps_payload self' = p"
    proof -
      have "fst (tf_parser_push mem node st s1) = s1\<lparr>ps_capacity := c\<rparr> \<Longrightarrow> ps_payload (s1\<lparr>ps_capacity := c\<rparr>) = ps_payload s1"
        for node st s1 c by simp
      show ?thesis using stop_shift(4) emit assms(2)
        by (auto simp: tf_parser_shift_def Let_def elim!: push_cases split: if_splits)
    qed
    then show ?thesis
      using shift_not_Ok [OF stop_shift(4)] one stop_shift(2)
        client_shift [OF inv assms(4) _ stop_shift(3) emit] assms(2) by (auto simp: stack_end_from)
  next
    case (stop_reduce symbol child_count production_id lookahead)
    from stop_reduce(3) assms(3) show ?thesis
    proof (cases rule: reduce_Oom)
      case (1 c)
      then show ?thesis using none [OF _ _ inv, of self'] assms(2) by simp
    next
      case (2 p v c)
      have split: "reduce_split (unat child_count) (ps_nodes self) (ps_nodes self) [] []"
        using 2(1) by (simp add: reduce_split_def)
      have "inv p (ps_nodes self @
          [parent_node (reduction_over symbol production_id child_count (ps_nodes self) []) v])"
        using client_reduce [OF inv assms(4) split stop_reduce(2)] 2(2) assms(2) by simp
      from one [OF _ _ this, of self'] show ?thesis using 2(3) assms(2) by simp
    qed
  next
    case stop_here
    then show ?thesis using none [OF _ _ inv, of self'] assms(2) by simp
  qed
qed

text \<open>Where a run of the loop ends.\<close>

definition client_end :: "('p, 'v, 's) TFParser \<Rightarrow> 'v run_end \<Rightarrow> bool" where
  "client_end self ended \<longleftrightarrow>
     (case ended of Parsed v \<Rightarrow> rooted (ps_payload self) v
      | Failed \<Rightarrow> ps_sink self = sink \<and> stranded self
      | Fault _ \<Rightarrow> True)"

definition client_loop :: "('p, 'v, 's) TFParser \<times> TFToken \<times> 'v control \<Rightarrow> bool" where
  "client_loop = (\<lambda>(self, token, control).
     case control of
       Out_Of_Memory \<Rightarrow> ps_sink self = sink \<and> stranded self
     | Done ended \<Rightarrow> client_end self ended
     | _ \<Rightarrow> ps_sink self = sink \<and> settled self)"

lemma client_moves:
  assumes "loop_moves mem source self self' control" and "at_heads lang source self" and "tables_ok lang"
    and "ps_sink self = sink" and "settled self"
  shows "client_loop (self', token, control)"
  using assms
proof (induction rule: loop_moves.induct)
  case (moves_on self self' control)
  have "settled self' \<and> ps_sink self' = sink"
    using moves_on(1,5,3,4,6) by (rule settled_ops)
  then show ?case using moves_on(2) by (auto simp: client_loop_def)
next
  case (moves_stop self s1 s2 self' l n s e control)
  have s1: "settled s1" "ps_sink s1 = sink" "stack_wf s1" "stack_spans source s1"
    using settled_ops [OF moves_stop(1,8,6,7,9)] at_heads_ops [OF moves_stop(1,6,7)]
    by (simp_all add: at_heads_def)
  have "stranded s2 \<and> ps_sink s2 = sink" using moves_stop(3) s1(2,3,4,1) moves_stop(2) by (rule stranded_stop)
  then have "stranded self' \<and> ps_sink self' = sink" by (simp add: moves_stop(4) stranded_def)
  then show ?case using moves_stop(5) by (elim disjE) (simp_all add: client_loop_def client_end_def)
next
  case (moves_accept self v)
  then show ?case by (auto simp: client_loop_def client_end_def settled_def ps_depth_def)
next
  case (moves_fault self self' f)
  then show ?case by (simp add: client_loop_def client_end_def)
qed

lemma client_ends:
  assumes "parser_ends mem split x (self, ended)" and "loop_inv lang source x" and "client_loop x"
    and "tables_ok lang" and "lexes_tokens lang" and "split_contract mem lang source split"
  shows "client_end self ended"
proof -
  have step: "loop_inv lang source y \<and> client_loop y"
    if "loop_inv lang source x \<and> client_loop x" "parser_step mem split x y" for x y
  proof -
    obtain s t c s' t' c' where xy: "x = (s, t, c)" "y = (s', t', c')" by (cases x; cases y) blast
    have c: "c = Lex \<or> (\<exists>q. c = Dispatch q)" using that(2) xy by (cases c) auto
    have step: "parser_step mem split (s, t, c) (s', t', c')" and inv: "loop_inv lang source (s, t, c)"
      using that xy by auto
    have "at_heads lang source s" "ps_sink s = sink" "settled s"
      using that(1) c xy by (auto simp: loop_inv_def client_loop_def)
    then show ?thesis
      using loop_step [OF step inv assms(4-6)] client_moves [OF _ _ assms(4), of mem s s' c' t'] by (simp add: xy)
  qed
  have "(\<exists>token. loop_inv lang source (self, token, Done ended) \<and> client_loop (self, token, Done ended)) \<or>
     (\<exists>s1 token. (loop_inv lang source (s1, token, Out_Of_Memory) \<and> client_loop (s1, token, Out_Of_Memory)) \<and>
        ended = Failed \<and> self = tf_parser_fail (tok_start_byte token) (tok_start_point token) ''out of memory'' s1)"
    by (rule ends_invariant [OF assms(1), where I = "\<lambda>x. loop_inv lang source x \<and> client_loop x",
          unfolded fst_conv snd_conv, OF conjI [OF assms(2,3)]]) (rule step)
  then have "(\<exists>token. client_loop (self, token, Done ended)) \<or> (\<exists>s1 token. client_loop (s1, token, Out_Of_Memory) \<and>
      ended = Failed \<and> self = tf_parser_fail (tok_start_byte token) (tok_start_point token) ''out of memory'' s1)"
    by blast
  then show ?thesis
  proof
    assume "\<exists>token. client_loop (self, token, Done ended)"
    then show ?thesis by (auto simp: client_loop_def)
  next
    assume "\<exists>s1 token. client_loop (s1, token, Out_Of_Memory) \<and> ended = Failed \<and>
      self = tf_parser_fail (tok_start_byte token) (tok_start_point token) ''out of memory'' s1"
    then obtain s1 token where loop: "client_loop (s1, token, Out_Of_Memory)" and ended: "ended = Failed"
      and self: "self = tf_parser_fail (tok_start_byte token) (tok_start_point token) ''out of memory'' s1"
      by blast
    have s1: "ps_sink s1 = sink" "stranded s1" using loop by (simp_all add: client_loop_def)
    obtain e where "self = s1\<lparr>ps_error := e\<rparr>" using fail_update self by metis
    then show ?thesis using s1 ended by (simp add: client_end_def stranded_def)
  qed
qed

text \<open>
  The driver's guarantee: a parse that succeeds has reported the root; one that fails hands
  the values of the stack back, all of the client's but at most one.
\<close>

lemma client_run:
  assumes run: "tf_parser_run mem split lang source sz (Some sink) want p0 = Some (p, err, ended)"
    and "inv p0 []" and "unat sz = length source"
    and "tables_ok lang" and "lexes_tokens lang" and "split_contract mem lang source split"
  shows "case ended of Parsed v \<Rightarrow> rooted p v
     | Failed \<Rightarrow> \<exists>p1 nodes lost. inv p1 (nodes @ lost) \<and> length lost \<le> 1 \<and> p = discard_values sink nodes p1
     | Fault _ \<Rightarrow> True"
  using run assms(3,4)
proof (cases rule: run_Some)
  case 1
  then show ?thesis
    using assms(2) by (auto simp: discard_values_def intro!: exI [of _ "[]"] split: option.split)
next
  case (2 self0 self)
  have "loop_inv lang source (self0, zero_token, Lex :: 'v control)" and "client_loop (self0, zero_token, Lex)"
    using 2(1) assms(2) by (simp_all add: starts_def client_loop_def settled_def)
  from client_ends [OF 2(2) this assms(4-6)] have "client_end self ended" .
  then show ?thesis
    using 2(3) by (auto simp: client_end_def run_payload_def stranded_def split: run_end.splits)
qed

end

end
