(* ===== verification/Tree.thy ===== *)
theory Tree
  imports Sink
begin

text \<open>
  A consumer that builds the parse tree, and what a successful parse hands it: the tree's
  leaves are the tokens that were shifted, in the order of the source, and every branch has
  the children its production asks for.
\<close>

section \<open>Trees\<close>

text \<open>
  A branch has the symbol, the production and the child count of its reduction, its span and
  its cells, the extras between the children included.
\<close>

datatype ptree =
    Leaf TFToken bool
  | Branch TSSymbol u16 u32 u32 u32 "ptree list"

fun fringe :: "ptree \<Rightarrow> (TFToken \<times> bool) list" where
  "fringe (Leaf token extra) = [(token, extra)]"
| "fringe (Branch _ _ _ _ _ kids) = concat (map fringe kids)"

fun tree_symbol :: "ptree \<Rightarrow> TSSymbol" where
  "tree_symbol (Leaf token _) = tok_symbol token"
| "tree_symbol (Branch symbol _ _ _ _ _) = symbol"

fun tree_extra :: "ptree \<Rightarrow> bool" where
  "tree_extra (Leaf _ extra) = extra"
| "tree_extra (Branch _ _ _ _ _ _) = False"

fun tree_start :: "ptree \<Rightarrow> u32" where
  "tree_start (Leaf token _) = tok_start_byte token"
| "tree_start (Branch _ _ _ start _ _) = start"

fun tree_end :: "ptree \<Rightarrow> u32" where
  "tree_end (Leaf token _) = tok_end_byte token"
| "tree_end (Branch _ _ _ _ end _) = end"

text \<open>
  The children of a branch: as many as the production has, extras aside, the first and the
  last of them no extras, from the start of the first to the end of the last.
\<close>

definition production_kids :: "u32 \<Rightarrow> ptree list \<Rightarrow> bool" where
  "production_kids child_count kids \<longleftrightarrow>
     length (filter (\<lambda>t. \<not> tree_extra t) kids) = unat child_count \<and>
     (kids \<noteq> [] \<longrightarrow> \<not> tree_extra (hd kids) \<and> \<not> tree_extra (last kids))"

definition kids_span :: "u32 \<Rightarrow> u32 \<Rightarrow> ptree list \<Rightarrow> bool" where
  "kids_span start end kids \<longleftrightarrow>
     (if kids = [] then start = end else start = tree_start (hd kids) \<and> end = tree_end (last kids))"

fun tree_wf :: "ptree \<Rightarrow> bool" where
  "tree_wf (Leaf token _) = (tok_symbol token \<noteq> 0)"
| "tree_wf (Branch symbol _ child_count start end kids) =
    (symbol \<noteq> 0 \<and> production_kids child_count kids \<and> kids_span start end kids \<and> list_all tree_wf kids)"

text \<open>
  The root has the leading extras in front of its children, the trailing ones behind them and
  the end token last.
\<close>

definition root_wf :: "ptree \<Rightarrow> bool" where
  "root_wf root \<longleftrightarrow>
     (\<exists>symbol production child_count start end leading kids trailing token.
        root = Branch symbol production child_count start end (leading @ kids @ trailing @ [Leaf token True]) \<and>
        symbol \<noteq> 0 \<and> list_all tree_extra leading \<and> production_kids child_count kids \<and>
        list_all tree_extra trailing \<and> list_all tree_wf (leading @ kids @ trailing) \<and>
        tok_symbol token = 0 \<and> end = tok_end_byte token)"

text \<open>Tokens that follow each other through the source.\<close>

fun tokens_from :: "u8 list \<Rightarrow> u32 \<Rightarrow> (TFToken \<times> bool) list \<Rightarrow> bool" where
  "tokens_from source lo [] = True"
| "tokens_from source lo (t # rest) = (token_at source lo (fst t) \<and> tokens_from source (tok_end_byte (fst t)) rest)"

definition tokens_end :: "u32 \<Rightarrow> (TFToken \<times> bool) list \<Rightarrow> u32" where
  "tokens_end lo tokens = (if tokens = [] then lo else tok_end_byte (fst (last tokens)))"

lemma tokens_end_simps [simp]:
  "tokens_end lo [] = lo" "tokens_end lo (t # rest) = tokens_end (tok_end_byte (fst t)) rest"
  "tokens_end lo (xs @ ys) = tokens_end (tokens_end lo xs) ys"
  by (simp_all add: tokens_end_def)

lemma tokens_from_append [simp]:
  "tokens_from source lo (xs @ ys) \<longleftrightarrow> tokens_from source lo xs \<and> tokens_from source (tokens_end lo xs) ys"
  by (induction xs arbitrary: lo) auto

section \<open>The tree-building sink\<close>

text \<open>It logs the tokens it is given and returns a tree for each of them and each reduction.\<close>

definition cell_tree :: "ptree TFNode \<Rightarrow> ptree" where
  "cell_tree n = (case nd_value n of Some t \<Rightarrow> t
     | None \<Rightarrow> Branch (nd_symbol n) 0 0 (nd_start_byte n) (nd_end_byte n) [])"

definition branch_of :: "ptree TFReduction \<Rightarrow> ptree" where
  "branch_of rd = Branch (rd_symbol rd) (rd_production_id rd) (rd_child_count rd)
     (rd_start_byte rd) (rd_end_byte rd) (map cell_tree (rd_children rd))"

definition tree_sink :: "((TFToken \<times> bool) list, ptree) TFSink" where
  "tree_sink = \<lparr>
     on_shift = Some (\<lambda>log token extra. (log @ [(token, extra)], Some (Leaf token extra))),
     on_reduce = Some (\<lambda>log rd. (log, Some (branch_of rd))),
     on_discard = None\<rparr>"

lemma emit_tree_sink [simp]:
  "tf_parser_emit_shift tree_sink log token extra = (log @ [(token, extra)], Some (Leaf token extra))"
  "tf_parser_emit_reduce tree_sink log rd = (log, Some (branch_of rd))"
  "discard_values tree_sink nodes log = log"
  by (simp_all add: tf_parser_emit_shift_def tf_parser_emit_reduce_def tree_sink_def discard_values_def)

text \<open>A cell and the tree in it.\<close>

definition tree_cell :: "ptree TFNode \<Rightarrow> bool" where
  "tree_cell n \<longleftrightarrow> nd_value n = Some (cell_tree n) \<and> tree_wf (cell_tree n) \<and>
     tree_extra (cell_tree n) = nd_extra n \<and> tree_start (cell_tree n) = nd_start_byte n \<and>
     tree_end (cell_tree n) = nd_end_byte n"

definition forest_fringe :: "ptree TFNode list \<Rightarrow> (TFToken \<times> bool) list" where
  "forest_fringe nodes = concat (map (fringe \<circ> cell_tree) nodes)"

lemma forest_fringe_simps [simp]:
  "forest_fringe [] = []" "forest_fringe (n # ns) = fringe (cell_tree n) @ forest_fringe ns"
  "forest_fringe (xs @ ys) = forest_fringe xs @ forest_fringe ys"
  by (simp_all add: forest_fringe_def)

definition tree_inv :: "u8 list \<Rightarrow> (TFToken \<times> bool) list \<Rightarrow> ptree TFNode list \<Rightarrow> bool" where
  "tree_inv source log nodes \<longleftrightarrow>
     list_all tree_cell nodes \<and> forest_fringe nodes = log \<and> tokens_from source 0 log \<and>
     list_all (\<lambda>(token, _). tok_symbol token \<noteq> 0) log \<and> tokens_end 0 log = end_from 0 nodes"

definition tree_rooted :: "u8 list \<Rightarrow> (TFToken \<times> bool) list \<Rightarrow> ptree option \<Rightarrow> bool" where
  "tree_rooted source log v \<longleftrightarrow>
     (\<exists>root. v = Some root \<and> root_wf root \<and> fringe root = log \<and> tokens_from source 0 log \<and>
        tok_symbol (fst (last log)) = 0 \<and> list_all (\<lambda>(token, _). tok_symbol token \<noteq> 0) (butlast log))"

lemma cell_tree_nodes [simp]:
  "cell_tree (token_node token extra (Some t)) = t" "cell_tree (parent_node rd (Some t)) = t"
  by (simp_all add: cell_tree_def token_node_def parent_node_def)

lemma structural_cells:
  "list_all tree_cell kids \<Longrightarrow> length (filter (\<lambda>t. \<not> tree_extra t) (map cell_tree kids)) = structural kids"
  by (induction kids) (auto simp: tree_cell_def)

lemma reduction_kids:
  assumes "reduce_split (unat child_count) nodes below kids trail" and "list_all tree_cell nodes"
  shows "production_kids child_count (map cell_tree kids)"
proof -
  have kids: "list_all tree_cell kids" using assms by (simp add: reduce_split_def)
  have "\<not> tree_extra (cell_tree (hd kids)) \<and> \<not> tree_extra (cell_tree (last kids))" if "kids \<noteq> []"
    using assms(1) kids that by (auto simp: reduce_split_def tree_cell_def list_all_iff split: if_splits)
  then show ?thesis
    using structural_cells [OF kids] assms(1)
    by (auto simp: production_kids_def reduce_split_def hd_map last_map)
qed

lemma tree_cell_extra: "list_all tree_cell nodes \<Longrightarrow> list_all nd_extra nodes \<Longrightarrow> list_all tree_extra (map cell_tree nodes)"
  by (induction nodes) (auto simp: tree_cell_def)

lemma tree_cell_wf: "list_all tree_cell nodes \<Longrightarrow> list_all tree_wf (map cell_tree nodes)"
  by (induction nodes) (auto simp: tree_cell_def)

lemma fringe_branch: "fringe (branch_of rd) = forest_fringe (rd_children rd)"
  by (simp add: branch_of_def forest_fringe_def comp_def)

lemma tree_cell_branch:
  assumes "reduce_split (unat child_count) nodes below kids trail" and "list_all tree_cell nodes" and "symbol \<noteq> 0"
  shows "tree_cell (parent_node (reduction_over symbol production_id child_count below kids)
     (Some (branch_of (reduction_over symbol production_id child_count below kids))))"
proof -
  let ?rd = "reduction_over symbol production_id child_count below kids"
  have kids: "list_all tree_cell kids" using assms by (simp add: reduce_split_def)
  have ends: "nd_start_byte n = tree_start (cell_tree n) \<and> nd_end_byte n = tree_end (cell_tree n)" if "n \<in> set kids" for n
    using kids that by (simp add: list_all_iff tree_cell_def)
  have "kids_span (rd_start_byte ?rd) (rd_end_byte ?rd) (map cell_tree kids)"
    using ends by (cases "kids = []") (simp_all add: kids_span_def reduction_over_def hd_map last_map)
  then have "tree_wf (branch_of ?rd)"
    using reduction_kids [OF assms(1,2)] tree_cell_wf [OF kids] assms(3)
    by (simp add: branch_of_def) (simp add: reduction_over_def)
  moreover have "tree_start (branch_of ?rd) = rd_start_byte ?rd" "tree_end (branch_of ?rd) = rd_end_byte ?rd"
    "\<not> tree_extra (branch_of ?rd)"
    by (simp_all add: branch_of_def)
  ultimately show ?thesis
    by (simp add: tree_cell_def) (simp add: parent_node_def)
qed

lemma root_fringe: "fringe (branch_of (root_reduction token nodes (Some t) rd)) = forest_fringe nodes @ fringe t"
  by (simp add: fringe_branch root_reduction_def Let_def)

lemma root_branch:
  assumes "reduce_split (unat child_count) nodes below kids trail" and "list_all tree_cell nodes"
    and "list_all nd_extra below" and "symbol \<noteq> 0" and "tok_symbol token = 0"
  shows "root_wf (branch_of (root_reduction token nodes (Some (Leaf token True))
     (reduction_over symbol production_id child_count below kids)))"
proof -
  let ?rd = "reduction_over symbol production_id child_count below kids"
  let ?root = "root_reduction token nodes (Some (Leaf token True)) ?rd"
  have nodes: "nodes = below @ kids @ trail" and trail: "list_all nd_extra trail"
    using assms(1) by (simp_all add: reduce_split_def)
  have "map cell_tree (rd_children ?root) =
      map cell_tree below @ map cell_tree kids @ map cell_tree trail @ [Leaf token True]"
    by (simp add: root_reduction_def Let_def nodes)
  then have "branch_of ?root = Branch symbol production_id child_count (rd_start_byte ?root) (tok_end_byte token)
      (map cell_tree below @ map cell_tree kids @ map cell_tree trail @ [Leaf token True])"
    by (simp add: branch_of_def) (simp add: root_reduction_def reduction_over_def Let_def)
  moreover have "list_all tree_extra (map cell_tree below)" "list_all tree_extra (map cell_tree trail)"
    using assms(2,3) trail by (simp_all add: nodes tree_cell_extra)
  moreover have "list_all tree_wf (map cell_tree below @ map cell_tree kids @ map cell_tree trail)"
    using tree_cell_wf [OF assms(2)] by (simp add: nodes)
  ultimately show ?thesis
    unfolding root_wf_def using reduction_kids [OF assms(1,2)] assms(4,5) by blast
qed

interpretation tree: sink_client tree_sink source "tree_inv source" "tree_rooted source" for source
proof
  fix p :: "(TFToken \<times> bool) list" and nodes token extra p' v
  assume inv: "tree_inv source p nodes" and tok: "token_at source (end_from 0 nodes) token" "tok_symbol token \<noteq> 0"
    and emit: "tf_parser_emit_shift tree_sink p token extra = (p', v)"
  have pv: "p' = p @ [(token, extra)]" "v = Some (Leaf token extra)" using emit by simp_all
  have "tree_cell (token_node token extra v)"
    using tok(2) by (simp add: tree_cell_def pv) (simp add: token_node_def)
  then show "tree_inv source p' (nodes @ [token_node token extra v])"
    using inv tok by (simp add: tree_inv_def pv) (simp add: token_node_def)
next
  fix p :: "(TFToken \<times> bool) list" and nodes child_count and below kids trail :: "ptree TFNode list" and symbol production_id p' v
  let ?rd = "reduction_over symbol production_id child_count below kids"
  assume inv: "tree_inv source p nodes" and spans: "spans_from source 0 nodes"
    and split: "reduce_split (unat child_count) nodes below kids trail" and sym: "symbol \<noteq> 0"
    and emit: "tf_parser_emit_reduce tree_sink p ?rd = (p', v)"
  have nodes: "nodes = below @ kids @ trail" using split by (simp add: reduce_split_def)
  have pv: "p' = p" "v = Some (branch_of ?rd)" using emit by simp_all
  have "fringe (branch_of ?rd) = forest_fringe kids" by (simp add: fringe_branch reduction_over_def)
  moreover have "end_from 0 (below @ parent_node ?rd v # trail) = end_from 0 nodes"
    using node_at_parent(2) [of source below kids] spans nodes by simp
  ultimately show "tree_inv source p' (below @ parent_node ?rd v # trail)"
    using inv tree_cell_branch [OF split _ sym] by (simp add: tree_inv_def pv nodes)
next
  fix p :: "(TFToken \<times> bool) list" and nodes child_count and below kids trail :: "ptree TFNode list" and symbol token p1 v1 production_id p' v
  let ?rd = "reduction_over symbol production_id child_count below kids"
  assume inv: "tree_inv source p nodes" and split: "reduce_split (unat child_count) nodes below kids trail"
    and below: "list_all nd_extra below" and sym: "symbol \<noteq> 0" and tok: "token_at source (end_from 0 nodes) token" "tok_symbol token = 0"
    and shift: "tf_parser_emit_shift tree_sink p token True = (p1, v1)"
    and emit: "tf_parser_emit_reduce tree_sink p1 (root_reduction token nodes v1 ?rd) = (p', v)"
  have pv: "p' = p @ [(token, True)]" "v1 = Some (Leaf token True)" "v = Some (branch_of (root_reduction token nodes v1 ?rd))"
    using shift emit by simp_all
  have "list_all tree_cell nodes" using inv by (simp add: tree_inv_def)
  from root_branch [OF split this below sym tok(2)] have "root_wf (branch_of (root_reduction token nodes v1 ?rd))"
    by (simp add: pv)
  then show "tree_rooted source p' v"
    using inv tok by (simp add: tree_rooted_def tree_inv_def pv root_fringe)
qed

end
