(* ===== verification/Ledger.thy ===== *)
theory Ledger
  imports Sink "HOL-Library.Multiset"
begin

text \<open>
  A consumer that numbers the values it gives out and keeps a ledger of those it was handed
  back, as children of a reduction or as discarded ones: no value is handed back twice, and
  what is missing at the end is the root, or at most one value after a failure.
\<close>

record ledger =
  issued :: nat
  used :: "nat list"
  given_back :: "nat list"

definition cell_values :: "'v TFNode list \<Rightarrow> 'v list" where
  "cell_values nodes = concat (map (\<lambda>n. case nd_value n of Some v \<Rightarrow> [v] | None \<Rightarrow> []) nodes)"

lemma cell_values_simps [simp]:
  "cell_values [] = []" "cell_values (xs @ ys) = cell_values xs @ cell_values ys"
  "cell_values (n # nodes) = (case nd_value n of Some v \<Rightarrow> [v] | None \<Rightarrow> []) @ cell_values nodes"
  by (simp_all add: cell_values_def)

definition ledger_sink :: "(ledger, nat) TFSink" where
  "ledger_sink = \<lparr>
     on_shift = Some (\<lambda>l token extra. (l\<lparr>issued := issued l + 1\<rparr>, Some (issued l))),
     on_reduce = Some (\<lambda>l rd. (l\<lparr>issued := issued l + 1, used := used l @ cell_values (rd_children rd)\<rparr>, Some (issued l))),
     on_discard = Some (\<lambda>l v. l\<lparr>given_back := given_back l @ [v]\<rparr>)\<rparr>"

definition new_ledger :: ledger where
  "new_ledger = \<lparr>issued = 0, used = [], given_back = []\<rparr>"

lemma emit_ledger [simp]:
  "tf_parser_emit_shift ledger_sink l token extra = (l\<lparr>issued := issued l + 1\<rparr>, Some (issued l))"
  "tf_parser_emit_reduce ledger_sink l rd =
     (l\<lparr>issued := issued l + 1, used := used l @ cell_values (rd_children rd)\<rparr>, Some (issued l))"
  by (simp_all add: tf_parser_emit_shift_def tf_parser_emit_reduce_def ledger_sink_def)

lemma discard_ledger: "discard_values ledger_sink nodes l = l\<lparr>given_back := given_back l @ cell_values nodes\<rparr>"
  unfolding discard_values_def ledger_sink_def TFSink.select_convs option.case
  by (induction nodes arbitrary: l) (auto split: option.split)

text \<open>The values in use are those of the stack; all others were consumed.\<close>

definition ledger_inv :: "ledger \<Rightarrow> nat TFNode list \<Rightarrow> bool" where
  "ledger_inv l nodes \<longleftrightarrow> mset (used l) + mset (cell_values nodes) = mset [0..<issued l] \<and> given_back l = []"

definition ledger_closed :: "ledger \<Rightarrow> nat option \<Rightarrow> bool" where
  "ledger_closed l v \<longleftrightarrow>
     (\<exists>root. v = Some root \<and> mset (used l) + {#root#} = mset [0..<issued l]) \<and> given_back l = []"

lemma mset_set_upt_Suc [simp]: "mset_set {0..<Suc n} = add_mset n (mset_set {0..<n})"
  by (simp add: atLeast0_lessThan_Suc)

lemma node_values [simp]:
  "nd_value (token_node token extra v) = v" "nd_value (parent_node rd v) = v"
  by (simp_all add: token_node_def parent_node_def)

interpretation ledger: sink_client ledger_sink source ledger_inv ledger_closed for source
proof
  fix p :: ledger and nodes :: "nat TFNode list" and token extra p' v
  assume "ledger_inv p nodes" and "tf_parser_emit_shift ledger_sink p token extra = (p', v)"
  then show "ledger_inv p' (nodes @ [token_node token extra v])"
    by (auto simp: ledger_inv_def)
next
  fix p :: ledger and nodes below kids trail :: "nat TFNode list" and child_count symbol production_id p' v
  assume "ledger_inv p nodes" and "reduce_split (unat child_count) nodes below kids trail"
    and "tf_parser_emit_reduce ledger_sink p (reduction_over symbol production_id child_count below kids) = (p', v)"
  then show "ledger_inv p' (below @ parent_node (reduction_over symbol production_id child_count below kids) v # trail)"
    by (auto simp: ledger_inv_def reduce_split_def ac_simps) (simp add: reduction_over_def ac_simps)
next
  fix p :: ledger and nodes below kids trail :: "nat TFNode list" and child_count symbol token p1 v1 production_id p' v
  assume "ledger_inv p nodes" and "tf_parser_emit_shift ledger_sink p token True = (p1, v1)"
    and "tf_parser_emit_reduce ledger_sink p1 (root_reduction token nodes v1
          (reduction_over symbol production_id child_count below kids)) = (p', v)"
  then show "ledger_closed p' v"
    by (auto simp: ledger_inv_def ledger_closed_def) (simp add: root_reduction_def Let_def)
qed

end
