(* ===== verification/Demo_Run.thy ===== *)
theory Demo_Run
  imports Sink Lexer_Props
begin

text \<open>
  A parse of the demonstration grammar, worked out once for every sink: the text
  \<^verbatim>\<open>(a end#\<close>, with a word, a keyword and a comment in front of the end of the input.
\<close>

definition demo_source :: "u8 list" where
  "demo_source = [40, 97, 32, 101, 110, 100, 35]"

definition at_column :: "u32 \<Rightarrow> TFPoint" where
  "at_column n = \<lparr>row = 0, column = n\<rparr>"

definition demo_token :: "TSSymbol \<Rightarrow> u32 \<Rightarrow> u32 \<Rightarrow> TFToken" where
  "demo_token symbol start end = \<lparr>tok_symbol = symbol, tok_start_byte = start, tok_end_byte = end,
     tok_start_point = at_column start, tok_end_point = at_column end\<rparr>"

text \<open>The lexer at a byte, with the lookahead, the result and the marks of its last scan.\<close>

definition demo_scanner :: "int \<Rightarrow> TSSymbol \<Rightarrow> u32 \<Rightarrow> u32 \<Rightarrow> u32 \<Rightarrow> TFPoint \<Rightarrow> bool \<Rightarrow> TSStateId \<Rightarrow> TFLexer" where
  "demo_scanner la symbol byte start end point kw state =
     \<lparr>lx_lookahead = la, lx_result_symbol = symbol, lx_lang = demo_lang, lx_source = demo_source,
      lx_size = 7, lx_byte = byte, lx_point = at_column byte, lx_lookahead_size = 1,
      token_start_byte = start, token_start_point = at_column start,
      token_end_byte = end, token_end_point = point,
      token_is_keyword = kw, token_lex_state = state\<rparr>"

abbreviation demo_lexer :: "int \<Rightarrow> TSSymbol \<Rightarrow> u32 \<Rightarrow> u32 \<Rightarrow> u32 \<Rightarrow> bool \<Rightarrow> TSStateId \<Rightarrow> TFLexer" where
  "demo_lexer la symbol byte start end kw state \<equiv>
     demo_scanner la symbol byte start end (at_column end) kw state"

lemma demo_sel [simp]:
  "lex_fn demo = demo_lex" "keyword_lex_fn demo = demo_keyword_lex" "keyword_capture_token demo = 1"
  "symbol_count demo = 8" "state_count demo = 10" "token_count demo = 5"
  "lex_modes demo q = \<lparr>lex_state = 0, external_lex_state = 0, reserved_word_set_id = 0\<rparr>"
  by (simp_all add: demo_def)

lemma demo_token_sel [simp]:
  "tok_symbol (demo_token sy s e) = sy" "tok_start_byte (demo_token sy s e) = s"
  "tok_end_byte (demo_token sy s e) = e" "tok_start_point (demo_token sy s e) = at_column s"
  "tok_end_point (demo_token sy s e) = at_column e"
  "(demo_token sy s e)\<lparr>tok_symbol := sy'\<rparr> = demo_token sy' s e"
  by (simp_all add: demo_token_def)

lemma demo_bytes [simp]:
  "demo_source ! 0 = 40" "demo_source ! Suc 0 = 97" "demo_source ! 2 = 32" "demo_source ! 3 = 101"
  "demo_source ! 4 = 110" "demo_source ! 5 = 100" "demo_source ! 6 = 35"
  by (simp_all add: demo_source_def)

lemma seven_le_one [simp]: "((7 :: u32) \<le> 1) = False"
  by (simp add: word_le_nat_alt)

text \<open>What the callbacks do to it.\<close>

lemma demo_scanner_sel [simp]:
  "lx_lang (demo_scanner la sy b s e p k q) = demo_lang" "lx_result_symbol (demo_scanner la sy b s e p k q) = sy"
  "token_end_byte (demo_scanner la sy b s e p k q) = e" "lx_byte (demo_scanner la sy b s e p k q) = b"
  "lx_size (demo_scanner la sy b s e p k q) = 7" "lx_lookahead (demo_scanner la sy b s e p k q) = la"
  "lx_point (demo_scanner la sy b s e p k q) = at_column b" "token_is_keyword (demo_scanner la sy b s e p k q) = k"
  "(demo_scanner la sy b s e p k q)\<lparr>token_lex_state := q'\<rparr> = demo_scanner la sy b s e p k q'"
  "(demo_scanner la sy b s e p k q)\<lparr>token_is_keyword := k'\<rparr> = demo_scanner la sy b s e p k' q"
  "(demo_scanner la sy b s e p k q)\<lparr>lx_result_symbol := sy'\<rparr> = demo_scanner la sy' b s e p k q"
  "lexed_token (demo_lexer la sy b s e k q) = demo_token sy s e"
  by (simp_all add: demo_scanner_def lexed_token_def demo_token_def)

lemma demo_mark [simp]:
  "tf_lexer_mark_end (demo_scanner la sy b s e p k q) = demo_lexer la sy b s b k q"
  "tf_lexer_start (demo_scanner la sy b s e p k q) =
     (if b = 0 \<and> la = TF_BOM then tf_lexer_advance True (demo_scanner la 0 b b TF_NO_END p k q)
      else demo_scanner la 0 b b TF_NO_END p k q)"
  by (simp_all add: tf_lexer_mark_end_def tf_lexer_start_def Let_def, simp_all add: demo_scanner_def)

lemma demo_get:
  "tf_lexer_get_lookahead (demo_scanner la sy b s e p k q\<lparr>lx_byte := b', lx_point := at_column b'\<rparr>) =
     (if 7 \<le> b' then demo_scanner 0 sy b' s e p k q
      else if demo_source ! unat b' < 0x80 then demo_scanner (uint (demo_source ! unat b')) sy b' s e p k q
      else tf_lexer_get_lookahead (demo_scanner la sy b s e p k q\<lparr>lx_byte := b', lx_point := at_column b'\<rparr>))"
  by (simp add: tf_lexer_get_lookahead_def demo_scanner_def)

lemma demo_seek:
  "7 \<le> b \<Longrightarrow> tf_lexer_seek b (at_column b) (demo_scanner la sy b' s e p k q) = demo_scanner 0 sy b s e p k q"
  "\<not> 7 \<le> b \<Longrightarrow> demo_source ! unat b < 0x80 \<Longrightarrow>
     tf_lexer_seek b (at_column b) (demo_scanner la sy b' s e p k q) =
       demo_scanner (uint (demo_source ! unat b)) sy b s e p k q"
  by (simp_all add: tf_lexer_seek_def demo_get)

lemma demo_advance:
  "7 \<le> b \<Longrightarrow> tf_lexer_advance skip (demo_scanner la sy b s e p k q) = demo_scanner la sy b s e p k q"
  "\<not> 7 \<le> b \<Longrightarrow> la \<noteq> 10 \<Longrightarrow> 7 \<le> b + 1 \<Longrightarrow> tf_lexer_advance skip (demo_scanner la sy b s e p k q) =
     demo_scanner 0 sy (b + 1) (if skip then b + 1 else s) e p k q"
  "\<not> 7 \<le> b \<Longrightarrow> la \<noteq> 10 \<Longrightarrow> \<not> 7 \<le> b + 1 \<Longrightarrow> demo_source ! unat (b + 1) < 0x80 \<Longrightarrow>
     tf_lexer_advance skip (demo_scanner la sy b s e p k q) =
       demo_scanner (uint (demo_source ! unat (b + 1))) sy (b + 1) (if skip then b + 1 else s) e p k q"
  by (simp_all add: tf_lexer_advance_def tf_lexer_do_advance_def Let_def, simp_all add: tf_lexer_get_lookahead_def demo_scanner_def at_column_def)

lemmas demo_scanning =
  tf_lexer_scan_def tf_lexer_finish_def tf_lexer_eof_def tf_lexer_ops_def
  accept_token_def demo_lex_def demo_keyword_lex_def is_letter_def TF_NO_END_def TF_BOM_def

text \<open>The state machine one move at a time, so that evaluation only unfolds the moves it makes.\<close>

lemma lex_run_moves:
  "row_move (rows s) (op_lookahead ops l) (op_eof ops l) = END_STATE \<Longrightarrow>
     lex_run ops rows s result l = Some (accept_token ops (row_accept (rows s)) (result, l))"
  "row_move (rows s) (op_lookahead ops l) (op_eof ops l) = ADVANCE s' \<Longrightarrow>
     lex_run ops rows s result l = (case accept_token ops (row_accept (rows s)) (result, l) of
         (result, l) \<Rightarrow> lex_run ops rows s' result (op_advance ops False l))"
  "row_move (rows s) (op_lookahead ops l) (op_eof ops l) = SKIP s' \<Longrightarrow>
     lex_run ops rows s result l = (case accept_token ops (row_accept (rows s)) (result, l) of
         (result, l) \<Rightarrow> lex_run ops rows s' result (op_advance ops True l))"
  by (simp_all add: lex_run.simps [of ops rows s result l] Let_def split_def)

lemma demo_lexer_init: "tf_lexer_init demo_lang demo_source 7 = demo_lexer 40 0 0 0 0 False 0"
  by (simp add: tf_lexer_init_def tf_lexer_get_lookahead_def demo_scanner_def at_column_def zero_point_def)

lemma demo_lookups:
  "tf_lookup demo_lang 2 3 = 11" "tf_lookup demo_lang 1 3 = 0"
  by code_simp+

lemma demo_scans:
  "tf_lexer_scan demo_lex 0 (demo_lexer 40 0 0 0 0 False 1) = Some (True, demo_lexer 97 2 1 0 1 False 1)"
  "tf_lexer_scan demo_lex 0 (demo_lexer 97 2 1 0 1 False 3) = Some (True, demo_lexer 32 1 2 1 2 False 3)"
  "tf_lexer_scan demo_lex 0 (demo_lexer 32 0 2 1 1 False 2) = Some (True, demo_lexer 35 1 6 3 6 False 2)"
  "tf_lexer_scan demo_lex 0 (demo_lexer 35 3 6 3 6 False 9) = Some (True, demo_lexer 0 4 7 6 7 False 9)"
  "tf_lexer_scan demo_lex 0 (demo_lexer 0 4 7 6 7 False 9) = Some (True, demo_lexer 0 0 7 7 7 False 9)"
  "tf_lexer_scan demo_keyword_lex 0 (demo_lexer 97 1 1 1 2 False 3) = Some (False, demo_lexer 97 0 1 1 1 False 3)"
  "tf_lexer_scan demo_keyword_lex 0 (demo_lexer 101 1 3 3 6 False 2) = Some (True, demo_lexer 35 3 6 3 6 False 2)"
  by (simp_all add: demo_scanning demo_advance lex_run_moves del: map_option_eq_Some)

lemma demo_keywords:
  "tf_lexer_keyword 3 (demo_token 1 1 2) (demo_lexer 32 1 2 1 2 False 3) =
     Some (demo_lexer 97 0 1 1 1 False 3, demo_token 1 1 2)"
  "tf_lexer_keyword 2 (demo_token 1 3 6) (demo_lexer 35 1 6 3 6 False 2) =
     Some (demo_lexer 35 3 6 3 6 True 2, demo_token 3 3 6)"
  by (simp_all add: tf_lexer_keyword_def Let_def demo_seek demo_scans demo_lookups
      del: map_option_eq_Some)

lemma demo_lexes:
  "tf_lexer_next 1 (demo_lexer 40 0 0 0 0 False 0) = Some (demo_lexer 97 2 1 0 1 False 1, Some (demo_token 2 0 1))"
  "tf_lexer_next 3 (demo_lexer 97 2 1 0 1 False 1) = Some (demo_lexer 32 0 2 1 1 False 3, Some (demo_token 1 1 2))"
  "tf_lexer_next 2 (demo_lexer 32 0 2 1 1 False 3) = Some (demo_lexer 35 3 6 3 6 True 2, Some (demo_token 3 3 6))"
  "tf_lexer_next 9 (demo_lexer 35 3 6 3 6 True 2) = Some (demo_lexer 0 4 7 6 7 False 9, Some (demo_token 4 6 7))"
  "tf_lexer_next 9 (demo_lexer 0 4 7 6 7 False 9) = Some (demo_lexer 0 0 7 7 7 False 9, Some (demo_token 0 7 7))"
  by (simp_all add: tf_lexer_next_def tf_lex_mode_def Let_def demo_scans demo_keywords demo_seek
      del: map_option_eq_Some)

section \<open>The run\<close>

lemma demo_acts:
  "tf_actions demo_lang 1 2 = [Shift 3 False False]" "tf_actions demo_lang 3 1 = [Shift 2 False False]"
  "tf_actions demo_lang 2 3 = [Reduce 1 6 0 0]" "tf_actions demo_lang 7 3 = [Shift 9 False False]"
  "tf_actions demo_lang 9 4 = [Shift 0 True False]" "tf_actions demo_lang 9 0 = [Reduce 3 6 0 1]"
  "tf_actions demo_lang 6 0 = [Reduce 1 7 0 0]" "tf_actions demo_lang 5 0 = [Reduce 1 5 0 0]"
  "tf_actions demo_lang 4 0 = [Accept]"
  by code_simp+

lemma demo_gotos:
  "tf_next_state demo_lang 3 6 = 7" "tf_next_state demo_lang 1 6 = 6"
  "tf_next_state demo_lang 1 7 = 5" "tf_next_state demo_lang 1 5 = 4"
  by code_simp+

text \<open>The cells of the stack, and the reductions the sink is told of.\<close>

definition demo_cell :: "TSSymbol \<Rightarrow> bool \<Rightarrow> u32 \<Rightarrow> u32 \<Rightarrow> 'v option \<Rightarrow> 'v TFNode" where
  "demo_cell symbol extra start end value =
     \<lparr>nd_symbol = symbol, nd_extra = extra, nd_start_byte = start, nd_end_byte = end,
      nd_start_point = at_column start, nd_end_point = at_column end, nd_value = value\<rparr>"

definition demo_reduction :: "TSSymbol \<Rightarrow> u16 \<Rightarrow> u32 \<Rightarrow> u32 \<Rightarrow> u32 \<Rightarrow> 'v TFNode list \<Rightarrow> 'v TFReduction" where
  "demo_reduction symbol production_id child_count start end kids =
     \<lparr>rd_symbol = symbol, rd_production_id = production_id, rd_child_count = child_count,
      rd_node_count = of_nat (length kids), rd_children = kids, rd_start_byte = start, rd_end_byte = end,
      rd_start_point = at_column start, rd_end_point = at_column end\<rparr>"

definition demo_parser ::
  "TFLexer \<Rightarrow> ('p, 'v) TFSink \<Rightarrow> 'p \<Rightarrow> TSStateId list \<Rightarrow> 'v TFNode list \<Rightarrow> bool \<Rightarrow> bool \<Rightarrow> ('p, 'v, 's) TFParser" where
  "demo_parser lexer sink p states nodes root want =
     \<lparr>ps_lang = demo_lang, ps_lexer = lexer, ps_sink = sink, ps_payload = p, ps_states = states, ps_nodes = nodes,
      ps_capacity = 64, ps_leading = 0, ps_root_emitted = root,
      ps_error = (if want then Some zero_error else None), ps_split_count = 0, ps_spec = None\<rparr>"

lemma demo_parser_sel [simp]:
  "ps_lang (demo_parser l sk p sts ns r w) = demo_lang" "ps_lexer (demo_parser l sk p sts ns r w) = l"
  "ps_sink (demo_parser l sk p sts ns r w) = sk" "ps_payload (demo_parser l sk p sts ns r w) = p"
  "ps_states (demo_parser l sk p sts ns r w) = sts" "ps_nodes (demo_parser l sk p sts ns r w) = ns"
  "ps_capacity (demo_parser l sk p sts ns r w) = 64" "ps_leading (demo_parser l sk p sts ns r w) = 0"
  "ps_root_emitted (demo_parser l sk p sts ns r w) = r"
  "ps_error (demo_parser l sk p sts ns r w) = (if w then Some zero_error else None)"
  "ps_depth (demo_parser l sk p sts ns r w) = length ns"
  "top_state (demo_parser l sk p sts ns r w) = sts ! length ns"
  "demo_parser l sk p sts ns r w\<lparr>ps_lexer := l'\<rparr> = demo_parser l' sk p sts ns r w"
  "demo_parser l sk p sts ns r w\<lparr>ps_payload := p'\<rparr> = demo_parser l sk p' sts ns r w"
  "demo_parser l sk p sts ns r w\<lparr>ps_states := sts'\<rparr> = demo_parser l sk p sts' ns r w"
  "demo_parser l sk p sts ns r w\<lparr>ps_nodes := ns', ps_states := sts'\<rparr> = demo_parser l sk p sts' ns' r w"
  "demo_parser l sk p sts ns r w\<lparr>ps_root_emitted := r', ps_payload := p'\<rparr> = demo_parser l sk p' sts ns r' w"
  by (simp_all add: demo_parser_def ps_depth_def top_state_def)

lemma demo_lex_step:
  "tf_lexer_next (sts ! length ns) l = Some (l', Some token') \<Longrightarrow>
     tf_parser_loop mem split (demo_parser l sk p sts ns r w, token, Lex) =
     tf_parser_loop mem split (demo_parser l' sk p sts ns r w, token', Dispatch (sts ! length ns))"
  by (simp add: tf_parser_loop.simps [of _ _ "(_, _, Lex)"] tf_parser_lex_def Let_def)

lemma demo_act_step:
  "tf_actions demo_lang state (tok_symbol token) = [action] \<Longrightarrow>
     tf_parser_act mem state token action (demo_parser l sk p sts ns r w) = x \<Longrightarrow>
     tf_parser_loop mem split (demo_parser l sk p sts ns r w, token, Dispatch state) = tf_parser_loop mem split x"
  by (simp add: tf_parser_loop.simps [of _ _ "(_, _, Dispatch _)"] tf_parser_dispatch_def)

lemma demo_shift_act:
  assumes "tf_parser_emit_shift sk p (demo_token sy s e) x = (p', v)" and "length ns < 8" and "\<not> (x \<and> ns = [])"
  shows "tf_parser_act mem state (demo_token sy s e) (Shift q x rep) (demo_parser l sk p sts ns r w) =
    (demo_parser l sk p' (sts @ [if x then state else q]) (ns @ [demo_cell sy x s e v]) r w, demo_token sy s e, Lex)"
proof -
  have "unat (1 + of_nat (length ns) :: u32) \<le> 8"
    using assms(2) by (simp add: unat_word_ariths unat_of_nat)
  then have "1 + of_nat (length ns) \<le> (64 :: u32)" by (simp add: word_le_nat_alt)
  moreover have "token_node (demo_token sy s e) x v = demo_cell sy x s e v"
    by (simp add: token_node_def demo_cell_def)
  moreover have cap: "unat (64 :: u32) = 64" by simp
  ultimately show ?thesis
    using assms(1,3) less_trans [OF assms(2), of 64]
    by (cases x) (simp_all add: tf_parser_act_def tf_parser_shift_def tf_parser_push_def tf_parser_grow_def
        after_op_def add.commute Let_def cap)
qed

lemma demo_grow: "needed \<le> 64 \<Longrightarrow> tf_parser_grow mem needed (demo_parser l sk p sts ns r w) = (demo_parser l sk p sts ns r w, True)"
  by (simp add: tf_parser_grow_def)

lemma demo_accepts [simp]:
  "accepts_end demo_lang ! 4 = True" "accepts_end demo_lang ! 5 = False"
  "accepts_end demo_lang ! 6 = False" "accepts_end demo_lang ! 7 = False"
  by (simp_all add: demo_lang_arrays)

lemmas demo_reducing =
  tf_parser_act_def tf_parser_reduce_def reduce_scan.simps span_reduction_def place_parent_def absorb_end_def
  root_reduction_def parent_node_def after_op_def demo_gotos demo_grow Let_def

lemma demo_reduce_acts:
  "tf_parser_emit_reduce sk p (demo_reduction 6 0 1 1 2 [demo_cell 1 False 1 2 v]) = (p', v') \<Longrightarrow>
   tf_parser_act mem 2 (demo_token 3 3 6) (Reduce 1 6 0 0)
     (demo_parser l sk p [1, 3, 2] [c, demo_cell 1 False 1 2 v] False w) =
     (demo_parser l sk p' [1, 3, 7] [c, demo_cell 6 False 1 2 v'] False w, demo_token 3 3 6, Dispatch 7)"

  "tf_parser_emit_reduce sk p (demo_reduction 6 1 3 0 6 [a, b, c]) = (p', v') \<Longrightarrow>
   a = demo_cell 2 False 0 1 va \<Longrightarrow> b = demo_cell 6 False 1 2 vb \<Longrightarrow> c = demo_cell 3 False 3 6 vc \<Longrightarrow>
   d = demo_cell 4 True 6 7 vd \<Longrightarrow>
   tf_parser_act mem 9 (demo_token 0 7 7) (Reduce 3 6 0 1)
     (demo_parser l sk p [1, 3, 7, 9, 9] [a, b, c, d] False w) =
     (demo_parser l sk p' [1, 6, 6] [demo_cell 6 False 0 6 v', d] False w, demo_token 0 7 7, Dispatch 6)"

  "tf_parser_emit_reduce sk p (demo_reduction 7 0 1 0 6 [demo_cell 6 False 0 6 v]) = (p', v') \<Longrightarrow>
   d = demo_cell 4 True 6 7 vd \<Longrightarrow>
   tf_parser_act mem 6 (demo_token 0 7 7) (Reduce 1 7 0 0)
     (demo_parser l sk p [1, 6, 6] [demo_cell 6 False 0 6 v, d] False w) =
     (demo_parser l sk p' [1, 5, 5] [demo_cell 7 False 0 6 v', d] False w, demo_token 0 7 7, Dispatch 5)"

  "tf_parser_emit_shift sk p (demo_token 0 7 7) True = (p1, v1) \<Longrightarrow>
   tf_parser_emit_reduce sk p1 (demo_reduction 5 0 1 0 7
     [demo_cell 7 False 0 6 v, d, demo_cell 0 True 7 7 v1]) = (p', v') \<Longrightarrow>
   d = demo_cell 4 True 6 7 vd \<Longrightarrow>
   tf_parser_act mem 5 (demo_token 0 7 7) (Reduce 1 5 0 0)
     (demo_parser l sk p [1, 5, 5] [demo_cell 7 False 0 6 v, d] False w) =
     (demo_parser l sk p' [1, 4, 4] [demo_cell 5 False 0 6 v', d] True w, demo_token 0 7 7, Dispatch 4)"
  by (simp_all add: demo_reducing token_node_def demo_reduction_def demo_cell_def)

text \<open>An allocator that grants up to a thousand cells at a time.\<close>

definition demo_mem :: allocator where
  "demo_mem = (\<lambda>_ n. n \<le> 1000)"

lemma demo_start:
  "tf_parser_run demo_mem split demo_lang demo_source 7 (Some sink) want p =
     map_option (\<lambda>(self, ended).
       (case ended of Failed \<Rightarrow> discard_values (ps_sink self) (ps_nodes self) (ps_payload self)
        | _ \<Rightarrow> ps_payload self, ps_error self, ended))
       (tf_parser_loop demo_mem split
         (demo_parser (demo_lexer 40 0 0 0 0 False 0) sink p [1] [] False want, zero_token, Lex))"
proof -
  have "grow_capacity 0 64 = 64" by (simp add: grow_capacity_def while_unfold)
  then show ?thesis
    by (simp add: tf_parser_run_def Let_def demo_lexer_init tf_parser_grow_def demo_parser_def demo_mem_def)
qed

lemma demo_accept_act:
  "ns \<noteq> [] \<Longrightarrow> tf_parser_act mem state token Accept (demo_parser l sk p sts ns True w) =
     (demo_parser l sk p sts ns True w, token, Done (Parsed (nd_value (ns ! 0))))"
  by (simp add: tf_parser_act_def)

text \<open>What a sink is told, in order, and the root's value.\<close>

definition demo_events :: "('p, 'v) TFSink \<Rightarrow> 'p \<Rightarrow> 'p \<times> 'v option" where
  "demo_events sink p =
    (let (p, a) = tf_parser_emit_shift sink p (demo_token 2 0 1) False;
         (p, b) = tf_parser_emit_shift sink p (demo_token 1 1 2) False;
         (p, c) = tf_parser_emit_reduce sink p (demo_reduction 6 0 1 1 2 [demo_cell 1 False 1 2 b]);
         (p, d) = tf_parser_emit_shift sink p (demo_token 3 3 6) False;
         (p, e) = tf_parser_emit_shift sink p (demo_token 4 6 7) True;
         (p, f) = tf_parser_emit_reduce sink p (demo_reduction 6 1 3 0 6
           [demo_cell 2 False 0 1 a, demo_cell 6 False 1 2 c, demo_cell 3 False 3 6 d]);
         (p, g) = tf_parser_emit_reduce sink p (demo_reduction 7 0 1 0 6 [demo_cell 6 False 0 6 f]);
         (p, h) = tf_parser_emit_shift sink p (demo_token 0 7 7) True
     in tf_parser_emit_reduce sink p (demo_reduction 5 0 1 0 7
           [demo_cell 7 False 0 6 g, demo_cell 4 True 6 7 e, demo_cell 0 True 7 7 h]))"

lemma demo_run:
  assumes "demo_events sink p = (p', v)"
  shows "tf_parser_run demo_mem split demo_lang demo_source 7 (Some sink) want p =
    Some (p', if want then Some zero_error else None, Parsed v)"
proof -
  obtain p1 a where 1: "tf_parser_emit_shift sink p (demo_token 2 0 1) False = (p1, a)" by fastforce
  obtain p2 b where 2: "tf_parser_emit_shift sink p1 (demo_token 1 1 2) False = (p2, b)" by fastforce
  obtain p3 c where 3: "tf_parser_emit_reduce sink p2 (demo_reduction 6 0 1 1 2 [demo_cell 1 False 1 2 b]) = (p3, c)"
    by fastforce
  obtain p4 d where 4: "tf_parser_emit_shift sink p3 (demo_token 3 3 6) False = (p4, d)" by fastforce
  obtain p5 e where 5: "tf_parser_emit_shift sink p4 (demo_token 4 6 7) True = (p5, e)" by fastforce
  obtain p6 f where 6: "tf_parser_emit_reduce sink p5 (demo_reduction 6 1 3 0 6
      [demo_cell 2 False 0 1 a, demo_cell 6 False 1 2 c, demo_cell 3 False 3 6 d]) = (p6, f)" by fastforce
  obtain p7 g where 7: "tf_parser_emit_reduce sink p6 (demo_reduction 7 0 1 0 6 [demo_cell 6 False 0 6 f]) = (p7, g)"
    by fastforce
  obtain p8 h where 8: "tf_parser_emit_shift sink p7 (demo_token 0 7 7) True = (p8, h)" by fastforce
  have 9: "tf_parser_emit_reduce sink p8 (demo_reduction 5 0 1 0 7
      [demo_cell 7 False 0 6 g, demo_cell 4 True 6 7 e, demo_cell 0 True 7 7 h]) = (p', v)"
    using assms by (simp add: demo_events_def 1 2 3 4 5 6 7 8)
  note acts = demo_reduce_acts(1) [OF 3] demo_reduce_acts(2) [OF 6 refl refl refl refl]
    demo_reduce_acts(3) [OF 7 refl] demo_reduce_acts(4) [OF 8 9 refl]
  have cells: "nd_value (demo_cell sy x s e u) = u" for sy x s e and u :: "'b option"
    by (simp add: demo_cell_def)
  show ?thesis
    by (simp add: demo_start demo_lex_step demo_lexes demo_act_step demo_acts acts demo_accept_act cells
        demo_shift_act [OF 1] demo_shift_act [OF 2] demo_shift_act [OF 4] demo_shift_act [OF 5]
        tf_parser_loop.simps [of _ _ "(_, _, Done _)"])
qed

end
