(* ===== verification/Parser_Safe.thy ===== *)
theory Parser_Safe
  imports Sink
begin

text \<open>
  Safety of the driver on tables that come from an LR construction without conflicts: the
  states on the stack are a path through the automaton, so that no reduction reaches below the
  bottom, every goto is defined, and the assertion on the root holds. The tables' part is a
  certificate that is checked by evaluation.
\<close>

section \<open>The certificate\<close>

definition all_states :: "TFLanguage \<Rightarrow> TSStateId list" where
  "all_states lang = map of_nat [0..<unat (state_count (ts lang))]"

definition all_tokens :: "TFLanguage \<Rightarrow> TSSymbol list" where
  "all_tokens lang = map of_nat [0..<unat (token_count (ts lang))]"

definition nonterminals :: "TFLanguage \<Rightarrow> TSSymbol list" where
  "nonterminals lang = map of_nat [unat (token_count (ts lang))..<unat (symbol_count (ts lang))]"

lemma in_all_states: "is_state lang q \<Longrightarrow> q \<in> set (all_states lang)"
  by (auto simp: all_states_def image_iff intro!: bexI [of _ "unat q"])

lemma in_all_tokens: "is_token lang t \<Longrightarrow> t \<in> set (all_tokens lang)"
  by (auto simp: all_tokens_def image_iff intro!: bexI [of _ "unat t"])

text \<open>The states one symbol leads to, and the way back.\<close>

definition shifts_of :: "TSParseAction list \<Rightarrow> TSStateId list" where
  "shifts_of actions = concat (map (\<lambda>a. case a of Shift s extra _ \<Rightarrow> if extra then [] else [s] | _ \<Rightarrow> []) actions)"

definition succs :: "TFLanguage \<Rightarrow> TSStateId \<Rightarrow> TSStateId list" where
  "succs lang q = concat (map (\<lambda>t. shifts_of (tf_actions lang q t)) (all_tokens lang)) @
     filter (\<lambda>s. s \<noteq> 0) (map (tf_next_state lang q) (nonterminals lang))"

definition preds :: "TFLanguage \<Rightarrow> TSStateId \<Rightarrow> TSStateId list" where
  "preds lang q = filter (\<lambda>p. q \<in> set (succs lang p)) (all_states lang)"

text \<open>\<open>P\<close> holds of every state \<open>n\<close> symbols back, and none of the ways back ends early.\<close>

fun back_all :: "TFLanguage \<Rightarrow> (TSStateId \<Rightarrow> bool) \<Rightarrow> nat \<Rightarrow> TSStateId \<Rightarrow> bool" where
  "back_all lang P 0 q = P q"
| "back_all lang P (Suc n) q = (q \<noteq> 1 \<and> list_all (back_all lang P n) (preds lang q))"

lemma back_all_numeral:
  "back_all lang P (numeral k) q = (q \<noteq> 1 \<and> list_all (back_all lang P (pred_numeral k)) (preds lang q))"
  by (simp add: numeral_eq_Suc)

definition lr_action :: "TFLanguage \<Rightarrow> TSStateId \<Rightarrow> TSSymbol \<Rightarrow> TSParseAction \<Rightarrow> bool" where
  "lr_action lang q t a =
     (case a of
        Shift s extra _ \<Rightarrow> extra \<or> s \<noteq> 0 \<and> \<not> accepts_end lang ! unat s
      | Reduce n symbol _ _ \<Rightarrow> symbol \<in> set (nonterminals lang) \<and>
          back_all lang (\<lambda>p. tf_next_state lang p symbol \<noteq> 0) (unat n) q \<and>
          (accepts_end lang ! unat (tf_next_state lang 1 symbol) \<longrightarrow> t = 0)
      | Accept \<Rightarrow> t = 0 \<and> accepts_end lang ! unat q
      | Recover \<Rightarrow> True)"

definition lr_state :: "TFLanguage \<Rightarrow> TSStateId \<Rightarrow> bool" where
  "lr_state lang q \<longleftrightarrow>
     1 \<notin> set (succs lang q) \<and> (q \<noteq> 1 \<longrightarrow> list_all (\<lambda>s. \<not> accepts_end lang ! unat s) (succs lang q)) \<and>
     (q \<noteq> 0 \<longrightarrow> list_ex (\<lambda>t. tf_actions lang q t \<noteq> []) (all_tokens lang)) \<and>
     list_all (\<lambda>t. list_all (lr_action lang q t) (tf_actions lang q t)) (all_tokens lang)"

definition lr_tables :: "TFLanguage \<Rightarrow> bool" where
  "lr_tables lang \<longleftrightarrow> \<not> accepts_end lang ! 1 \<and> list_all (lr_state lang) (all_states lang)"

definition conflict_free :: "TFLanguage \<Rightarrow> bool" where
  "conflict_free lang \<longleftrightarrow>
     list_all (\<lambda>q. list_all (\<lambda>t. length (tf_actions lang q t) \<le> 1) (all_tokens lang)) (all_states lang)"

lemma lr_tables_state: "lr_tables lang \<Longrightarrow> is_state lang q \<Longrightarrow> lr_state lang q"
  by (auto simp: lr_tables_def list_all_iff dest: in_all_states)

lemma lr_tables_action:
  "lr_tables lang \<Longrightarrow> is_state lang q \<Longrightarrow> is_token lang t \<Longrightarrow> a \<in> set (tf_actions lang q t) \<Longrightarrow> lr_action lang q t a"
  by (drule (1) lr_tables_state) (auto simp: lr_state_def list_all_iff dest: in_all_tokens)

lemma conflict_free_actions:
  "conflict_free lang \<Longrightarrow> is_state lang q \<Longrightarrow> is_token lang t \<Longrightarrow> length (tf_actions lang q t) \<le> 1"
  by (auto simp: conflict_free_def list_all_iff dest: in_all_states in_all_tokens)

lemma shifts_of_iff: "s \<in> set (shifts_of actions) \<longleftrightarrow> (\<exists>r. Shift s False r \<in> set actions)"
proof (induction actions)
  case (Cons a actions)
  then show ?case by (cases a) (auto simp: shifts_of_def)
qed (simp add: shifts_of_def)

lemma succs_shift: "is_token lang t \<Longrightarrow> Shift s False r \<in> set (tf_actions lang q t) \<Longrightarrow> s \<in> set (succs lang q)"
  by (auto simp: succs_def shifts_of_iff dest: in_all_tokens)

lemma succs_goto:
  "a \<in> set (nonterminals lang) \<Longrightarrow> tf_next_state lang q a \<noteq> 0 \<Longrightarrow> tf_next_state lang q a \<in> set (succs lang q)"
  by (simp add: succs_def)

lemma preds_succs: "s \<in> set (succs lang q) \<Longrightarrow> is_state lang q \<Longrightarrow> q \<in> set (preds lang s)"
  by (simp add: preds_def in_all_states)

section \<open>Paths\<close>

text \<open>The states of a stack follow the cells: an extra stays where it is.\<close>

definition linked :: "TFLanguage \<Rightarrow> 'v TFNode list \<Rightarrow> TSStateId list \<Rightarrow> bool" where
  "linked lang nodes qs \<longleftrightarrow>
     length qs = Suc (length nodes) \<and> qs ! 0 = 1 \<and>
     (\<forall>i < length nodes. if nd_extra (nodes ! i) then qs ! Suc i = qs ! i else qs ! Suc i \<in> set (succs lang (qs ! i)))"

lemma linked_snoc:
  assumes "length qs = Suc (length nodes)"
  shows "linked lang (nodes @ [n]) (qs @ [q]) \<longleftrightarrow>
     linked lang nodes qs \<and> (if nd_extra n then q = last qs else q \<in> set (succs lang (last qs)))"
proof -
  have "qs \<noteq> []" using assms by auto
  then have "last qs = qs ! length nodes" using assms by (simp add: last_conv_nth)
  then show ?thesis
    using assms by (simp add: linked_def All_less_Suc nth_append cong: if_cong) (auto split: if_splits)
qed

lemma linked_last: "linked lang nodes qs \<Longrightarrow> last qs = qs ! length nodes"
  by (cases "qs = []") (auto simp: linked_def last_conv_nth)

lemma linked_take:
  "linked lang (below @ upper) qs \<Longrightarrow> linked lang below (take (Suc (length below)) qs)"
  by (auto simp: linked_def nth_append)

lemma linked_extras:
  "linked lang nodes qs \<Longrightarrow> list_all nd_extra extras \<Longrightarrow> linked lang (nodes @ extras) (qs @ replicate (length extras) (last qs))"
proof (induction extras rule: rev_induct)
  case (snoc x extras)
  let ?qs = "qs @ replicate (length extras) (last qs)"
  have "last ?qs = last qs" by (cases "length extras") simp_all
  moreover have "length ?qs = Suc (length (nodes @ extras))" using snoc(2) by (simp add: linked_def)
  ultimately show ?case
    using snoc linked_snoc [of ?qs "nodes @ extras" lang x "last qs"]
    by (simp flip: replicate_append_same)
qed simp

text \<open>Going back over a run of cells.\<close>

lemma linked_induct [consumes 1, case_names start extra edge]:
  assumes "linked lang nodes qs"
    and "P [] [1]"
    and "\<And>nodes qs n. linked lang nodes qs \<Longrightarrow> P nodes qs \<Longrightarrow> nd_extra n \<Longrightarrow> P (nodes @ [n]) (qs @ [last qs])"
    and "\<And>nodes qs n q. linked lang nodes qs \<Longrightarrow> P nodes qs \<Longrightarrow> \<not> nd_extra n \<Longrightarrow>
      q \<in> set (succs lang (last qs)) \<Longrightarrow> P (nodes @ [n]) (qs @ [q])"
  shows "P nodes qs"
  using assms(1)
proof (induction nodes arbitrary: qs rule: rev_induct)
  case Nil
  then have "qs = [1]" by (cases qs) (auto simp: linked_def)
  then show ?case using assms(2) by simp
next
  case (snoc n nodes)
  obtain qs' q where qs: "qs = qs' @ [q]" using snoc(2) by (cases qs rule: rev_cases) (auto simp: linked_def)
  have "length qs' = Suc (length nodes)" using snoc(2) by (simp add: linked_def qs)
  note split = linked_snoc [OF this, of lang n q]
  show ?case
    using snoc(2) snoc(1) [of qs'] assms(3) [of nodes qs' n] assms(4) [of nodes qs' n q]
    unfolding qs split by (auto split: if_splits)
qed

lemma back_structural:
  assumes "linked lang nodes qs" and "list_all (is_state lang) qs" and "back_all lang P n (last qs)"
  shows "n \<le> structural nodes"
  using assms
proof (induction arbitrary: n rule: linked_induct)
  case start
  then show ?case by (cases n) auto
next
  case (extra nodes qs x)
  then show ?case by simp
next
  case (edge nodes qs x q)
  show ?case
  proof (cases n)
    case (Suc m)
    have "qs \<noteq> []" using edge(1) by (auto simp: linked_def)
    then have "is_state lang (last qs)" using edge(5) by (auto simp: list_all_iff)
    then have "back_all lang P m (last qs)"
      using edge(6) Suc preds_succs [OF edge(3)] by (auto simp: list_all_iff)
    then show ?thesis using edge(4) [of m] edge(2,5) Suc by simp
  qed simp
qed

lemma back_below:
  assumes "linked lang (below @ upper) qs" and "list_all (is_state lang) qs"
    and "back_all lang P (structural upper) (last qs)"
  shows "P (qs ! length below)"
  using assms
proof (induction upper arbitrary: qs rule: rev_induct)
  case Nil
  then show ?case using linked_last [of lang below qs] by simp
next
  case (snoc x upper)
  obtain qs' q where qs: "qs = qs' @ [q]" using snoc(2) by (cases qs rule: rev_cases) (auto simp: linked_def)
  have len: "length qs' = Suc (length (below @ upper))" using snoc(2) by (simp add: linked_def qs)
  have split: "linked lang (below @ upper) qs' \<and> (if nd_extra x then q = last qs' else q \<in> set (succs lang (last qs')))"
    using snoc(2) linked_snoc [OF len, of lang x q] by (simp add: qs)
  have "qs' \<noteq> []" using len by auto
  then have state: "is_state lang (last qs')" using snoc(3) qs by (auto simp: list_all_iff)
  have "back_all lang P (structural upper) (last qs')"
    using snoc(4) split preds_succs [OF _ state, of q] by (auto simp: qs list_all_iff split: if_splits)
  then have "P (qs' ! length below)" using snoc(1) [of qs'] split snoc(3) qs by simp
  then show ?case using len by (simp add: qs nth_append)
qed

text \<open>The start state is only under extras, and an accepting state is only above it.\<close>

lemma linked_one:
  assumes "linked lang nodes qs" and "lr_tables lang" and "list_all (is_state lang) qs"
    and "i \<le> length nodes" and "qs ! i = 1"
  shows "list_all nd_extra (take i nodes)"
  using assms
proof (induction arbitrary: i rule: linked_induct)
  case start
  then show ?case by simp
next
  case (extra nodes qs x)
  have len: "length qs = Suc (length nodes)" using extra(1) by (simp add: linked_def)
  show ?case
  proof (cases "i = Suc (length nodes)")
    case True
    then have "qs ! length nodes = 1"
      using extra(7) len linked_last [OF extra(1)] by (simp add: nth_append)
    then show ?thesis using extra(3) [of "length nodes"] extra(2,4,5) True by simp
  next
    case False
    then show ?thesis using extra(3) [of i] extra(4-7) len by (simp add: nth_append)
  qed
next
  case (edge nodes qs x q)
  have len: "length qs = Suc (length nodes)" using edge(1) by (simp add: linked_def)
  have "qs \<noteq> []" using len by auto
  then have "is_state lang (last qs)" using edge(6) by (auto simp: list_all_iff)
  then have "q \<noteq> 1" using lr_tables_state [OF edge(5)] edge(3) by (auto simp: lr_state_def)
  then show ?case using edge(4) [of i] edge(5-8) len by (cases "i = Suc (length nodes)") (auto simp: nth_append)
qed

section \<open>Capacity\<close>

text \<open>
  An allocator that does not grant \<^verbatim>\<open>UINT32_MAX\<close> cells, some 200 GB: the capacity stays below that,
  and the depth never wraps.
\<close>

definition bounded :: "allocator \<Rightarrow> bool" where
  "bounded mem \<longleftrightarrow> \<not> mem A_parser_nodes (unat UINT32_MAX)"

lemma grow_bounded:
  assumes "tf_parser_grow mem needed self = (self', ok)" and "bounded mem" and "ps_capacity self \<noteq> UINT32_MAX"
  shows "ps_capacity self' \<noteq> UINT32_MAX"
proof (cases "needed \<le> ps_capacity self \<or> \<not> ok")
  case True
  then show ?thesis using assms(1,3) by (auto simp: tf_parser_grow_def Let_def split: if_split_asm)
next
  case False
  define c :: u64 where "c = (let g = grow_capacity (ps_capacity self) needed
     in if g > ucast UINT32_MAX then ucast UINT32_MAX else g)"
  have self': "self' = self\<lparr>ps_capacity := ucast c\<rparr>" and granted: "mem A_parser_nodes (unat c)"
    using assms(1) False by (auto simp: tf_parser_grow_def Let_def c_def split: if_split_asm)
  have "c \<le> ucast UINT32_MAX" by (simp add: c_def Let_def not_less)
  then have small: "unat c \<le> unat UINT32_MAX" by (simp add: word_le_nat_alt)
  have "unat (ucast c :: u32) = unat c"
    using small by (simp add: unsigned_ucast_eq take_bit_nat_eq_self)
  then show ?thesis using granted assms(2) self' by (auto simp: bounded_def)
qed

definition cap_ok :: "('p, 'v, 's) TFParser \<Rightarrow> bool" where
  "cap_ok self \<longleftrightarrow> length (ps_nodes self) \<le> unat (ps_capacity self) \<and> ps_capacity self \<noteq> UINT32_MAX"

lemma cap_ok_depth: "cap_ok self \<Longrightarrow> unat (of_nat (Suc (length (ps_nodes self))) :: u32) = Suc (length (ps_nodes self))"
proof -
  assume cap: "cap_ok self"
  have "unat (ps_capacity self) \<noteq> unat UINT32_MAX"
    using cap unsigned_word_eqI [where 'a = nat, of "ps_capacity self" UINT32_MAX] by (auto simp only: cap_ok_def)
  moreover have "unat UINT32_MAX = 4294967295" by simp
  ultimately have "unat (ps_capacity self) < unat UINT32_MAX"
    using unat_u32_less [of "ps_capacity self"] by linarith
  then have "length (ps_nodes self) < unat UINT32_MAX" using cap by (simp add: cap_ok_def)
  then show ?thesis by (simp only: unat_of_nat) simp
qed

lemma push_bounded:
  assumes "tf_parser_push mem node state self = (self', e)" and "bounded mem" and "ps_capacity self \<noteq> UINT32_MAX"
  shows "ps_capacity self' \<noteq> UINT32_MAX"
proof (cases "tf_parser_grow mem (of_nat (ps_depth self) + 1) self")
  case (Pair s ok)
  then have "self' = s \<or> self' = s\<lparr>ps_nodes := ps_nodes s @ [node], ps_states := ps_states s @ [state]\<rparr>"
    using assms(1) by (auto simp: tf_parser_push_def split: if_split_asm)
  then show ?thesis using grow_bounded [OF Pair assms(2,3)] by auto
qed

lemma shift_bounded:
  assumes "tf_parser_shift mem token extra state self = (self', e)" and "bounded mem" and "ps_capacity self \<noteq> UINT32_MAX"
  shows "ps_capacity self' \<noteq> UINT32_MAX"
proof -
  obtain p v where "tf_parser_emit_shift (ps_sink self) (ps_payload self) token extra = (p, v)" by fastforce
  then obtain s where push: "tf_parser_push mem (token_node token extra v) state s = (self', e)"
    and s: "ps_capacity s = ps_capacity self"
    using assms(1) by (auto simp: tf_parser_shift_def Let_def split: if_split_asm)
  then show ?thesis using push_bounded [OF push assms(2)] assms(3) by simp
qed

lemma place_parent_bounded:
  assumes "place_parent mem base end state parent self = (self', e)" and "bounded mem" and "ps_capacity self \<noteq> UINT32_MAX"
  shows "ps_capacity self' \<noteq> UINT32_MAX"
proof (cases "tf_parser_grow mem (of_nat (base + 1 + (ps_depth self - end))) self")
  case (Pair s ok)
  then have "ps_capacity self' = ps_capacity s"
    using assms(1) unfolding place_parent_def Let_def by (auto split: if_split_asm)
  then show ?thesis using grow_bounded [OF Pair assms(2,3)] by simp
qed

lemma absorb_end_bounded:
  assumes "absorb_end mem token rd self = (self', rd', e)" and "bounded mem" and "ps_capacity self \<noteq> UINT32_MAX"
  shows "ps_capacity self' \<noteq> UINT32_MAX"
proof (cases "tf_parser_grow mem (of_nat (ps_depth self) + 1) self")
  case (Pair s ok)
  then have "ps_capacity self' = ps_capacity s"
    using assms(1) unfolding absorb_end_def Let_def by (auto split: if_split_asm prod.split_asm)
  then show ?thesis using grow_bounded [OF Pair assms(2,3)] by simp
qed

text \<open>An operation within the capacity does not fault.\<close>

lemma shift_no_fault:
  assumes "tf_parser_shift mem token extra state self = (self', e)" and "cap_ok self"
  shows "e \<noteq> Op_Fault f"
proof -
  obtain p v where "tf_parser_emit_shift (ps_sink self) (ps_payload self) token extra = (p, v)" by fastforce
  then obtain s where push: "tf_parser_push mem (token_node token extra v) state s = (self', e)"
    and s: "ps_nodes s = ps_nodes self"
    using assms(1) by (auto simp: tf_parser_shift_def Let_def split: if_split_asm)
  obtain c ok where grow: "tf_parser_grow mem (of_nat (ps_depth s) + 1) s = (s\<lparr>ps_capacity := c\<rparr>, ok)"
    and ok: "ok \<Longrightarrow> of_nat (ps_depth s) + 1 \<le> c"
    using grow_cases [of mem "of_nat (ps_depth s) + 1" s] by blast
  have "of_nat (ps_depth s) + 1 = (of_nat (Suc (length (ps_nodes self))) :: u32)"
    by (simp add: ps_depth_def s add.commute)
  then have "ok \<Longrightarrow> length (ps_nodes self) < unat c"
    using ok cap_ok_depth [OF assms(2)] by (simp add: word_le_nat_alt add.commute)
  then show ?thesis
    using push unfolding tf_parser_push_def grow by (auto simp: ps_depth_def s split: if_split_asm)
qed

lemma reduce_no_fault:
  assumes red: "tf_parser_reduce mem symbol child_count production_id lookahead self = (self', e)"
    and cap: "cap_ok self" and "unat child_count \<le> structural (ps_nodes self)"
  shows "e \<noteq> Op_Fault f" and "bounded mem \<Longrightarrow> ps_capacity self' \<noteq> UINT32_MAX"
proof -
  obtain popped trailing where scan: "reduce_scan (ps_nodes self) (unat child_count) 0 0 0 = Some (popped, trailing)"
    using reduce_scan_None [of "ps_nodes self" "unat child_count"] assms(3) by fastforce
  obtain below kids trail where split: "reduce_split (unat child_count) (ps_nodes self) below kids trail"
    and len: "popped = length kids + length trail" "trailing = length trail"
    using reduce_scan_Some [OF scan] .
  have nodes: "ps_nodes self = below @ kids @ trail" using split by (simp add: reduce_split_def)
  define state where "state = goto_state symbol (length below) self"
  define rd where "rd = reduction_over symbol production_id child_count below kids"
  define root where "root = root_due lookahead (length below) state self"
  note red = red [unfolded reduce_unfold [OF split scan [unfolded len]], folded state_def rd_def, folded root_def]
  have fits: "length below + 1 + length trail \<le> Suc (length (ps_nodes self))"
    by (simp add: nodes)
  have needed: "unat (of_nat n :: u32) = n" if "n \<le> Suc (length (ps_nodes self))" for n
    using that cap_ok_depth [OF cap] by (metis unat_of_nat mod_less_eq_dividend mod_less le_less_trans unsigned_less)
  have place: "e' \<noteq> Op_Fault f'" if "place_parent mem (length below) (length below + length kids) state node s = (s', e')"
    and "ps_nodes s = ps_nodes self" for node s s' e' f'
  proof -
    have tc: "ps_depth s - (length below + length kids) = length trail" using that(2) by (simp add: ps_depth_def nodes)
    obtain c ok where grow: "tf_parser_grow mem (of_nat (length below + 1 + length trail)) s = (s\<lparr>ps_capacity := c\<rparr>, ok)"
      and ok: "ok \<Longrightarrow> of_nat (length below + 1 + length trail) \<le> c"
      using grow_cases [of mem "of_nat (length below + 1 + length trail)" s] by blast
    have "ok \<Longrightarrow> length below + 1 + length trail \<le> unat c"
      using ok needed [OF fits] by (simp only: word_le_nat_alt)
    then show ?thesis
      using that(1) unfolding place_parent_def Let_def tc grow prod.case by (auto split: if_split_asm)
  qed
  obtain s1 rd1 e1 where one: "(if root then absorb_end mem (the lookahead) rd self else (self, rd, Op_Ok)) = (s1, rd1, e1)"
    by (metis prod_cases3)
  have e1: "e1 \<noteq> Op_Fault f'" "ps_nodes s1 = ps_nodes self" "bounded mem \<Longrightarrow> ps_capacity s1 \<noteq> UINT32_MAX" for f'
  proof -
    have "e1 \<noteq> Op_Fault f' \<and> ps_nodes s1 = ps_nodes self \<and> (bounded mem \<longrightarrow> ps_capacity s1 \<noteq> UINT32_MAX)"
    proof (cases root)
      case True
      then have ab: "absorb_end mem (the lookahead) rd self = (s1, rd1, e1)" using one by simp
      obtain c ok where grow: "tf_parser_grow mem (of_nat (ps_depth self) + 1) self = (self\<lparr>ps_capacity := c\<rparr>, ok)"
        and ok: "ok \<Longrightarrow> of_nat (ps_depth self) + 1 \<le> c"
        using grow_cases [of mem "of_nat (ps_depth self) + 1" self] by blast
      have "of_nat (ps_depth self) + 1 = (of_nat (Suc (length (ps_nodes self))) :: u32)"
        by (simp add: ps_depth_def add.commute)
      then have "ok \<Longrightarrow> length (ps_nodes self) < unat c"
        using ok cap_ok_depth [OF cap] by (simp add: word_le_nat_alt add.commute)
      then show ?thesis
        using ab cap absorb_end_bounded [OF ab] unfolding absorb_end_def grow
        by (auto simp: ps_depth_def cap_ok_def split: if_split_asm prod.split_asm)
    next
      case False
      then show ?thesis using one cap by (auto simp: cap_ok_def)
    qed
    then show "e1 \<noteq> Op_Fault f'" "ps_nodes s1 = ps_nodes self" "bounded mem \<Longrightarrow> ps_capacity s1 \<noteq> UINT32_MAX" by auto
  qed
  obtain p v where pv: "tf_parser_emit_reduce (ps_sink s1) (ps_payload s1) rd1 = (p, v)" by fastforce
  have res: "if e1 \<noteq> Op_Ok then (s1, e1) = (self', e)
     else place_parent mem (length below) (length below + length kids) state (parent_node rd v) (s1\<lparr>ps_payload := p\<rparr>) = (self', e)"
    using red unfolding one by (cases "e1 = Op_Ok") (simp_all add: pv)
  show "e \<noteq> Op_Fault f"
    using res e1(1,2) place [of "parent_node rd v" "s1\<lparr>ps_payload := p\<rparr>" self' e] by (auto split: if_splits)
  show "ps_capacity self' \<noteq> UINT32_MAX" if "bounded mem"
    using res e1(3) [OF that] place_parent_bounded [of mem _ _ _ _ "s1\<lparr>ps_payload := p\<rparr>" self' e, OF _ that]
    by (auto split: if_splits)
qed

section \<open>The invariant\<close>

definition safe_stack :: "TFLanguage \<Rightarrow> ('p, 'v, 's) TFParser \<Rightarrow> bool" where
  "safe_stack lang self \<longleftrightarrow>
     linked lang (ps_nodes self) (ps_states self) \<and> cap_ok self \<and>
     (\<not> ps_root_emitted self \<longrightarrow> list_all (\<lambda>s. \<not> accepts_end lang ! unat s) (ps_states self))"

lemma safe_top: "safe_stack lang self \<Longrightarrow> top_state self = last (ps_states self)"
  using linked_last [of lang "ps_nodes self" "ps_states self"] by (simp add: safe_stack_def top_state_def ps_depth_def)

text \<open>The top state is never the error state, which has no actions.\<close>

lemma linked_top:
  assumes "linked lang nodes qs" and "lr_tables lang" and "list_all (is_state lang) qs"
  shows "last qs \<noteq> 0"
  using assms
proof (induction rule: linked_induct)
  case (edge nodes qs x q)
  have "qs \<noteq> []" using edge(1) by (auto simp: linked_def)
  then have state: "is_state lang (last qs)" using edge(6) by (auto simp: list_all_iff)
  have "s \<noteq> 0" if shift: "s \<in> set (shifts_of (tf_actions lang (last qs) t))" and t: "t \<in> set (all_tokens lang)" for s t
  proof -
    obtain r where "Shift s False r \<in> set (tf_actions lang (last qs) t)"
      using shift by (auto simp: shifts_of_iff)
    then have "lr_action lang (last qs) t (Shift s False r)"
      using lr_tables_state [OF edge(5) state] t by (auto simp: lr_state_def list_all_iff)
    then show ?thesis by (simp add: lr_action_def)
  qed
  then show ?case using edge(3) by (auto simp: succs_def)
qed simp_all

lemma safe_shift:
  assumes shift: "tf_parser_shift mem token extra (if extra then top_state self else s) self = (self', Op_Ok)"
    and safe: "safe_stack lang self" and "lr_tables lang" and "stack_wf self" and "ps_lang self = lang"
    and act: "Shift s extra r \<in> set (tf_actions lang (top_state self) t)" and t: "is_token lang t"
    and "bounded mem"
  shows "safe_stack lang self'"
  using shift
proof (cases rule: shift_Ok)
  case (1 p v c)
  have q: "is_state lang (top_state self)" using stack_wf_top [OF assms(4)] assms(5) by simp
  have len: "length (ps_states self) = Suc (length (ps_nodes self))" using assms(4) by (simp add: stack_wf_def)
  have "ps_states self \<noteq> []" using len by auto
  then have top: "top_state self \<in> set (ps_states self)" using safe_top [OF safe] by simp
  have "linked lang (ps_nodes self') (ps_states self')"
    using safe act linked_snoc [OF len] succs_shift [OF t] safe_top [OF safe]
    by (cases extra) (auto simp: safe_stack_def 1(2) token_node_def)
  moreover have "cap_ok self'"
    using shift_bounded [OF shift assms(8)] safe 1(3) by (simp add: safe_stack_def cap_ok_def) (simp add: 1(2) ps_depth_def)
  moreover have "list_all (\<lambda>s. \<not> accepts_end lang ! unat s) (ps_states self')" if "\<not> ps_root_emitted self'"
    using that safe lr_tables_action [OF assms(3) q t act] top
    by (auto simp: safe_stack_def 1(2) lr_action_def list_all_iff)
  ultimately show ?thesis by (simp add: safe_stack_def)
qed

lemma safe_reduce:
  assumes red: "tf_parser_reduce mem symbol (ucast n) production_id (Some token) self = (self', e)"
    and safe: "safe_stack lang self" and lr: "lr_tables lang" and wf: "stack_wf self" and lang: "ps_lang self = lang"
    and act: "Reduce n symbol dyn production_id \<in> set (tf_actions lang (top_state self) (tok_symbol token))"
    and t: "is_token lang (tok_symbol token)" and "bounded mem"
  shows "e \<noteq> Op_Fault f" and "e = Op_Ok \<Longrightarrow> safe_stack lang self'"
proof -
  have q: "is_state lang (top_state self)" using stack_wf_top [OF wf] lang by simp
  have states: "list_all (is_state lang) (ps_states self)" using wf lang by (simp add: stack_wf_def)
  have linked: "linked lang (ps_nodes self) (ps_states self)" and cap: "cap_ok self"
    using safe by (simp_all add: safe_stack_def)
  note ok = lr_tables_action [OF lr q t act, unfolded lr_action_def TSParseAction.case]
  have n: "unat (ucast n :: u32) = unat n" by simp
  have enough: "unat n \<le> structural (ps_nodes self)"
    using back_structural [OF linked states, of _ "unat n"] ok safe_top [OF safe] by auto
  show "e \<noteq> Op_Fault f"
    by (rule reduce_no_fault(1) [OF red cap]) (simp only: n enough)
  show "safe_stack lang self'" if e: "e = Op_Ok"
    using red [unfolded e]
  proof (cases rule: reduce_Ok)
    case (1 below kids trail p v c)
    let ?below = "ps_states self ! length below" and ?goto = "goto_state symbol (length below) self"
    have nodes: "ps_nodes self = below @ kids @ trail" and trail: "list_all nd_extra trail"
      and kids: "structural kids = unat n"
      using 1(1) by (simp_all add: reduce_split_def)
    have "structural trail = 0" using trail by (induction trail) auto
    then have goto0: "tf_next_state lang ?below symbol \<noteq> 0"
      using back_below [of lang below "kids @ trail" "ps_states self"] linked states ok safe_top [OF safe] kids
      by (auto simp: nodes)
    have below: "is_state lang ?below"
      using states nodes wf by (simp add: list_all_length stack_wf_def)
    have goto: "?goto \<in> set (succs lang ?below)"
      using succs_goto [OF _ goto0] ok lang by (simp add: goto_state_def)
    have len: "length (take (length below + 1) (ps_states self)) = Suc (length below)"
      using wf nodes by (simp add: stack_wf_def)
    have last: "last (take (length below + 1) (ps_states self)) = ?below"
      using wf nodes by (simp add: stack_wf_def take_Suc_conv_app_nth)
    let ?parent = "parent_node (reduction_over symbol production_id (ucast n) below kids) v"
    have "linked lang (below @ [?parent]) (take (length below + 1) (ps_states self) @ [?goto])"
      using linked_snoc [OF len, of lang ?parent ?goto] linked_take [of lang below "kids @ trail" "ps_states self"]
        linked goto last by (simp add: nodes parent_node_def)
    from linked_extras [OF this trail] have "linked lang (ps_nodes self') (ps_states self')"
      by (simp add: 1(3))
    moreover have "cap_ok self'"
      using reduce_no_fault(2) [OF red cap _ assms(8)] 1(4) enough n
      by (simp add: cap_ok_def) (simp add: 1(3))
    moreover have "list_all (\<lambda>s. \<not> accepts_end lang ! unat s) (ps_states self')" if quiet: "\<not> ps_root_emitted self'"
    proof -
      have old: "list_all (\<lambda>s. \<not> accepts_end lang ! unat s) (ps_states self)"
        using quiet safe by (simp add: 1(3) safe_stack_def)
      have "\<not> accepts_end lang ! unat ?goto"
      proof
        assume acc: "accepts_end lang ! unat ?goto"
        then have "?below = 1"
          using lr_tables_state [OF lr below] goto by (auto simp: lr_state_def list_all_iff)
        then have "tok_symbol token = 0" and "list_all nd_extra below"
          using acc ok lang linked_one [OF linked lr states, of "length below"]
          by (simp_all add: goto_state_def nodes)
        moreover have "length below \<le> ps_leading self"
        proof (rule ccontr)
          assume "\<not> length below \<le> ps_leading self"
          then have "ps_leading self < length (ps_nodes self)" "ps_leading self < length below" by (simp_all add: nodes)
          then have "\<not> nd_extra (below ! ps_leading self)" using wf by (simp add: stack_wf_def nodes nth_append)
          then show False using \<open>list_all nd_extra below\<close> \<open>ps_leading self < length below\<close> by (simp add: list_all_length)
        qed
        ultimately have "root_due (Some token) (length below) ?goto self"
          using reduce_split_leading [OF 1(1) wf] acc lang by (simp add: root_due_def)
        then show False using quiet by (simp add: 1(3))
      qed
      then show ?thesis
        using old by (auto simp: 1(3) list_all_iff dest: in_set_takeD)
    qed
    ultimately show ?thesis by (simp add: safe_stack_def)
  qed
qed

section \<open>The loop\<close>

lemma expected_loop_Some:
  "out \<noteq> None \<or> (\<exists>t \<in> set symbols. tf_actions lang state (of_nat t) \<noteq> []) \<Longrightarrow>
     expected_loop lang state sz symbols used found out \<noteq> None"
  by (induction lang state sz symbols used found out rule: expected_loop.induct) (auto simp: Let_def)

lemma describe_expected_Some:
  "t \<in> set (all_tokens lang) \<Longrightarrow> tf_actions lang state t \<noteq> [] \<Longrightarrow> tf_parser_describe_expected lang state sz \<noteq> None"
  unfolding tf_parser_describe_expected_def all_tokens_def
  by (rule expected_loop_Some) auto

lemma unexpected_no_fault:
  assumes "unexpected state token self = (self', token', control)" and "ps_lang self = lang"
    and "lr_tables lang" and "is_state lang state" and "state \<noteq> 0"
  shows "control = Done Failed"
proof -
  obtain t where "t \<in> set (all_tokens lang)" "tf_actions lang state t \<noteq> []"
    using lr_tables_state [OF assms(3,4)] assms(5) by (auto simp: lr_state_def list_ex_iff)
  from describe_expected_Some [OF this, of "TF_ERROR_MESSAGE_SIZE div 2"] show ?thesis
    using assms(1,2)
    by (auto simp: unexpected_def tf_parser_fail_unexpected_def split: prod.split_asm option.split_asm)
qed

definition safe_inv :: "TFLanguage \<Rightarrow> ('p, 'v, 's) TFParser \<times> TFToken \<times> 'v control \<Rightarrow> bool" where
  "safe_inv lang = (\<lambda>(self, token, control).
     case control of
       Lex \<Rightarrow> safe_stack lang self
     | Dispatch _ \<Rightarrow> safe_stack lang self
     | Done (Fault f) \<Rightarrow> False
     | _ \<Rightarrow> True)"

lemma safe_other [simp]:
  "safe_stack lang (self\<lparr>ps_lexer := l\<rparr>) = safe_stack lang self"
  by (simp add: safe_stack_def cap_ok_def)

lemma safe_lex:
  assumes "tf_parser_lex token self = Some x" and "safe_stack lang self"
  shows "safe_inv lang x"
proof -
  obtain l r where "tf_lexer_next (top_state self) (ps_lexer self) = Some (l, r)"
    using assms(1) by (auto simp: tf_parser_lex_def Let_def)
  then show ?thesis
    using assms by (cases r) (auto simp: tf_parser_lex_def Let_def safe_inv_def)
qed

lemma safe_act:
  assumes act: "tf_parser_act mem state token action self = x" and heads: "at_heads lang source self"
    and state: "state = top_state self" and tok: "token_next source token self"
    and only: "tf_actions lang state (tok_symbol token) = [action]"
    and safe: "safe_stack lang self" and lr: "lr_tables lang" and "tables_ok lang" and "bounded mem"
  shows "safe_inv lang x"
proof -
  have lang: "ps_lang self = lang" and wf: "stack_wf self" using heads by (simp_all add: at_heads_def)
  have q: "is_state lang state" using stack_wf_top [OF wf] lang state by simp
  have t: "is_token lang (tok_symbol token)" using tok lang by (simp add: token_next_def)
  have mem: "action \<in> set (tf_actions lang (top_state self) (tok_symbol token))" using only state by simp
  note ok = lr_tables_action [OF lr q t, unfolded state, OF mem]
  show ?thesis
  proof (cases action)
    case (Shift s extra r)
    obtain self' e where shift: "tf_parser_shift mem token extra (if extra then top_state self else s) self = (self', e)"
      by fastforce
    have "e \<noteq> Op_Fault f" for f using shift_no_fault [OF shift] safe by (simp add: safe_stack_def)
    moreover have "e = Op_Ok \<Longrightarrow> safe_stack lang self'"
      using safe_shift [OF _ safe lr wf lang mem [unfolded Shift] t assms(9)] shift by simp
    ultimately show ?thesis
      using act shift state Shift
      by (cases e) (auto simp: tf_parser_act_def after_op_def safe_inv_def)
  next
    case (Reduce n symbol dyn pid)
    obtain self' e where red: "tf_parser_reduce mem symbol (ucast n) pid (Some token) self = (self', e)" by fastforce
    note safe_reduce [OF red safe lr wf lang mem [unfolded Reduce] t assms(9)]
    then show ?thesis
      using act red state Reduce
      by (cases e) (auto simp: tf_parser_act_def after_op_def safe_inv_def)
  next
    case Accept
    have "tok_symbol token = 0" "accepts_end lang ! unat (top_state self)"
      using ok Accept by (simp_all add: lr_action_def)
    then have "ps_root_emitted self"
      using safe safe_top [OF safe] by (auto simp: safe_stack_def linked_def list_all_iff)
        (metis Zero_not_Suc last_in_set list.size(3))
    then show ?thesis using act Accept by (auto simp: tf_parser_act_def safe_inv_def)
  next
    case Recover
    obtain self' token' control where x: "x = (self', token', control)" by (cases x)
    have "top_state self \<noteq> 0"
      using linked_top [of lang "ps_nodes self" "ps_states self"] safe safe_top [OF safe] lr wf lang
      by (simp add: safe_stack_def stack_wf_def)
    then have "control = Done Failed"
      using unexpected_no_fault [of state token self, OF _ lang lr q] act x Recover state
      by (simp add: tf_parser_act_def)
    then show ?thesis by (simp add: x safe_inv_def)
  qed
qed

text \<open>Without conflicts the loop never resolves one.\<close>

lemma conflict_free_dispatch:
  assumes "conflict_free lang" and "loop_inv lang source (self, token, Dispatch state)"
  obtains "tf_actions lang state (tok_symbol token) = []" | action where "tf_actions lang state (tok_symbol token) = [action]"
proof -
  have "is_state lang state" "is_token lang (tok_symbol token)"
    using assms(2) stack_wf_top [of self] by (auto simp: loop_inv_def at_heads_def token_next_def)
  from conflict_free_actions [OF assms(1) this] show thesis
    using that by (cases "tf_actions lang state (tok_symbol token)") auto
qed

lemma conflict_free_step:
  assumes "conflict_free lang" and "loop_inv lang source x" and "parser_step mem split x y"
  shows "parser_step mem (\<lambda>_ _. None) x y"
proof -
  obtain self token control where x: "x = (self, token, control)" by (cases x)
  show ?thesis
  proof (cases control)
    case (Dispatch state)
    have "ps_lang self = lang" using assms(2) by (simp add: x Dispatch loop_inv_def at_heads_def)
    from assms(1) assms(2) [unfolded x Dispatch] show ?thesis
      by (cases rule: conflict_free_dispatch)
         (use assms(3) \<open>ps_lang self = lang\<close> in \<open>simp_all add: x Dispatch tf_parser_dispatch_def\<close>)
  qed (use assms(3) x in auto)
qed

lemma conflict_free_loop_inv:
  assumes "conflict_free lang" and "loop_inv lang source x" and "parser_step mem split x y"
    and "tables_ok lang" and "lexes_tokens lang"
  shows "loop_inv lang source y"
proof -
  have contract: "split_contract mem lang source (\<lambda>_ _. None)" by (simp add: split_contract_def)
  obtain s t c s' t' c' where xy: "x = (s, t, c)" "y = (s', t', c')" by (cases x; cases y) blast
  show ?thesis
    using loop_step(2) [OF _ _ assms(4,5) contract, of s t c s' t' c'] conflict_free_step [OF assms(1-3)] assms(2)
    by (simp add: xy)
qed

lemma safe_step:
  assumes "safe_inv lang x" and "loop_inv lang source x" and "parser_step mem split x y"
    and "lr_tables lang" and "conflict_free lang" and "tables_ok lang" and "bounded mem"
  shows "safe_inv lang y"
proof -
  obtain self token control where x: "x = (self, token, control)" by (cases x)
  show ?thesis
  proof (cases control)
    case Lex
    then show ?thesis using assms(1,3) safe_lex by (auto simp: x safe_inv_def)
  next
    case (Dispatch state)
    have safe: "safe_stack lang self" using assms(1) by (simp add: x Dispatch safe_inv_def)
    have heads: "at_heads lang source self" and state: "state = top_state self" and tok: "token_next source token self"
      using assms(2) by (simp_all add: x Dispatch loop_inv_def)
    have lang: "ps_lang self = lang" and wf: "stack_wf self" using heads by (simp_all add: at_heads_def)
    have step: "tf_parser_dispatch mem split state token self = Some y" using assms(3) by (simp add: x Dispatch)
    from assms(5) assms(2) [unfolded x Dispatch] show ?thesis
    proof (cases rule: conflict_free_dispatch)
      case 1
      have q: "is_state lang state" using stack_wf_top [OF wf] lang state by simp
      have "state \<noteq> 0"
        using linked_top [of lang "ps_nodes self" "ps_states self"] safe safe_top [OF safe] assms(4) wf lang state
        by (simp add: safe_stack_def stack_wf_def)
      then have unexp: "unexpected state token self = (self', token', control') \<Longrightarrow> control' = Done Failed" for self' token' and control' :: "'b control"
        using unexpected_no_fault [OF _ lang assms(4) q] by blast
      show ?thesis
      proof (cases "tf_parser_demote_keyword lang state token (token_is_keyword (ps_lexer self))")
        case None
        then have "y = unexpected state token self" using step 1 lang by (simp add: tf_parser_dispatch_def)
        then show ?thesis using unexp by (cases y) (auto simp: safe_inv_def)
      next
        case (Some tok')
        then show ?thesis using step 1 lang safe by (auto simp: tf_parser_dispatch_def safe_inv_def)
      qed
    next
      case (2 action)
      then have "tf_parser_act mem state token action self = y"
        using step lang by (simp add: tf_parser_dispatch_def)
      from safe_act [OF this heads state tok 2 safe assms(4,6,7)] show ?thesis .
    qed
  qed (use assms(3) x in auto)
qed

lemma starts_safe:
  assumes "starts lang source sink want p0 self" and "lr_tables lang"
  shows "safe_inv lang (self, zero_token, Lex :: 'v control)"
  using assms by (simp add: starts_def safe_inv_def safe_stack_def linked_def cap_ok_def lr_tables_def)

lemma run_no_fault:
  assumes run: "tf_parser_run mem split lang source sz sink want p0 = Some (p, err, ended)"
    and "unat sz = length source" and "tables_ok lang" and "lexes_tokens lang"
    and "lr_tables lang" and "conflict_free lang" and "bounded mem"
  shows "ended \<noteq> Fault f"
  using run assms(2,3)
proof (cases rule: run_Some)
  case (2 self0 self)
  let ?I = "\<lambda>x. loop_inv lang source x \<and> safe_inv lang x"
  have start: "?I (self0, zero_token, Lex :: 'b control)"
    using 2(1) starts_safe [OF 2(1) assms(5)] by (simp add: starts_def)
  have "(\<exists>token. ?I (self, token, Done ended)) \<or> (\<exists>s1 token. ?I (s1, token, Out_Of_Memory) \<and> ended = Failed \<and>
      self = tf_parser_fail (tok_start_byte token) (tok_start_point token) ''out of memory'' s1)"
    by (rule ends_invariant [OF 2(2), where I = ?I, unfolded fst_conv snd_conv, OF start])
       (use safe_step conflict_free_loop_inv assms(3-7) in blast)
  then show ?thesis by (auto simp: safe_inv_def)
qed simp

end
