(* ===== verification/Lexer_Progress.thy ===== *)
theory Lexer_Progress
  imports Lexer
begin

text \<open>
  Tokens are not empty: a generated lex function accepts a symbol other than the end of the
  input only after it has advanced over something, and skips only before it advances.
\<close>

text \<open>
  The states \<open>fresh\<close> are those reached by skipping, or at the end of the input, from the state
  a scan starts in.
\<close>

definition lex_progress :: "(TSStateId \<Rightarrow> bool) \<Rightarrow> (TSStateId \<Rightarrow> lex_row) \<Rightarrow> bool" where
  "lex_progress fresh rows \<longleftrightarrow>
     (\<forall>s. (fresh s \<longrightarrow> row_accept (rows s) = None \<or> row_accept (rows s) = Some 0) \<and>
        (\<forall>c e. case row_move (rows s) c e of
             END_STATE \<Rightarrow> True
           | SKIP s' \<Rightarrow> fresh s \<and> fresh s'
           | ADVANCE s' \<Rightarrow> (if fresh s then e \<longrightarrow> fresh s' else \<not> fresh s')))"

text \<open>An invariant that may depend on the state of the lex function and on whether it has accepted.\<close>

lemma lex_run_result:
  assumes run: "lex_run ops rows state result l = Some r" and "P state result l"
    and step: "\<And>s l s' skip result. P s result l \<Longrightarrow>
      row_move (rows s) (op_lookahead ops l) (op_eof ops l) = (if skip then SKIP s' else ADVANCE s') \<Longrightarrow>
      P s' (fst (accept_token ops (row_accept (rows s)) (result, l)))
        (op_advance ops skip (snd (accept_token ops (row_accept (rows s)) (result, l))))"
    and stop: "\<And>s l result. P s result l \<Longrightarrow> Q (accept_token ops (row_accept (rows s)) (result, l))"
  shows "Q r"
proof -
  have "ops = ops \<longrightarrow> rows = rows \<longrightarrow> P state result l \<longrightarrow> Q r"
  proof (rule lex_run.raw_induct [where P = "\<lambda>ops' rows' state result l r.
        ops' = ops \<longrightarrow> rows' = rows \<longrightarrow> P state result l \<longrightarrow> Q r", OF _ run])
    fix lex_run' ops' rows' state result l r
    assume IH: "\<And>ops' rows' state result l r. lex_run' ops' rows' state result l = Some r \<Longrightarrow>
        ops' = ops \<longrightarrow> rows' = rows \<longrightarrow> P state result l \<longrightarrow> Q r"
      and eq: "(let r = accept_token ops' (row_accept (rows' state)) (result, l)
        in case row_move (rows' state) (op_lookahead ops' l) (op_eof ops' l) of
             ADVANCE s \<Rightarrow> lex_run' ops' rows' s (fst r) (op_advance ops' False (snd r))
           | SKIP s \<Rightarrow> lex_run' ops' rows' s (fst r) (op_advance ops' True (snd r))
           | END_STATE \<Rightarrow> Some r) = Some r"
    show "ops' = ops \<longrightarrow> rows' = rows \<longrightarrow> P state result l \<longrightarrow> Q r"
    proof (intro impI)
      assume same: "ops' = ops" "rows' = rows" and P: "P state result l"
      note eq' = eq [unfolded same Let_def]
      show "Q r"
      proof (cases "row_move (rows state) (op_lookahead ops l) (op_eof ops l)")
        case (ADVANCE s)
        then show ?thesis using IH [of ops rows s] eq' step [OF P, of False s] by simp
      next
        case (SKIP s)
        then show ?thesis using IH [of ops rows s] eq' step [OF P, of True s] by simp
      next
        case END_STATE
        then show ?thesis using eq' stop [OF P] by simp
      qed
    qed
  qed
  then show ?thesis using assms(2) by simp
qed

lemma lex_run_states:
  assumes "lex_run ops rows state result l = Some r" and "P state l"
    and "\<And>s l s' skip result. P s l \<Longrightarrow>
      row_move (rows s) (op_lookahead ops l) (op_eof ops l) = (if skip then SKIP s' else ADVANCE s') \<Longrightarrow>
      P s' (op_advance ops skip (snd (accept_token ops (row_accept (rows s)) (result, l))))"
    and "\<And>s l result. P s l \<Longrightarrow> Q (snd (accept_token ops (row_accept (rows s)) (result, l)))"
  shows "Q (snd r)"
  by (rule lex_run_result [where P = "\<lambda>s _. P s", OF assms(1)]) (use assms(2-4) in auto)

definition advanced :: "(TSStateId \<Rightarrow> bool) \<Rightarrow> TSStateId \<Rightarrow> TFLexer \<Rightarrow> bool" where
  "advanced fresh s l \<longleftrightarrow>
     (if fresh s then lx_result_symbol l = 0
      else token_start_byte l < lx_byte l \<and> (lx_result_symbol l \<noteq> 0 \<longrightarrow> token_start_byte l < token_end_byte l))"

lemma advanced_accept:
  assumes "advanced fresh s l" and "lex_progress fresh rows"
  shows "advanced fresh s (snd (accept_token tf_lexer_ops (row_accept (rows s)) (result, l)))"
  using assms(1) assms(2) [unfolded lex_progress_def, rule_format, of s]
  by (auto simp: advanced_def accept_token_def tf_lexer_mark_end_def split: option.split if_splits)

lemma lexer_advance_fields:
  assumes "lexer_pos lang source l" and "\<not> tf_lexer_eof l"
  shows "lx_byte l < lx_byte (tf_lexer_advance skip l)"
    and "lx_result_symbol (tf_lexer_advance skip l) = lx_result_symbol l"
    and "token_end_byte (tf_lexer_advance skip l) = token_end_byte l"
    and "token_start_byte (tf_lexer_advance skip l) = (if skip then lx_byte (tf_lexer_advance skip l) else token_start_byte l)"
proof -
  have less: "lx_byte l < lx_size l" using assms(2) by (simp add: tf_lexer_eof_def not_le)
  note adv = advance_position [OF assms(1) less]
  have nz: "lx_lookahead_size l \<noteq> 0" using adv(2) by auto
  have ge: "\<not> lx_size l \<le> lx_byte l" using less by simp
  have byte: "lx_byte (tf_lexer_advance skip l) = lx_byte l + lx_lookahead_size l"
    and rest: "lx_result_symbol (tf_lexer_advance skip l) = lx_result_symbol l"
      "token_end_byte (tf_lexer_advance skip l) = token_end_byte l"
      "token_start_byte (tf_lexer_advance skip l) = (if skip then lx_byte l + lx_lookahead_size l else token_start_byte l)"
    using ge nz assms(1)
    by (simp_all add: tf_lexer_advance_def tf_lexer_do_advance_def Let_def get_lookahead_eq lexer_pos_def)
  show "lx_byte l < lx_byte (tf_lexer_advance skip l)"
    using adv(1,2) by (simp add: byte word_less_nat_alt)
  show "lx_result_symbol (tf_lexer_advance skip l) = lx_result_symbol l"
    "token_end_byte (tf_lexer_advance skip l) = token_end_byte l"
    "token_start_byte (tf_lexer_advance skip l) = (if skip then lx_byte (tf_lexer_advance skip l) else token_start_byte l)"
    using rest byte by auto
qed

lemma advanced_advance:
  assumes "advanced fresh s l" and "lexer_inv lang source lo l" and "lex_progress fresh rows"
    and "row_move (rows s) c (tf_lexer_eof l) = (if skip then SKIP s' else ADVANCE s')"
  shows "advanced fresh s' (tf_lexer_advance skip l)"
proof -
  have "case row_move (rows s) c (tf_lexer_eof l) of END_STATE \<Rightarrow> True
      | SKIP s' \<Rightarrow> fresh s \<and> fresh s'
      | ADVANCE s' \<Rightarrow> (if fresh s then tf_lexer_eof l \<longrightarrow> fresh s' else \<not> fresh s')"
    using assms(3) unfolding lex_progress_def by blast
  then have move: "if skip then fresh s \<and> fresh s' else if fresh s then tf_lexer_eof l \<longrightarrow> fresh s' else \<not> fresh s'"
    unfolding assms(4) by (cases skip) (simp_all only: if_True if_False lex_move.case)
  have pos: "lexer_pos lang source l" and start: "token_start_byte l \<le> lx_byte l"
    using assms(2) by (simp_all add: lexer_inv_def)
  show ?thesis
  proof (cases "tf_lexer_eof l")
    case True
    then have "tf_lexer_advance skip l = l" by (simp add: tf_lexer_advance_def tf_lexer_eof_def)
    then show ?thesis using move assms(1) True by (auto simp: advanced_def split: if_splits)
  next
    case False
    note adv = lexer_advance_fields [OF pos False, of skip]
    show ?thesis
      using move assms(1) adv start by (auto simp: advanced_def split: if_splits)
  qed
qed

lemma lexer_scan_nonempty:
  assumes "tf_lexer_scan rows state self = Some (found, l)" and "lexer_pos lang source self"
    and "lex_progress fresh rows" and "fresh state" and "lx_result_symbol l \<noteq> 0"
  shows "token_start_byte l < token_end_byte l"
proof -
  obtain m where run: "lex_run tf_lexer_ops rows state False (tf_lexer_start self) = Some (found, m)"
    and l: "l = tf_lexer_finish m"
    using assms(1) by (auto simp: tf_lexer_scan_def)
  let ?P = "\<lambda>s l. advanced fresh s l \<and> lexer_inv lang source (lx_byte self) l"
  let ?Q = "\<lambda>l. lexer_inv lang source (lx_byte self) l \<and> (lx_result_symbol l \<noteq> 0 \<longrightarrow>
      token_start_byte l < lx_byte l \<and> token_start_byte l < token_end_byte l)"
  have "lx_result_symbol (tf_lexer_start self) = 0"
    by (simp add: tf_lexer_start_def tf_lexer_advance_def tf_lexer_do_advance_def
        tf_lexer_get_lookahead_def Let_def split: prod.split)
  then have start: "?P state (tf_lexer_start self)"
    using lexer_inv_start [OF assms(2)] assms(4) by (simp add: advanced_def)
  have accept: "?P s (snd (accept_token tf_lexer_ops (row_accept (rows s)) (result, l)))" if "?P s l" for s l result
    using advanced_accept [OF _ assms(3)] lexer.inv_accept_token [OF _ accepts_only_True] that by blast
  have "?Q (snd (found, m))"
  proof (rule lex_run_states [OF run, where P = ?P and Q = ?Q])
    show "?P state (tf_lexer_start self)" by (rule start)
    show "?P s' (op_advance tf_lexer_ops skip (snd (accept_token tf_lexer_ops (row_accept (rows s)) (result, l))))"
      if "?P s l" "row_move (rows s) (op_lookahead tf_lexer_ops l) (op_eof tf_lexer_ops l) =
        (if skip then SKIP s' else ADVANCE s')" for s l s' skip result
    proof -
      let ?l = "snd (accept_token tf_lexer_ops (row_accept (rows s)) (result, l))"
      have "tf_lexer_eof ?l = tf_lexer_eof l"
        using lexer.accept_token_eof [OF conjunct2 [OF that(1)] accepts_only_True, of rows s result] by simp
      then show ?thesis
        using advanced_advance [of fresh s ?l, OF _ _ assms(3)] accept [OF that(1)] that(2) lexer_inv_advance
        by fastforce
    qed
    show "?Q (snd (accept_token tf_lexer_ops (row_accept (rows s)) (result, l)))" if "?P s l" for s l result
      using accept [OF that, of result] by (auto simp: advanced_def split: if_splits)
  qed
  then have m: "lx_result_symbol m \<noteq> 0 \<Longrightarrow> token_start_byte m < lx_byte m \<and> token_start_byte m < token_end_byte m"
    by simp
  show ?thesis
    using m assms(5) by (auto simp: l tf_lexer_finish_def tf_lexer_mark_end_def split: if_splits)
qed

lemma lexer_next_nonempty:
  assumes "tf_lexer_next state self = Some (self', Some tok)" and "lexer_pos lang source self"
    and "lex_progress fresh (lex_fn (ts lang))" and "fresh (lex_state (tf_lex_mode lang state))"
    and "tok_symbol tok \<noteq> 0"
  shows "tok_start_byte tok < tok_end_byte tok"
proof -
  have pos: "lexer_pos lang source (self\<lparr>token_is_keyword := False, token_lex_state := state\<rparr>)"
    using assms(2) by (simp add: lexer_pos_def)
  from assms(1,2) show ?thesis
  proof (cases rule: lexer_next_found)
    case (1 l)
    then show ?thesis
      using lexer_scan_nonempty [OF 1(1) pos assms(3,4)] assms(5) by (simp add: lexed_token_def)
  next
    case (2 l k)
    then show ?thesis
      using lexer_scan_nonempty [OF 2(1) pos assms(3,4)] by (simp add: lexed_token_def)
  qed
qed

text \<open>A token marked as a keyword came from a word, and is not empty either.\<close>

interpretation lexer_flag: ts_lexer tf_lexer_ops "\<lambda>self. \<not> token_is_keyword self" "\<lambda>_. True"
  by unfold_locales
     (simp_all add: tf_lexer_advance_def tf_lexer_do_advance_def tf_lexer_get_lookahead_def
      tf_lexer_mark_end_def Let_def split: prod.split)

lemma lexer_scan_flag:
  assumes "tf_lexer_scan rows state self = Some (found, l)" and "\<not> token_is_keyword self"
  shows "\<not> token_is_keyword l"
proof -
  obtain m where run: "lex_run tf_lexer_ops rows state False (tf_lexer_start self) = Some (found, m)"
    and l: "l = tf_lexer_finish m"
    using assms(1) by (auto simp: tf_lexer_scan_def)
  have "\<not> token_is_keyword (tf_lexer_start self)"
    using assms(2) by (simp add: tf_lexer_start_def tf_lexer_advance_def tf_lexer_do_advance_def
        tf_lexer_get_lookahead_def Let_def split: prod.split)
  then have "\<not> token_is_keyword m"
    using lexer_flag.lex_run_inv [OF run _ accepts_only_True] by simp
  then show ?thesis by (simp add: l tf_lexer_finish_def tf_lexer_mark_end_def)
qed

lemma seek_flag [simp]: "token_is_keyword (tf_lexer_seek byte point self) = token_is_keyword self"
  by (simp add: tf_lexer_seek_def tf_lexer_get_lookahead_def Let_def split: prod.split)

lemma lexer_next_keyword_nonempty:
  assumes "tf_lexer_next state self = Some (self', Some tok)" and "lexer_pos lang source self"
    and "lex_progress fresh (lex_fn (ts lang))" and "fresh (lex_state (tf_lex_mode lang state))"
    and "token_is_keyword self'"
  shows "tok_start_byte tok < tok_end_byte tok"
proof -
  define l0 where "l0 = self\<lparr>token_is_keyword := False, token_lex_state := state\<rparr>"
  have lang: "lx_lang self = lang" "lx_lang l0 = lang"
    using assms(2) by (simp_all add: l0_def lexer_pos_def)
  have pos0: "lexer_pos lang source l0" using assms(2) by (simp add: l0_def lexer_pos_def)
  obtain l where scan: "tf_lexer_scan (lex_fn (ts lang)) (lex_state (tf_lex_mode lang state)) l0 = Some (True, l)"
    and rest: "map_option (\<lambda>(self, out). (tf_lexer_seek (tok_end_byte out) (tok_end_point out) self, Some out))
                   (if tok_symbol (lexed_token l) = keyword_capture_token (ts lang) \<and>
                       tok_symbol (lexed_token l) \<noteq> 0
                    then tf_lexer_keyword state (lexed_token l) l
                    else Some (l, lexed_token l)) = Some (self', Some tok)"
    using assms(1)
    unfolding tf_lexer_next_def Let_def l0_def [symmetric] lang bind_eq_Some_conv split_paired_Ex prod.case
    by (auto split: if_split_asm)
  have flag: "\<not> token_is_keyword l" using lexer_scan_flag [OF scan] by (simp add: l0_def)
  then have nz: "lx_result_symbol l \<noteq> 0"
    and kw: "map_option (\<lambda>(self, out). (tf_lexer_seek (tok_end_byte out) (tok_end_point out) self, Some out))
        (tf_lexer_keyword state (lexed_token l) l) = Some (self', Some tok)"
    using rest assms(5) by (auto simp: lexed_token_def split: if_split_asm)
  from kw obtain m where "tf_lexer_keyword state (lexed_token l) l = Some (m, tok)"
    by (auto simp: map_option_eq_Some)
  then have "tok_start_byte tok = token_start_byte l \<and> tok_end_byte tok = token_end_byte l"
    by (auto simp: tf_lexer_keyword_def Let_def lexed_token_def map_option_eq_Some split: if_split_asm)
  then show ?thesis using lexer_scan_nonempty [OF scan pos0 assms(3,4) nz] by simp
qed

end
