(* ===== verification/Parser_Halt.thy ===== *)
theory Parser_Halt
  imports Parser_Safe Lexer_Progress
begin

text \<open>
  Termination of the driver. A token takes a byte at least, and the reductions between two
  tokens follow a ranking of the states down, which is checked by evaluation; empty
  productions and unit productions are paid for by it.
\<close>

section \<open>The ranking\<close>

text \<open>
  \<open>cost\<close> is what a cell of the stack counts, and \<open>rank t q\<close> what the state \<open>q\<close> on the top counts
  before the token \<open>t\<close>. A reduction leaves less than it found, whatever state it returns to.
\<close>

definition reduce_ranked :: "TFLanguage \<Rightarrow> nat \<Rightarrow> (TSSymbol \<Rightarrow> TSStateId \<Rightarrow> nat) \<Rightarrow> bool" where
  "reduce_ranked lang cost rank \<longleftrightarrow>
     list_all (\<lambda>q. list_all (\<lambda>t. list_all (\<lambda>a.
       case a of Reduce n symbol _ _ \<Rightarrow>
         back_all lang (\<lambda>p. cost + rank t (tf_next_state lang p symbol) < rank t q + cost * unat n) (unat n) q
       | _ \<Rightarrow> True) (tf_actions lang q t)) (all_tokens lang)) (all_states lang)"

lemma reduce_ranked_action:
  assumes "reduce_ranked lang cost rank" and "is_state lang q" and "is_token lang t"
    and "Reduce n symbol dyn pid \<in> set (tf_actions lang q t)"
  shows "back_all lang (\<lambda>p. cost + rank t (tf_next_state lang p symbol) < rank t q + cost * unat n) (unat n) q"
  using assms in_all_states [OF assms(2)] in_all_tokens [OF assms(3)]
  by (fastforce simp: reduce_ranked_def list_all_iff)

lemma reduce_decreases:
  assumes red: "tf_parser_reduce mem symbol (ucast n) pid (Some token) self = (self', Op_Ok)"
    and safe: "safe_stack lang self" and wf: "stack_wf self" and lang: "ps_lang self = lang"
    and act: "Reduce n symbol dyn pid \<in> set (tf_actions lang (top_state self) t)" and t: "is_token lang t"
    and ranked: "reduce_ranked lang cost rank"
  shows "cost * structural (ps_nodes self') + rank t (top_state self')
     < cost * structural (ps_nodes self) + rank t (top_state self)"
  using red
proof (cases rule: reduce_Ok)
  case (1 below kids trail p v c)
  have n: "unat (ucast n :: u32) = unat n" by simp
  have q: "is_state lang (top_state self)" using stack_wf_top [OF wf] lang by simp
  have nodes: "ps_nodes self = below @ kids @ trail" and trail: "list_all nd_extra trail"
    and kids: "structural kids = unat n"
    using 1(1) by (simp_all add: reduce_split_def)
  have none: "structural trail = 0" using trail by (induction trail) auto
  have "length (take (length below + 1) (ps_states self)) = length below + 1"
    using wf nodes by (simp add: stack_wf_def)
  then have top: "top_state self' = tf_next_state lang (ps_states self ! length below) symbol"
    by (simp add: 1(3) top_state_def ps_depth_def nth_append last_replicated goto_state_def lang)
  have states: "list_all (is_state lang) (ps_states self)" using wf lang by (simp add: stack_wf_def)
  have "cost + rank t (top_state self') < rank t (top_state self) + cost * unat n"
    using back_below [of lang below "kids @ trail" "ps_states self"] states
      reduce_ranked_action [OF ranked q t act] safe safe_top [OF safe] kids none
    by (simp add: top nodes safe_stack_def)
  moreover have "structural (ps_nodes self') = structural below + 1"
    using none by (simp add: 1(3)) (simp add: parent_node_def)
  moreover have "structural (ps_nodes self) = structural below + unat n" using none kids by (simp add: nodes)
  ultimately show ?thesis by (simp add: algebra_simps)
qed

section \<open>The measure\<close>

definition lex_certificate ::
  "TFLanguage \<Rightarrow> (TSStateId \<Rightarrow> nat) \<Rightarrow> (TSStateId \<Rightarrow> nat) \<Rightarrow> (TSStateId \<Rightarrow> bool) \<Rightarrow> bool" where
  "lex_certificate lang rank kw_rank fresh \<longleftrightarrow>
     lex_rank_ok rank (lex_fn (ts lang)) \<and> lex_rank_ok kw_rank (keyword_lex_fn (ts lang)) \<and>
     lex_progress fresh (lex_fn (ts lang)) \<and> (\<forall>q. fresh (lex_state (tf_lex_mode lang q)))"

definition unread :: "u8 list \<Rightarrow> ('p, 'v, 's) TFParser \<Rightarrow> nat" where
  "unread source self = length source - unat (stack_end self)"

definition loop_measure ::
  "u8 list \<Rightarrow> nat \<Rightarrow> (TSSymbol \<Rightarrow> TSStateId \<Rightarrow> nat) \<Rightarrow> ('p, 'v, 's) TFParser \<times> TFToken \<times> 'v control
     \<Rightarrow> nat \<times> nat \<times> nat \<times> nat" where
  "loop_measure source cost rank = (\<lambda>(self, token, control).
     case control of
       Lex \<Rightarrow> (unread source self, 1, 0, 0)
     | Dispatch q \<Rightarrow>
         (unread source self, 0,
          if token_is_keyword (ps_lexer self) \<and> tok_symbol token \<noteq> keyword_capture_token (ts (ps_lang self)) then 1 else 0,
          cost * structural (ps_nodes self) + rank (tok_symbol token) q)
     | _ \<Rightarrow> (0, 0, 0, 0))"

abbreviation loop_less :: "((nat \<times> nat \<times> nat \<times> nat) \<times> (nat \<times> nat \<times> nat \<times> nat)) set" where
  "loop_less \<equiv> less_than <*lex*> less_than <*lex*> less_than <*lex*> less_than"

text \<open>The loop's state as far as termination goes: the token to dispatch is not empty.\<close>

definition halt_inv :: "TFLanguage \<Rightarrow> u8 list \<Rightarrow> ('p, 'v, 's) TFParser \<times> TFToken \<times> 'v control \<Rightarrow> bool" where
  "halt_inv lang source = (\<lambda>(self, token, control).
     loop_inv lang source (self, token, control) \<and> safe_inv lang (self, token, control) \<and>
     (case control of Dispatch _ \<Rightarrow> tok_symbol token \<noteq> 0 \<or> token_is_keyword (ps_lexer self) \<longrightarrow> tok_start_byte token < tok_end_byte token | _ \<Rightarrow> True))"

definition ended_control :: "'v control \<Rightarrow> bool" where
  "ended_control control \<longleftrightarrow> (case control of Lex \<Rightarrow> False | Dispatch _ \<Rightarrow> False | _ \<Rightarrow> True)"

text \<open>A step to one of the exits, or to a smaller state of the loop.\<close>

definition steps_down where
  "steps_down mem split lang source cost rank x \<longleftrightarrow>
     (\<exists>y. parser_step mem split x y \<and> (ended_control (snd (snd y)) \<or>
        halt_inv lang source y \<and> (loop_measure source cost rank y, loop_measure source cost rank x) \<in> loop_less))"

lemma halt_lex:
  assumes inv: "halt_inv lang source (self, token, Lex)" and cert: "lex_certificate lang lrank kw_rank fresh"
    and "tables_ok lang" and "lexes_tokens lang"
  shows "steps_down mem split lang source cost rank (self, token, Lex)"
proof -
  have loop: "loop_inv lang source (self, token, Lex :: 'b control)"
    and safe: "safe_stack lang self"
    using inv by (simp_all add: halt_inv_def safe_inv_def)
  have pos: "lexer_pos lang source (ps_lexer self)" and lang: "ps_lang self = lang"
    using loop by (simp_all add: loop_inv_def at_heads_def)
  obtain l r where lexed: "tf_lexer_next (top_state self) (ps_lexer self) = Some (l, r)"
    using lexer_next_terminates [of lrank lang kw_rank source "ps_lexer self" "top_state self"] cert pos
    by (auto simp: lex_certificate_def)
  obtain self' token' and control :: "'b control" where step: "tf_parser_lex token self = Some (self', token', control)"
    using lexed by (cases r) (auto simp: tf_parser_lex_def Let_def)
  then have pstep: "parser_step mem split (self, token, Lex) (self', token', control)" by simp
  have loop': "loop_inv lang source (self', token', control)"
    using lex_step [OF step loop assms(4,3)] by blast
  have safe': "safe_inv lang (self', token', control)" by (rule safe_lex [OF step safe])
  show ?thesis
  proof (cases r)
    case None
    then show ?thesis
      using pstep step lexed
      by (auto simp: steps_down_def tf_parser_lex_def Let_def ended_control_def)
  next
    case (Some tok)
    then have res: "self' = self\<lparr>ps_lexer := l\<rparr>" "token' = tok" "control = Dispatch (top_state self)"
      using step lexed by (auto simp: tf_parser_lex_def Let_def)
    have "tok_start_byte tok < tok_end_byte tok" if "tok_symbol tok \<noteq> 0 \<or> token_is_keyword l"
      using lexer_next_nonempty [OF _ pos, of "top_state self" l tok fresh] lexed Some cert that
        lexer_next_keyword_nonempty [OF _ pos, of "top_state self" l tok fresh]
      by (auto simp: lex_certificate_def)
    then have "halt_inv lang source (self', token', control)"
      using loop' safe' by (simp add: halt_inv_def res)
    moreover have "(loop_measure source cost rank (self', token', control),
        loop_measure source cost rank (self, token, Lex)) \<in> loop_less"
      by (simp add: loop_measure_def res unread_def stack_end_def)
    ultimately show ?thesis using pstep unfolding steps_down_def by blast
  qed
qed

lemma halt_shift:
  assumes shift: "tf_parser_shift mem token extra s self = (self', Op_Ok)" and tok: "token_next source token self"
    and spans: "stack_spans source self" and "tok_start_byte token < tok_end_byte token"
  shows "unread source self' < unread source self"
proof -
  have at: "token_at source (stack_end self) token" using tok by (simp add: token_next_def)
  then have "unat (stack_end self) < unat (tok_end_byte token)" "unat (tok_end_byte token) \<le> length source"
    using assms(4) by (auto simp: token_at_def word_le_nat_alt word_less_nat_alt)
  then show ?thesis
    using spans_shift(2) [OF shift spans at] by (simp add: unread_def)
qed

lemma halt_act:
  assumes inv: "halt_inv lang source (self, token, Dispatch state)"
    and only: "tf_actions lang state (tok_symbol token) = [action]"
    and act: "tf_parser_act mem state token action self = (self', token', control)"
    and inv': "loop_inv lang source (self', token', control)" "safe_inv lang (self', token', control)"
    and ranked: "reduce_ranked lang cost rank" and tables: "tables_ok lang"
  shows "ended_control control \<or> halt_inv lang source (self', token', control) \<and>
     (loop_measure source cost rank (self', token', control),
      loop_measure source cost rank (self, token, Dispatch state)) \<in> loop_less"
proof -
  have heads: "at_heads lang source self" and state: "state = top_state self" and tok: "token_next source token self"
    and safe: "safe_stack lang self"
    and nonempty: "tok_symbol token \<noteq> 0 \<or> token_is_keyword (ps_lexer self) \<Longrightarrow> tok_start_byte token < tok_end_byte token"
    using inv by (simp_all add: halt_inv_def loop_inv_def safe_inv_def)
  have lang: "ps_lang self = lang" and wf: "stack_wf self" and spans: "stack_spans source self"
    using heads by (simp_all add: at_heads_def)
  have q: "is_state lang state" using stack_wf_top [OF wf] lang state by simp
  have t: "is_token lang (tok_symbol token)" using tok lang by (simp add: token_next_def)
  show ?thesis
  proof (cases action)
    case (Shift s extra r)
    have nz: "tok_symbol token \<noteq> 0"
      using tables_no_end_shift [OF tables q] only Shift by fastforce
    obtain s1 e where shift: "tf_parser_shift mem token extra (if extra then state else s) self = (s1, e)" by fastforce
    then have res: "self' = s1" "token' = token" "control = after_op Lex e"
      using act Shift by (simp_all add: tf_parser_act_def)
    show ?thesis
    proof (cases "e = Op_Ok")
      case True
      have "unread source self' < unread source self"
        using halt_shift [OF _ tok spans nonempty [OF disjI1 [OF nz]]] shift res True by simp
      then show ?thesis using inv' res True by (simp add: halt_inv_def loop_measure_def after_op_def)
    next
      case False
      then show ?thesis by (cases e) (simp_all add: res after_op_def ended_control_def)
    qed
  next
    case (Reduce n symbol dyn pid)
    obtain s1 e where red: "tf_parser_reduce mem symbol (ucast n) pid (Some token) self = (s1, e)" by fastforce
    then have res: "self' = s1" "token' = token" "control = after_op (Dispatch (top_state s1)) e"
      using act Reduce by (auto simp: tf_parser_act_def)
    show ?thesis
    proof (cases "e = Op_Ok")
      case True
      have mem: "Reduce n symbol dyn pid \<in> set (tf_actions lang (top_state self) (tok_symbol token))"
        using only state Reduce by simp
      have less: "cost * structural (ps_nodes self') + rank (tok_symbol token) (top_state self')
          < cost * structural (ps_nodes self) + rank (tok_symbol token) (top_state self)"
        using reduce_decreases [OF _ safe wf lang mem t ranked] red res True by simp
      have "ps_lexer self' = ps_lexer self" "ps_lang self' = ps_lang self"
        using red True res by (auto elim!: reduce_Ok)
      moreover have "unread source self' = unread source self"
        using spans_reduce(2) [OF _ spans] red res True by (auto simp: unread_def)
      ultimately show ?thesis
        using inv' nonempty less res True state by (simp add: halt_inv_def loop_measure_def after_op_def)
    next
      case False
      then show ?thesis by (cases e) (simp_all add: res after_op_def ended_control_def)
    qed
  next
    case Accept
    then show ?thesis using act by (auto simp: tf_parser_act_def ended_control_def split: if_splits)
  next
    case Recover
    then show ?thesis
      using act by (auto simp: tf_parser_act_def unexpected_def ended_control_def split: prod.split_asm)
  qed
qed

lemma halt_dispatch:
  assumes inv: "halt_inv lang source (self, token, Dispatch state)"
    and ranked: "reduce_ranked lang cost rank"
    and "tables_ok lang" and "lexes_tokens lang" and "lr_tables lang" and "conflict_free lang" and "bounded mem"
  shows "steps_down mem split lang source cost rank (self, token, Dispatch state)"
proof -
  let ?x = "(self, token, Dispatch state :: 'b control)"
  have loop: "loop_inv lang source ?x" and safe: "safe_inv lang ?x" using inv by (simp_all add: halt_inv_def)
  have lang: "ps_lang self = lang" using loop by (simp add: loop_inv_def at_heads_def)
  have keep: "loop_inv lang source y \<and> safe_inv lang y" if "parser_step mem split ?x y" for y
    using conflict_free_loop_inv [OF assms(6) loop that assms(3,4)]
      safe_step [OF safe loop that assms(5,6,3,7)] by simp
  from assms(6) loop show ?thesis
  proof (cases rule: conflict_free_dispatch)
    case 1
    show ?thesis
    proof (cases "tf_parser_demote_keyword lang state token (token_is_keyword (ps_lexer self))")
      case None
      obtain self' token' and control :: "'b control" where unexp: "unexpected state token self = (self', token', control)"
        by (cases "unexpected state token self :: _ \<times> _ \<times> 'b control") blast
      then have "parser_step mem split ?x (self', token', control)"
        using 1 None lang by (simp add: tf_parser_dispatch_def)
      moreover have "ended_control control"
        using unexp by (auto simp: unexpected_def ended_control_def split: prod.split_asm)
      ultimately show ?thesis unfolding steps_down_def by fastforce
    next
      case (Some tok)
      then have step: "parser_step mem split ?x (self, tok, Dispatch state)"
        using 1 lang by (simp add: tf_parser_dispatch_def)
      have tok: "tok = token\<lparr>tok_symbol := keyword_capture_token (ts lang)\<rparr>" "token_is_keyword (ps_lexer self)"
        "tok_symbol token \<noteq> keyword_capture_token (ts lang)"
        using Some by (auto simp: tf_parser_demote_keyword_def split: if_splits)
      have "halt_inv lang source (self, tok, Dispatch state)"
        using keep [OF step] inv tok(1,2) by (simp add: halt_inv_def)
      moreover have "(loop_measure source cost rank (self, tok, Dispatch state), loop_measure source cost rank ?x) \<in> loop_less"
        using tok lang by (simp add: loop_measure_def)
      ultimately show ?thesis using step unfolding steps_down_def by blast
    qed
  next
    case (2 action)
    obtain self' token' and control :: "'b control" where act: "tf_parser_act mem state token action self = (self', token', control)"
      by (cases "tf_parser_act mem state token action self") blast
    then have step: "parser_step mem split ?x (self', token', control)"
      using 2 lang by (simp add: tf_parser_dispatch_def)
    show ?thesis
      using halt_act [OF inv 2 act _ _ ranked assms(3)] keep [OF step] step unfolding steps_down_def by fastforce
  qed
qed

text \<open>Every run from a good state of the loop ends.\<close>

lemma halt_ends:
  assumes inv: "halt_inv lang source x"
    and cert: "lex_certificate lang lrank kw_rank fresh" and ranked: "reduce_ranked lang cost rank"
    and "tables_ok lang" and "lexes_tokens lang" and "lr_tables lang" and "conflict_free lang" and "bounded mem"
  shows "\<exists>r. parser_ends mem split x r"
  using inv
proof (induction x rule: wf_induct_rule [OF wf_inv_image [of loop_less "loop_measure source cost rank"]])
  case 1
  show ?case by (intro wf_lex_prod wf_less_than)
next
  case (2 x)
  have final: "\<exists>r. parser_ends mem split y r" if "ended_control (snd (snd y))" for y
  proof -
    obtain self token control where y: "y = (self, token, control)" by (cases y)
    then show ?thesis
      using that ends_done ends_oom by (cases control) (fastforce simp: ended_control_def)+
  qed
  obtain self token control where x: "x = (self, token, control)" by (cases x)
  show ?case
  proof (cases "ended_control control")
    case True
    then show ?thesis using final x by simp
  next
    case False
    have "steps_down mem split lang source cost rank x"
      using False halt_lex [OF _ cert assms(4,5)] halt_dispatch [OF _ ranked assms(4-8)] 2(2)
      by (cases control) (auto simp: x ended_control_def)
    then obtain y where step: "parser_step mem split x y"
      and y: "ended_control (snd (snd y)) \<or> halt_inv lang source y \<and>
        (loop_measure source cost rank y, loop_measure source cost rank x) \<in> loop_less"
      unfolding steps_down_def by blast
    from y have "\<exists>r. parser_ends mem split y r"
    proof (elim disjE conjE)
      assume "halt_inv lang source y"
        and "(loop_measure source cost rank y, loop_measure source cost rank x) \<in> loop_less"
      then show ?thesis using 2(1) [of y] by (simp add: in_inv_image)
    qed (rule final)
    then show ?thesis using ends_step [OF step] by blast
  qed
qed

lemma run_returns:
  assumes "unat sz = length source" and "tables_ok lang" and "lexes_tokens lang"
    and "lr_tables lang" and "conflict_free lang" and "bounded mem"
    and "lex_certificate lang lrank kw_rank fresh" and "reduce_ranked lang cost rank"
  shows "\<exists>r. tf_parser_run mem split lang source sz sink want p0 = Some r"
proof (cases rule: run_cases [OF assms(1,2), of mem split sink want p0])
  case (1 e)
  then show ?thesis by blast
next
  case (2 self0)
  have "halt_inv lang source (self0, zero_token, Lex :: 'b control)"
    using 2(1) starts_safe [OF 2(1) assms(4)] by (simp add: halt_inv_def starts_def)
  from halt_ends [OF this assms(7,8,2-6)] obtain r where
    "parser_ends mem split (self0, zero_token, Lex) r" by blast
  then have "tf_parser_loop mem split (self0, zero_token, Lex) = Some r" by (rule ends_loop)
  then show ?thesis using 2(2) by (cases r) simp
qed

end
