(* ===== verification/Parser_Error.thy ===== *)
theory Parser_Error
  imports Parser_Safe
begin

text \<open>
  The error report: the messages stay in their buffers, the list of expected terminals is the
  one of the state, and the position is one of the source, with its row and column.
\<close>

section \<open>Messages\<close>

lemma print_at_length: "0 < n \<Longrightarrow> length (print_at out at n txt) < at + n"
  by (simp add: print_at_def)

lemma expected_loop_length:
  assumes "expected_loop lang state sz symbols used found out = Some s"
    and "used < sz" and "\<And>s. out = Some s \<Longrightarrow> length s < sz"
  shows "length s < sz"
  using assms
proof (induction lang state sz symbols used found out rule: expected_loop.induct)
  case (2 lang state sz symbol symbols used found out)
  let ?txt = "(if found then '', '' else []) @ tf_parser_symbol_name lang (of_nat symbol)"
  let ?printed = "print_at (case out of Some s \<Rightarrow> s | None \<Rightarrow> []) used (sz - used) ?txt"
  show ?case
  proof (cases "tf_actions lang state (of_nat symbol) = []")
    case True
    then show ?thesis using 2(1) 2(3-5) by simp
  next
    case acts: False
    show ?thesis
    proof (cases "length ?txt \<ge> sz - used")
      case True
      define cut where "cut = (if used > 4 then used - 4 else 0)"
      have "s = print_at ?printed cut (sz - cut) '', ...''"
        using 2(3) acts True by (simp add: Let_def cut_def)
      moreover have "cut < sz" using 2(4) by (simp add: cut_def less_imp_diff_less)
      ultimately show ?thesis using print_at_length [of "sz - cut" ?printed cut "'', ...''"] by simp
    next
      case False
      have "length ?printed < sz" using print_at_length [of "sz - used" _ used ?txt] 2(4) by simp
      then show ?thesis
        using 2(2) [OF acts refl refl refl] 2(3) acts False by (simp add: Let_def)
    qed
  qed
qed simp

lemma describe_expected_length:
  "tf_parser_describe_expected lang state sz = Some s \<Longrightarrow> 0 < sz \<Longrightarrow> length s < sz"
  unfolding tf_parser_describe_expected_def by (erule expected_loop_length) simp_all

text \<open>Names one after the other, as long as they fit.\<close>

fun join :: "string list \<Rightarrow> string" where
  "join [] = []"
| "join [name] = name"
| "join (name # names) = name @ '', '' @ join names"

lemma join_snoc: "names \<noteq> [] \<Longrightarrow> join (names @ [name]) = join names @ '', '' @ name"
  by (induction names rule: join.induct) (auto simp: neq_Nil_conv)

definition expected_names :: "TFLanguage \<Rightarrow> TSStateId \<Rightarrow> nat list \<Rightarrow> string list" where
  "expected_names lang state symbols =
     map (\<lambda>t. tf_parser_symbol_name lang (of_nat t)) (filter (\<lambda>t. tf_actions lang state (of_nat t) \<noteq> []) symbols)"

lemma join_length_append: "length (join names) \<le> length (join (names @ others))"
  by (induction names rule: join.induct) (auto, cases others, auto)

lemma expected_loop_names:
  assumes "length (join (done @ expected_names lang state symbols)) < sz"
    and "used = length (join done)" and "found = (done \<noteq> [])"
    and "out = (if done = [] then None else Some (join done))"
  shows "expected_loop lang state sz symbols used found out =
    (if done @ expected_names lang state symbols = [] then None
     else Some (join (done @ expected_names lang state symbols)))"
  using assms
proof (induction symbols arbitrary: "done" used found out)
  case Nil
  then show ?case by (simp add: expected_names_def)
next
  case (Cons symbol symbols)
  let ?name = "tf_parser_symbol_name lang (of_nat symbol)"
  show ?case
  proof (cases "tf_actions lang state (of_nat symbol) = []")
    case True
    then show ?thesis using Cons(1) [of "done" used found out] Cons(2-5) by (simp add: expected_names_def)
  next
    case False
    then have names: "done @ expected_names lang state (symbol # symbols) = (done @ [?name]) @ expected_names lang state symbols"
      by (simp add: expected_names_def)
    let ?txt = "(if found then '', '' else []) @ ?name"
    have snoc: "join (done @ [?name]) = join done @ ?txt"
      using Cons(4) by (cases "done = []") (simp_all add: join_snoc)
    have "length (join (done @ [?name])) < sz"
      using Cons(2) join_length_append [of "done @ [?name]" "expected_names lang state symbols"] unfolding names by simp
    then have fits: "length ?txt < sz - used" using Cons(3) snoc by simp
    have printed: "print_at (case out of Some s \<Rightarrow> s | None \<Rightarrow> []) used (sz - used) ?txt = join done @ ?txt"
      using fits Cons(3,5) by (simp add: print_at_def)
    have "\<not> length ?txt \<ge> sz - used" using fits by linarith
    then have "expected_loop lang state sz (symbol # symbols) used found out =
        expected_loop lang state sz symbols (used + length ?txt) True (Some (join done @ ?txt))"
      unfolding expected_loop.simps(2) Let_def printed using False by (simp only: if_False)
    then show ?thesis
      using Cons(1) [of "done @ [?name]" "used + length ?txt" True "Some (join done @ ?txt)"] Cons(2,3)
      unfolding names snoc by simp
  qed
qed

lemma describe_expected_names:
  assumes "length (join (expected_names lang state [0..<unat (token_count (ts lang))])) < sz"
    and "expected_names lang state [0..<unat (token_count (ts lang))] \<noteq> []"
  shows "tf_parser_describe_expected lang state sz =
    Some (join (expected_names lang state [0..<unat (token_count (ts lang))]))"
  using expected_loop_names [of "[]" lang state "[0..<unat (token_count (ts lang))]" sz 0 False None] assms
  by (simp add: tf_parser_describe_expected_def)

section \<open>The position\<close>

definition located :: "u8 list \<Rightarrow> u32 \<Rightarrow> TFPoint \<Rightarrow> bool" where
  "located source byte point \<longleftrightarrow> unat byte \<le> length source \<and> point = point_at source (unat byte)"

definition error_ok :: "u8 list \<Rightarrow> ('p, 'v, 's) TFParser \<Rightarrow> bool" where
  "error_ok source self \<longleftrightarrow>
     (case ps_error self of None \<Rightarrow> True
      | Some e \<Rightarrow> located source (er_byte e) (er_point e) \<and> length (er_message e) < TF_ERROR_MESSAGE_SIZE)"

definition error_inv :: "u8 list \<Rightarrow> ('p, 'v, 's) TFParser \<times> TFToken \<times> 'v control \<Rightarrow> bool" where
  "error_inv source = (\<lambda>(self, token, control).
     error_ok source self \<and> located source (tok_start_byte token) (tok_start_point token))"

lemma error_ok_fail: "error_ok source self \<Longrightarrow> located source byte point \<Longrightarrow> error_ok source (tf_parser_fail byte point txt self)"
  by (auto simp: tf_parser_fail_def error_ok_def print_at_def TF_ERROR_MESSAGE_SIZE_def split: option.split)

lemma error_ok_unexpected:
  assumes "unexpected state token self = (self', token', control)" and "error_ok source self"
    and "located source (tok_start_byte token) (tok_start_point token)"
  shows "error_ok source self' \<and> token' = token"
  using assms error_ok_fail [OF assms(2,3)]
  by (auto simp: unexpected_def tf_parser_fail_unexpected_def split: prod.split_asm option.split_asm)

lemma shift_error: "tf_parser_shift mem token extra s self = (self', e) \<Longrightarrow> ps_error self' = ps_error self"
  by (cases "e = Op_Ok") (auto elim!: shift_Ok dest!: shift_not_Ok(3))

lemma reduce_error: "tf_parser_reduce mem symbol c pid la self = (self', e) \<Longrightarrow> ps_error self' = ps_error self"
  by (cases "e = Op_Ok") (auto elim!: reduce_Ok reduce_not_Ok)

lemma error_act:
  assumes act: "tf_parser_act mem state token action self = (self', token', control)" and "error_inv source (self, token, c)"
  shows "error_inv source (self', token', control)"
proof (cases action)
  case (Shift s extra r)
  obtain s1 e where shift: "tf_parser_shift mem token extra (if extra then state else s) self = (s1, e)" by fastforce
  then show ?thesis using act Shift assms(2) shift_error [OF shift] by (auto simp: tf_parser_act_def error_inv_def error_ok_def)
next
  case (Reduce n symbol dyn pid)
  obtain s1 e where red: "tf_parser_reduce mem symbol (ucast n) pid (Some token) self = (s1, e)" by fastforce
  then show ?thesis using act Reduce assms(2) reduce_error [OF red] by (auto simp: tf_parser_act_def error_inv_def error_ok_def)
next
  case Accept
  then show ?thesis using act assms(2) by (auto simp: tf_parser_act_def error_inv_def split: if_splits)
next
  case Recover
  then show ?thesis using act assms(2) error_ok_unexpected [of state token self self' token' control source]
    by (auto simp: tf_parser_act_def error_inv_def)
qed

lemma error_lex:
  assumes "tf_parser_lex token self = Some x" and "error_inv source (self, token, c)"
    and "lexer_pos lang source (ps_lexer self)"
  shows "error_inv source x"
proof -
  obtain l r where lexed: "tf_lexer_next (top_state self) (ps_lexer self) = Some (l, r)"
    using assms(1) by (auto simp: tf_parser_lex_def Let_def)
  note pos = lexer_next_inv [OF lexed assms(3)]
  have ok: "error_ok source (self\<lparr>ps_lexer := l\<rparr>)" using assms(2) by (simp add: error_inv_def error_ok_def)
  show ?thesis
  proof (cases r)
    case None
    have "located source (lx_byte l) (lx_point l)"
      using pos(1) by (auto simp: located_def lexer_pos_def word_le_nat_alt)
    from error_ok_fail [OF ok this] show ?thesis
      using assms(1,2) lexed None by (auto simp: tf_parser_lex_def Let_def error_inv_def)
  next
    case (Some tok)
    then show ?thesis
      using assms(1) lexed ok pos(2) [OF Some]
      by (auto simp: tf_parser_lex_def Let_def error_inv_def located_def token_at_def)
  qed
qed

lemma error_step:
  assumes "parser_step mem split x y" and "loop_inv lang source x" and "error_inv source x" and "conflict_free lang"
  shows "error_inv source y"
proof -
  obtain self token control where x: "x = (self, token, control)" by (cases x)
  obtain self' token' control' where y: "y = (self', token', control')" by (cases y)
  show ?thesis
  proof (cases control)
    case Lex
    then show ?thesis
      using error_lex [of token self y source Lex lang] assms(1-3) by (simp add: x loop_inv_def at_heads_def)
  next
    case (Dispatch state)
    have lang: "ps_lang self = lang" using assms(2) by (simp add: x Dispatch loop_inv_def at_heads_def)
    have step: "tf_parser_dispatch mem split state token self = Some y" using assms(1) by (simp add: x Dispatch)
    from assms(4) assms(2) [unfolded x Dispatch] show ?thesis
    proof (cases rule: conflict_free_dispatch)
      case 1
      show ?thesis
      proof (cases "tf_parser_demote_keyword lang state token (token_is_keyword (ps_lexer self))")
        case None
        then have unexp: "unexpected state token self = (self', token', control')"
          using step 1 lang y by (simp add: tf_parser_dispatch_def)
        show ?thesis using error_ok_unexpected [OF unexp, of source] assms(3) by (simp add: x y error_inv_def)
      next
        case (Some tok)
        then have "tok = token\<lparr>tok_symbol := keyword_capture_token (ts lang)\<rparr>"
          by (auto simp: tf_parser_demote_keyword_def split: if_splits)
        then show ?thesis using step 1 lang Some assms(3) x by (auto simp: tf_parser_dispatch_def error_inv_def)
      qed
    next
      case (2 action)
      then have "tf_parser_act mem state token action self = y" using step lang by (simp add: tf_parser_dispatch_def)
      then show ?thesis using error_act [of mem state token action self self' token' control'] assms(3) x y by simp
    qed
  qed (use assms(1) x in auto)
qed

lemma run_error_ok:
  assumes run: "tf_parser_run mem split lang source sz sink want p0 = Some (p, Some e, ended)"
    and "unat sz = length source" and "tables_ok lang" and "lexes_tokens lang" and "conflict_free lang"
  shows "located source (er_byte e) (er_point e) \<and> length (er_message e) < TF_ERROR_MESSAGE_SIZE"
proof (cases rule: run_cases [OF assms(2,3), of mem split sink want p0])
  case (1 e')
  then show ?thesis
    using run by (auto simp: start_error_def located_def TF_ERROR_MESSAGE_SIZE_def zero_point_def)
next
  case (2 self0)
  obtain self where loop: "tf_parser_loop mem split (self0, zero_token, Lex) = Some (self, ended)" and err: "ps_error self = Some e"
    using run unfolding 2(2) map_option_eq_Some by auto
  let ?I = "\<lambda>x. loop_inv lang source x \<and> error_inv source x"
  have start: "?I (self0, zero_token, Lex :: 'b control)"
    using 2(1) by (auto simp: starts_def error_inv_def error_ok_def located_def zero_error_def zero_token_def
        TF_ERROR_MESSAGE_SIZE_def zero_point_def)
  have "(\<exists>token. ?I (self, token, Done ended)) \<or> (\<exists>s1 token. ?I (s1, token, Out_Of_Memory) \<and> ended = Failed \<and>
      self = tf_parser_fail (tok_start_byte token) (tok_start_point token) ''out of memory'' s1)"
    by (rule ends_invariant [OF loop_ends [OF loop], where I = ?I, unfolded fst_conv snd_conv, OF start])
       (use error_step conflict_free_loop_inv assms(3-5) in blast)
  then have "error_ok source self" using error_ok_fail by (auto simp: error_inv_def)
  then show ?thesis using err by (simp add: error_ok_def)
qed

end
