(* ===== verification/Erase.thy ===== *)
theory Erase
  imports Parser_Inv
begin

text \<open>
  The consumer does not influence the parse: erasing its payload and its values from the
  parser commutes with every operation, so that a run with a sink and a run without one
  return together, with the same verdict and the same error.
\<close>

section \<open>Erasing the consumer\<close>

definition erase_node :: "'v TFNode \<Rightarrow> unit TFNode" where
  "erase_node n = \<lparr>nd_symbol = nd_symbol n, nd_extra = nd_extra n,
     nd_start_byte = nd_start_byte n, nd_end_byte = nd_end_byte n,
     nd_start_point = nd_start_point n, nd_end_point = nd_end_point n, nd_value = None\<rparr>"

lemma erase_node_simps [simp]:
  "nd_extra (erase_node n) = nd_extra n" "nd_start_byte (erase_node n) = nd_start_byte n"
  "nd_end_byte (erase_node n) = nd_end_byte n" "nd_start_point (erase_node n) = nd_start_point n"
  "nd_end_point (erase_node n) = nd_end_point n" "nd_value (erase_node n) = None"
  "erase_node (token_node token extra v) = token_node token extra None"
  by (simp_all add: erase_node_def token_node_def)

definition erase :: "('p, 'v, 's) TFParser \<Rightarrow> (unit, unit, 's) TFParser" where
  "erase self = \<lparr>ps_lang = ps_lang self, ps_lexer = ps_lexer self, ps_sink = no_sink, ps_payload = (),
     ps_states = ps_states self, ps_nodes = map erase_node (ps_nodes self), ps_capacity = ps_capacity self,
     ps_leading = ps_leading self, ps_root_emitted = ps_root_emitted self, ps_error = ps_error self,
     ps_split_count = ps_split_count self, ps_spec = ps_spec self\<rparr>"

lemma erase_sel [simp]:
  "ps_lang (erase self) = ps_lang self" "ps_lexer (erase self) = ps_lexer self" "ps_sink (erase self) = no_sink"
  "ps_states (erase self) = ps_states self" "ps_nodes (erase self) = map erase_node (ps_nodes self)"
  "ps_capacity (erase self) = ps_capacity self" "ps_leading (erase self) = ps_leading self"
  "ps_root_emitted (erase self) = ps_root_emitted self" "ps_error (erase self) = ps_error self"
  "ps_depth (erase self) = ps_depth self" "top_state (erase self) = top_state self"
  by (simp_all add: erase_def ps_depth_def top_state_def)

lemma erase_update [simp]:
  "erase (self\<lparr>ps_payload := p\<rparr>) = erase self"
  "erase (self\<lparr>ps_lexer := l\<rparr>) = (erase self)\<lparr>ps_lexer := l\<rparr>"
  "erase (self\<lparr>ps_capacity := c\<rparr>) = (erase self)\<lparr>ps_capacity := c\<rparr>"
  "erase (self\<lparr>ps_leading := n\<rparr>) = (erase self)\<lparr>ps_leading := n\<rparr>"
  "erase (self\<lparr>ps_error := e\<rparr>) = (erase self)\<lparr>ps_error := e\<rparr>"
  "erase (self\<lparr>ps_states := qs\<rparr>) = (erase self)\<lparr>ps_states := qs\<rparr>"
  "erase (self\<lparr>ps_nodes := ns\<rparr>) = (erase self)\<lparr>ps_nodes := map erase_node ns\<rparr>"
  "erase (self\<lparr>ps_root_emitted := r\<rparr>) = (erase self)\<lparr>ps_root_emitted := r\<rparr>"
  by (simp_all add: erase_def)

lemma no_sink_emit [simp]:
  "tf_parser_emit_shift no_sink p token extra = (p, None)" "tf_parser_emit_reduce no_sink p rd = (p, None)"
  by (simp_all add: tf_parser_emit_shift_def tf_parser_emit_reduce_def no_sink_def)

section \<open>The operations\<close>

lemma grow_erase: "tf_parser_grow mem needed (erase self) = map_prod erase id (tf_parser_grow mem needed self)"
  by (simp add: tf_parser_grow_def Let_def)

lemma push_erase:
  "tf_parser_push mem (erase_node node) state (erase self) = map_prod erase id (tf_parser_push mem node state self)"
  by (cases "tf_parser_grow mem (of_nat (ps_depth self) + 1) self")
     (simp add: tf_parser_push_def grow_erase)

lemma unit_payload [simp]: "(s :: (unit, 'v, 's) TFParser)\<lparr>ps_payload := p\<rparr> = s"
  by (rule TFParser.equality) simp_all

lemma shift_erase:
  "tf_parser_shift mem token extra state (erase self) = map_prod erase id (tf_parser_shift mem token extra state self)"
proof -
  obtain p v where "tf_parser_emit_shift (ps_sink self) (ps_payload self) token extra = (p, v)" by fastforce
  moreover have "ps_depth (self\<lparr>ps_payload := p\<rparr>) = ps_depth self" for p by (simp add: ps_depth_def)
  ultimately show ?thesis
    using push_erase [of mem "token_node token extra v" state "self\<lparr>ps_payload := p, ps_leading := ps_leading self + 1\<rparr>"]
      push_erase [of mem "token_node token extra v" state "self\<lparr>ps_payload := p\<rparr>"]
    by (cases "extra \<and> ps_depth self = ps_leading self") (auto simp: tf_parser_shift_def Let_def)
qed

lemma reduce_scan_erase:
  "reduce_scan (map erase_node nodes) c popped crossed trailing = reduce_scan nodes c popped crossed trailing"
proof (induction nodes c popped crossed trailing rule: reduce_scan.induct)
  case (1 nodes c popped crossed trailing)
  then show ?case
    by (subst (1 2) reduce_scan.simps) (auto simp: Let_def)
qed

definition erase_reduction :: "'v TFReduction \<Rightarrow> unit TFReduction" where
  "erase_reduction rd = \<lparr>rd_symbol = rd_symbol rd, rd_production_id = rd_production_id rd,
     rd_child_count = rd_child_count rd, rd_node_count = rd_node_count rd,
     rd_children = map erase_node (rd_children rd), rd_start_byte = rd_start_byte rd, rd_end_byte = rd_end_byte rd,
     rd_start_point = rd_start_point rd, rd_end_point = rd_end_point rd\<rparr>"

lemma parent_erase: "parent_node (erase_reduction rd) None = erase_node (parent_node rd v)"
  by (simp add: parent_node_def erase_reduction_def erase_node_def)

lemma span_reduction_erase:
  assumes "base \<le> end" and "end \<le> length nodes"
  shows "span_reduction symbol pid c (map erase_node nodes) base end = erase_reduction (span_reduction symbol pid c nodes base end)"
  using assms by (auto simp: span_reduction_def erase_reduction_def Let_def take_map drop_map)

lemma absorb_erase:
  "absorb_end mem token (erase_reduction rd) (erase self) =
     map_prod erase (map_prod erase_reduction id) (absorb_end mem token rd self)"
proof -
  obtain s ok where grow: "tf_parser_grow mem (of_nat (ps_depth self) + 1) self = (s, ok)" by fastforce
  obtain p v where emit: "tf_parser_emit_shift (ps_sink s) (ps_payload s) token True = (p, v)" by fastforce
  have "root_reduction token (map erase_node nodes) None (erase_reduction rd) =
      erase_reduction (root_reduction token nodes v rd)" for nodes
    by (simp add: root_reduction_def erase_reduction_def Let_def nth_append)
  then show ?thesis
    by (simp add: absorb_end_def grow_erase grow emit)
qed

lemma place_erase:
  "place_parent mem base end state (erase_node parent) (erase self) =
     map_prod erase id (place_parent mem base end state parent self)"
proof -
  obtain s ok where "tf_parser_grow mem (of_nat (base + 1 + (ps_depth self - end))) self = (s, ok)" by fastforce
  then show ?thesis
    unfolding place_parent_def Let_def by (simp add: grow_erase take_map drop_map)
qed

lemma reduce_erase:
  "tf_parser_reduce mem symbol child_count pid lookahead (erase self) =
     map_prod erase id (tf_parser_reduce mem symbol child_count pid lookahead self)"
proof (cases "reduce_scan (ps_nodes self) (unat child_count) 0 0 0")
  case None
  then show ?thesis by (simp add: tf_parser_reduce_def reduce_scan_erase)
next
  case (Some pt)
  obtain popped trailing where pt: "pt = (popped, trailing)" by (cases pt)
  obtain below kids trail where split: "reduce_split (unat child_count) (ps_nodes self) below kids trail"
    and len: "popped = length kids + length trail" "trailing = length trail"
    using reduce_scan_Some [OF Some [unfolded pt]] .
  define base where "base = ps_depth self - popped"
  define "end" where "end = ps_depth self - trailing"
  have "length (ps_nodes self) = length below + length kids + length trail"
    using split by (simp add: reduce_split_def)
  then have bounds: "base \<le> end" "end \<le> length (ps_nodes self)"
    by (simp_all add: base_def end_def len ps_depth_def)
  define rd where "rd = span_reduction symbol pid child_count (ps_nodes self) base end"
  note span = span_reduction_erase [OF bounds, of symbol pid child_count, folded rd_def]
  define state where "state = tf_next_state (ps_lang self) (ps_states self ! base) symbol"
  define root where "root \<longleftrightarrow> (case lookahead of None \<Rightarrow> False
      | Some token \<Rightarrow> tok_symbol token = 0 \<and> base = ps_leading self \<and> accepts_end (ps_lang self) ! unat state)"
  obtain s1 rd1 e1 where one: "(if root then absorb_end mem (the lookahead) rd self else (self, rd, Op_Ok)) = (s1, rd1, e1)"
    by (metis prod_cases3)
  have one': "(if root then absorb_end mem (the lookahead) (erase_reduction rd) (erase self)
      else (erase self, erase_reduction rd, Op_Ok)) = (erase s1, erase_reduction rd1, e1)"
    using one by (auto simp: absorb_erase split: if_splits)
  obtain p v where emit: "tf_parser_emit_reduce (ps_sink s1) (ps_payload s1) rd1 = (p, v)" by fastforce
  have reduce: "tf_parser_reduce mem symbol child_count pid lookahead self =
     (if e1 \<noteq> Op_Ok then (s1, e1) else place_parent mem base end state (parent_node rd v) (s1\<lparr>ps_payload := p\<rparr>))"
    using one unfolding tf_parser_reduce_def Some pt option.case prod.case Let_def base_def [symmetric] end_def [symmetric]
      rd_def [symmetric] state_def [symmetric]
    by (cases lookahead) (auto simp: root_def emit split: if_splits)
  have "tf_parser_reduce mem symbol child_count pid lookahead (erase self) =
     (if e1 \<noteq> Op_Ok then (erase s1, e1)
      else place_parent mem base end state (parent_node (erase_reduction rd) None) (erase s1))"
    using one' unfolding tf_parser_reduce_def erase_sel reduce_scan_erase Some pt option.case prod.case Let_def
      base_def [symmetric] end_def [symmetric] span state_def [symmetric]
    by (cases lookahead) (auto simp: root_def split: if_splits)
  then show ?thesis
    using place_erase [of mem base "end" state "parent_node rd v" "s1\<lparr>ps_payload := p\<rparr>"]
    by (simp add: reduce parent_erase [of rd v])
qed

lemma fail_erase [simp]: "tf_parser_fail byte point txt (erase self) = erase (tf_parser_fail byte point txt self)"
  by (simp add: tf_parser_fail_def split: option.split)

lemma fail_unexpected_erase:
  "tf_parser_fail_unexpected state token (erase self) = map_prod erase id (tf_parser_fail_unexpected state token self)"
  by (simp add: tf_parser_fail_unexpected_def split: option.split)

section \<open>The loop\<close>

definition erase_end :: "'v run_end \<Rightarrow> unit run_end" where
  "erase_end ended = (case ended of Parsed _ \<Rightarrow> Parsed None | Failed \<Rightarrow> Failed | Fault f \<Rightarrow> Fault f)"

definition erase_control :: "'v control \<Rightarrow> unit control" where
  "erase_control control = (case control of Lex \<Rightarrow> Lex | Dispatch q \<Rightarrow> Dispatch q
     | Out_Of_Memory \<Rightarrow> Out_Of_Memory | Done ended \<Rightarrow> Done (erase_end ended))"

definition erase_config :: "('p, 'v, 's) TFParser \<times> TFToken \<times> 'v control \<Rightarrow> (unit, unit, 's) TFParser \<times> TFToken \<times> unit control" where
  "erase_config = map_prod erase (map_prod id erase_control)"

lemma erase_config_simps [simp]:
  "erase_config (self, token, control) = (erase self, token, erase_control control)"
  "erase_control Lex = Lex" "erase_control (Dispatch q) = Dispatch q" "erase_control Out_Of_Memory = Out_Of_Memory"
  "erase_control (Done ended) = Done (erase_end ended)"
  "erase_end (Parsed v) = Parsed None" "erase_end Failed = Failed" "erase_end (Fault f) = Fault f"
  by (simp_all add: erase_config_def erase_control_def erase_end_def)

lemma unexpected_erase: "unexpected state token (erase self) = erase_config (unexpected state token self)"
  by (cases "tf_parser_fail_unexpected state token self")
     (simp add: unexpected_def fail_unexpected_erase split: op_end.split)

lemma after_op_erase: "erase_control (after_op control e) = after_op (erase_control control) e"
  by (cases e) (simp_all add: after_op_def)

lemma lex_erase: "tf_parser_lex token (erase self) = map_option erase_config (tf_parser_lex token self)"
proof (cases "tf_lexer_next (top_state self) (ps_lexer self)")
  case (Some lr)
  then show ?thesis
    by (cases lr; cases "snd lr") (simp_all add: tf_parser_lex_def Let_def flip: erase_update)
qed (simp add: tf_parser_lex_def Let_def)

lemma act_erase: "tf_parser_act mem state token action (erase self) = erase_config (tf_parser_act mem state token action self)"
proof (cases action)
  case (Shift s extra r)
  then show ?thesis
    by (cases "tf_parser_shift mem token extra (if extra then state else s) self")
       (simp add: tf_parser_act_def shift_erase after_op_erase)
next
  case (Reduce n symbol dyn pid)
  then show ?thesis
    by (cases "tf_parser_reduce mem symbol (ucast n) pid (Some token) self")
       (simp add: tf_parser_act_def reduce_erase after_op_erase)
next
  case Accept
  then show ?thesis by (simp add: tf_parser_act_def ps_depth_def)
next
  case Recover
  then show ?thesis by (simp add: tf_parser_act_def unexpected_erase)
qed

text \<open>What resolves a conflict must not look at the consumer either.\<close>

definition split_erases :: "('p, 'v, 's) splitter \<Rightarrow> (unit, unit, 's) splitter \<Rightarrow> bool" where
  "split_erases split split' \<longleftrightarrow>
     (\<forall>token self. split' token (erase self) = map_option (map_prod erase id) (split token self))"

lemma dispatch_erase:
  assumes "split_erases split split'"
  shows "tf_parser_dispatch mem split' state token (erase self) =
    map_option erase_config (tf_parser_dispatch mem split state token self)"
proof -
  have conflict: "map_option (\<lambda>(self, ended). case ended of
                Split_Ok token \<Rightarrow> (self, token, Dispatch (top_state self))
              | Split_Failed \<Rightarrow> (self, token, Done Failed)
              | Split_Fault f \<Rightarrow> (self, token, Done (Fault f))) (split' token (erase self)) =
     map_option erase_config (map_option (\<lambda>(self, ended). case ended of
                Split_Ok token \<Rightarrow> (self, token, Dispatch (top_state self))
              | Split_Failed \<Rightarrow> (self, token, Done Failed)
              | Split_Fault f \<Rightarrow> (self, token, Done (Fault f))) (split token self))"
    using assms by (cases "split token self") (auto simp: split_erases_def split: split_end.split)
  consider "tf_actions (ps_lang self) state (tok_symbol token) = []"
    | action where "tf_actions (ps_lang self) state (tok_symbol token) = [action]"
    | a b rest where "tf_actions (ps_lang self) state (tok_symbol token) = a # b # rest"
    by (metis list.exhaust)
  then show ?thesis
    by cases (simp_all add: tf_parser_dispatch_def act_erase unexpected_erase conflict split: option.split)
qed

lemma step_erase:
  assumes "split_erases split split'"
  shows "parser_step mem split' (erase_config x) y' \<longleftrightarrow> (\<exists>y. parser_step mem split x y \<and> y' = erase_config y)"
proof -
  obtain self token control where x: "x = (self, token, control)" by (cases x)
  show ?thesis
    by (cases control)
       (auto simp: x lex_erase [of token self] dispatch_erase [OF assms] simp del: split_paired_Ex)
qed

lemma ends_erase:
  assumes "split_erases split split'" and "parser_ends mem split x r"
  shows "parser_ends mem split' (erase_config x) (map_prod erase erase_end r)"
  using assms(2)
proof (induction rule: parser_ends.induct)
  case (ends_done self token ended)
  then show ?case by (simp add: parser_ends.ends_done)
next
  case (ends_oom self token)
  then show ?case using parser_ends.ends_oom [of mem split' "erase self" token] by simp
next
  case (ends_step x y r)
  then show ?case using step_erase [OF assms(1)] parser_ends.ends_step by blast
qed

lemma ends_unerase:
  assumes "split_erases split split'" and "parser_ends mem split' x' r'" and "x' = erase_config x"
  shows "\<exists>r. parser_ends mem split x r"
  using assms(2,3)
proof (induction arbitrary: x rule: parser_ends.induct)
  case (ends_done self token ended)
  obtain s t c where "x = (s, t, c)" by (cases x)
  then show ?case using ends_done parser_ends.ends_done by (cases c) fastforce+
next
  case (ends_oom self token)
  obtain s t c where "x = (s, t, c)" by (cases x)
  then show ?case using ends_oom parser_ends.ends_oom by (cases c) fastforce+
next
  case (ends_step x' y' r')
  then obtain y where "parser_step mem split x y" "y' = erase_config y"
    using step_erase [OF assms(1)] by blast
  then show ?case using ends_step(3) parser_ends.ends_step by blast
qed

lemma loop_erase:
  assumes "split_erases split split'"
  shows "tf_parser_loop mem split' (erase_config x) = map_option (map_prod erase erase_end) (tf_parser_loop mem split x)"
proof (cases "tf_parser_loop mem split x")
  case (Some r)
  then show ?thesis using ends_loop [OF ends_erase [OF assms loop_ends [OF Some]]] by simp
next
  case None
  have "tf_parser_loop mem split' (erase_config x) = None"
  proof (rule ccontr)
    assume "tf_parser_loop mem split' (erase_config x) \<noteq> None"
    then obtain r' where "tf_parser_loop mem split' (erase_config x) = Some r'" by blast
    from ends_unerase [OF assms loop_ends [OF this] refl] show False using None ends_loop by fastforce
  qed
  then show ?thesis using None by simp
qed

lemma discard_no_sink [simp]: "discard_values no_sink nodes p = p"
  by (simp add: discard_values_def no_sink_def)

lemma run_erase:
  assumes "split_erases split split'"
  shows "tf_parser_run mem split' lang source sz None want () =
    map_option (\<lambda>(p, err, ended). ((), err, erase_end ended)) (tf_parser_run mem split lang source sz sink want p0)"
proof -
  define init where "init = \<lparr>ps_lang = lang, ps_lexer = tf_lexer_init lang source (ucast sz),
                 ps_sink = (case sink of Some s \<Rightarrow> s | None \<Rightarrow> no_sink), ps_payload = p0,
                 ps_states = [], ps_nodes = [], ps_capacity = 0, ps_leading = 0,
                 ps_root_emitted = False, ps_error = (if want then Some zero_error else None),
                 ps_split_count = 0, ps_spec = (None :: 'c option)\<rparr>"
  have init: "erase init = \<lparr>ps_lang = lang, ps_lexer = tf_lexer_init lang source (ucast sz),
                 ps_sink = no_sink, ps_payload = (),
                 ps_states = [], ps_nodes = [], ps_capacity = 0, ps_leading = 0,
                 ps_root_emitted = False, ps_error = (if want then Some zero_error else None),
                 ps_split_count = 0, ps_spec = None\<rparr>"
    by (simp add: erase_def init_def)
  obtain s ok where grow: "tf_parser_grow mem 64 init = (s, ok)" by fastforce
  note loop = loop_erase [OF assms, of mem "(s\<lparr>ps_states := [1]\<rparr>, zero_token, Lex)"]
    loop_erase [OF assms, of mem "(s, zero_token, Out_Of_Memory)"]
  show ?thesis
    unfolding tf_parser_run_def option.case init [symmetric] init_def [symmetric] Let_def grow_erase grow
    using loop by (auto simp: option.map_comp comp_def split_def erase_end_def init_def fail_erase split: run_end.split
        intro!: map_option_cong)
qed

end
