(* ===== verification/Parser_Props.thy ===== *)
theory Parser_Props
  imports Tree Ledger Demo_Run Parser_Halt Parser_Error Erase
begin

text \<open>
  What a parse guarantees its consumer, each with the demonstration grammar as its witness.
\<close>

section \<open>The demonstration grammar\<close>

text \<open>Its tables, as the accessors give them; the certificates are evaluated over these.\<close>

lemma demo_lists:
  "all_states demo_lang = [0, 1, 2, 3, 4, 5, 6, 7, 8, 9]" "all_tokens demo_lang = [0, 1, 2, 3, 4]"
  "nonterminals demo_lang = [5, 6, 7]"
  by code_simp+

lemma demo_rows:
  "map (\<lambda>q. map (tf_actions demo_lang q) [0, 1, 2, 3, 4]) [0, 1, 2, 3, 4, 5, 6, 7, 8, 9] =
  [[[], [], [], [], []],
   [[], [Shift 2 False False], [Shift 3 False False], [], [Shift 0 True False]],
   [[Reduce 1 6 0 0], [Reduce 1 6 0 0], [Reduce 1 6 0 0], [Reduce 1 6 0 0], [Shift 0 True False]],
   [[], [Shift 2 False False], [Shift 3 False False], [], [Shift 0 True False]],
   [[Accept], [], [], [], [Shift 0 True False]],
   [[Reduce 1 5 0 0], [Shift 2 False False], [Shift 3 False False], [], [Shift 0 True False]],
   [[Reduce 1 7 0 0], [Reduce 1 7 0 0], [Reduce 1 7 0 0], [], [Shift 0 True False]],
   [[], [], [], [Shift 9 False False], [Shift 0 True False]],
   [[Reduce 2 7 0 0], [Reduce 2 7 0 0], [Reduce 2 7 0 0], [], [Shift 0 True False]],
   [[Reduce 3 6 0 1], [Reduce 3 6 0 1], [Reduce 3 6 0 1], [Reduce 3 6 0 1], [Shift 0 True False]]]"
  by code_simp

lemma demo_goto_rows:
  "map (\<lambda>q. map (tf_next_state demo_lang q) [5, 6, 7]) [0, 1, 2, 3, 4, 5, 6, 7, 8, 9] =
   [[0, 0, 0], [4, 6, 5], [0, 0, 0], [0, 7, 0], [0, 0, 0], [0, 8, 0], [0, 0, 0], [0, 0, 0], [0, 0, 0], [0, 0, 0]]"
  by code_simp

lemmas demo_table = demo_lists demo_rows [simplified] demo_goto_rows [simplified]

lemma demo_succs:
  "map (succs demo_lang) [0, 1, 2, 3, 4, 5, 6, 7, 8, 9] =
   [[], [2, 3, 4, 6, 5], [], [2, 3, 7], [], [2, 3, 8], [], [9], [], []]"
  by (simp add: succs_def shifts_of_def demo_table)

lemma demo_preds:
  "map (preds demo_lang) [0, 1, 2, 3, 4, 5, 6, 7, 8, 9] =
   [[], [], [1, 3, 5], [1, 3, 5], [1], [1], [1], [3], [5], [7]]"
  by (simp add: preds_def demo_table demo_succs [simplified])

lemma demo_tables_ok: "tables_ok demo_lang"
proof -
  have "list_all (\<lambda>q. list_all (\<lambda>a. unat (tf_next_state demo_lang (of_nat q) (of_nat a)) < 10) [0..<8]) [0..<10]"
    by code_simp
  then show ?thesis
    by (simp add: tables_ok_def upt_rec demo_table action_ok_def demo_lang_arrays)
qed

lemma demo_certificates:
  "lr_tables demo_lang" "conflict_free demo_lang"
  "reduce_ranked demo_lang 4 (\<lambda>t q. if q = 2 then 3 else if q = 6 then 2 else if q = 5 then 1 else 0)"
  by (simp_all add: lr_tables_def lr_state_def lr_action_def conflict_free_def reduce_ranked_def
      demo_table demo_succs [simplified] demo_preds [simplified] demo_lang_arrays back_all_numeral)

lemma demo_lexes_tokens: "lexes_tokens demo_lang"
  by (simp add: lexes_tokens_def accepts_only_def demo_lex_def demo_keyword_lex_def)

text \<open>Its tables have no conflict, so nothing is asked of the resolution of one.\<close>

definition no_split :: "('p, 'v, unit) splitter" where
  "no_split = (\<lambda>_ _. None)"

lemma no_split_contract: "split_contract mem lang source no_split"
  by (simp add: split_contract_def no_split_def)

lemma demo_size: "unat (7 :: u64) = length demo_source"
  by (simp add: demo_source_def)

lemmas demo_hyps = demo_size demo_tables_ok demo_lexes_tokens no_split_contract

section \<open>The tree\<close>



section \<open>Ownership\<close>



section \<open>Safety\<close>

text \<open>
  C18: on tables with an LR certificate and no conflict, and with an allocator that does not
  grant \<^verbatim>\<open>UINT32_MAX\<close> cells, the driver never reads below its stack, never writes past it, never
  prints an unset buffer, and its assertion on the root holds.
\<close>

theorem parse_no_fault:
  assumes "tf_parser_run mem split lang source sz sink want p0 = Some (p, err, ended)"
    and "unat sz = length source" and "tables_ok lang" and "lexes_tokens lang"
    and "lr_tables lang" and "conflict_free lang" and "bounded mem"
  shows "\<exists>v. ended = Parsed v \<or> ended = Failed"
  using run_no_fault [OF assms] by (cases ended) auto

lemma demo_bounded: "bounded demo_mem"
  by (simp add: bounded_def demo_mem_def)

theorem parse_no_fault_witness:
  "\<exists>p err v. tf_parser_run demo_mem no_split demo_lang demo_source 7 (Some ledger_sink) False new_ledger =
     Some (p, err, Parsed v) \<and> (\<exists>u. Parsed v = Parsed u \<or> Parsed v = Failed)"
proof -
  obtain l v where events: "demo_events ledger_sink new_ledger = (l, v)" by fastforce
  note run = demo_run [OF events, of no_split False]
  from parse_no_fault [OF run demo_size demo_tables_ok demo_lexes_tokens demo_certificates(1,2) demo_bounded]
  show ?thesis using run by blast
qed

text \<open>
  C19: on such tables, when the lex functions and the reductions make progress, every parse
  returns, whatever the input.
\<close>

theorem parse_returns:
  assumes "unat sz = length source" and "tables_ok lang" and "lexes_tokens lang"
    and "lr_tables lang" and "conflict_free lang" and "bounded mem"
    and "lex_certificate lang rank kw_rank fresh" and "reduce_ranked lang cost state_rank"
  shows "\<exists>r. tf_parser_run mem split lang source sz sink want p0 = Some r"
  using assms by (rule run_returns)

lemma demo_lex_certificate:
  "lex_certificate demo_lang (\<lambda>s. if s = 0 then 1 else 0) (\<lambda>s. if s = 0 then 1 else 0) (\<lambda>s. s = 0 \<or> s = 1)"
proof -
  have "lex_progress (\<lambda>s. s = 0 \<or> s = 1) demo_lex"
    unfolding lex_progress_def demo_lex_def by (auto simp: is_letter_def)
  then show ?thesis using demo_ranks by (simp add: lex_certificate_def tf_lex_mode_def)
qed

theorem parse_returns_witness:
  "\<exists>r. tf_parser_run demo_mem no_split demo_lang [40, 40, 35] 3 (Some tree_sink) True [] = Some r"
  by (rule parse_returns [OF _ demo_tables_ok demo_lexes_tokens demo_certificates(1,2) demo_bounded
        demo_lex_certificate demo_certificates(3)]) simp



section \<open>The stack\<close>



text \<open>
  C23: a reduction reads below the bottom of the stack exactly when the stack has fewer cells
  that are no extras than the production has children.
\<close>

theorem reduce_underflow_iff:
  "(\<exists>self'. tf_parser_reduce mem symbol child_count production_id lookahead self = (self', Op_Fault Stack_Underflow)) \<longleftrightarrow>
     length (filter (\<lambda>n. \<not> nd_extra n) (ps_nodes self)) < unat child_count"
  unfolding structural_def [symmetric]
proof
  assume "\<exists>self'. tf_parser_reduce mem symbol child_count production_id lookahead self = (self', Op_Fault Stack_Underflow)"
  then obtain self' where "tf_parser_reduce mem symbol child_count production_id lookahead self = (self', Op_Fault Stack_Underflow)"
    by blast
  then show "structural (ps_nodes self) < unat child_count" by (rule reduce_not_Ok) simp_all
next
  assume "structural (ps_nodes self) < unat child_count"
  then show "\<exists>self'. tf_parser_reduce mem symbol child_count production_id lookahead self = (self', Op_Fault Stack_Underflow)"
    using reduce_scan_None [of "ps_nodes self" "unat child_count"] by (simp add: tf_parser_reduce_def)
qed

text \<open>
  C24: a growth that succeeds holds what was asked for, at a power of two times the old
  capacity, or 64, less than twice what was needed unless the first try was enough, and capped at
  \<^verbatim>\<open>UINT32_MAX\<close>.
\<close>

theorem grow_doubles:
  assumes "tf_parser_grow mem needed self = (self', True)" and "ps_capacity self < needed"
  shows "needed \<le> ps_capacity self' \<and>
    (ps_capacity self' = UINT32_MAX \<or>
     (\<exists>k. unat (ps_capacity self') = (if ps_capacity self \<noteq> 0 then unat (ps_capacity self) else 64) * 2 ^ k \<and>
        (k = 0 \<or> unat (ps_capacity self') < 2 * unat needed)))"
proof -
  define g where "g = grow_capacity (ps_capacity self) needed"
  have enough: "needed \<le> ps_capacity self'" using grow_shape [OF assms(1)] by auto
  have self': "self' = self\<lparr>ps_capacity := ucast (if g > ucast UINT32_MAX then ucast UINT32_MAX else g)\<rparr>"
    using assms by (auto simp: tf_parser_grow_def Let_def g_def not_le split: if_split_asm)
  show ?thesis
  proof (cases "g > ucast UINT32_MAX")
    case True
    then show ?thesis using enough self' by simp
  next
    case False
    then have "g \<le> ucast UINT32_MAX" by (simp add: not_less)
    then have "unat g < 2 ^ 32" by (simp add: word_le_nat_alt)
    then have cap: "unat (ps_capacity self') = unat g"
      using False by (simp add: self' unsigned_ucast_eq take_bit_nat_eq_self)
    obtain k where k: "unat g = (if ps_capacity self \<noteq> 0 then unat (ps_capacity self) else 64) * 2 ^ k"
      "k = 0 \<or> (if ps_capacity self \<noteq> 0 then unat (ps_capacity self) else 64) * 2 ^ (k - 1) < unat needed"
      unfolding g_def by (rule grow_capacity_doubles [of "ps_capacity self" needed])
    have "k = 0 \<or> unat (ps_capacity self') < 2 * unat needed"
    proof (cases k)
      case (Suc m)
      then show ?thesis using k(2) by (simp add: cap k(1))
    qed simp
    then show ?thesis using enough cap k(1) by auto
  qed
qed

theorem grow_doubles_witness:
  "\<exists>self' :: (unit, unit, unit) TFParser.
     tf_parser_grow demo_mem 65 (demo_parser (demo_lexer 40 0 0 0 0 False 0) no_sink () [1] [] False False) = (self', True) \<and>
     65 \<le> ps_capacity self'"
proof -
  let ?self = "demo_parser (demo_lexer 40 0 0 0 0 False 0) no_sink () [1] [] False False :: (unit, unit, unit) TFParser"
  have "grow_capacity 64 65 = 128" by (simp add: grow_capacity_def while_unfold)
  then have grow: "tf_parser_grow demo_mem 65 ?self = (?self\<lparr>ps_capacity := 128\<rparr>, True)"
    by (simp add: tf_parser_grow_def demo_mem_def Let_def)
  show ?thesis using grow_doubles [OF grow] grow by auto
qed


lemma demo_starts:
  "starts demo_lang demo_source (Some sink) want p
     (demo_parser (demo_lexer 40 0 0 0 0 False 0) sink p [1] [] False want :: ('p, 'v, 's) TFParser)"
proof -
  have "unat (7 :: u32) = length demo_source" by (simp add: demo_source_def)
  from lexer_pos_init [OF this, of demo_lang]
  have "lexer_pos demo_lang demo_source (demo_lexer 40 0 0 0 0 False 0)" by (simp only: demo_lexer_init)
  then show ?thesis
    by (simp add: starts_def loop_inv_def at_heads_def stack_wf_def stack_end_def)
qed


section \<open>Errors\<close>


lemma demo_names:
  "expected_names demo_lang 1 [0, 1, 2, 3, 4] = [''identifier'', ''('', ''comment'']"
  by (simp add: expected_names_def demo_table tf_parser_symbol_name_def tf_language_symbol_name_def demo_def tab_def
      ts_builtin_sym_end_def)


text \<open>The empty text ends where the grammar wants an item.\<close>

definition end_lexer :: "u32 \<Rightarrow> TSStateId \<Rightarrow> TFLexer" where
  "end_lexer end state = \<lparr>lx_lookahead = 0, lx_result_symbol = 0, lx_lang = demo_lang, lx_source = [], lx_size = 0, lx_byte = 0, lx_point = zero_point,
   lx_lookahead_size = 1, token_start_byte = 0, token_start_point = zero_point,
      token_end_byte = end, token_end_point = zero_point,
      token_is_keyword = False, token_lex_state = state\<rparr>"

lemma end_lexer_sel [simp]:
  "lx_lang (end_lexer e q) = demo_lang" "lx_byte (end_lexer e q) = 0" "lx_point (end_lexer e q) = zero_point" "\<not> token_is_keyword (end_lexer e q)"
  "end_lexer e q\<lparr>token_is_keyword := False, token_lex_state := q'\<rparr> = end_lexer e q'"
  "tf_lexer_seek 0 zero_point (end_lexer e q) = end_lexer e q"
  "lexed_token (end_lexer 0 q) = demo_token 0 0 0"
  by (simp_all add: end_lexer_def tf_lexer_seek_def tf_lexer_get_lookahead_def lexed_token_def demo_token_def at_column_def zero_point_def)

lemma empty_init: "tf_lexer_init demo_lang [] 0 = end_lexer 0 0"
  by (simp add: tf_lexer_init_def tf_lexer_get_lookahead_def end_lexer_def)

lemma empty_scan: "tf_lexer_scan demo_lex 0 (end_lexer e q) = Some (True, end_lexer 0 q)"
  by (simp add: end_lexer_def demo_scanning lex_run_moves tf_lexer_start_def tf_lexer_mark_end_def tf_lexer_advance_def zero_point_def
   del: map_option_eq_Some)

lemma empty_lexes: "tf_lexer_next 1 (end_lexer 0 0) = Some (end_lexer 0 1, Some (demo_token 0 0 0))"
  by (simp add: tf_lexer_next_def tf_lex_mode_def Let_def empty_scan at_column_def zero_point_def [symmetric])

lemma empty_fails:
  "\<exists>e. unexpected 1 (demo_token 0 0 0) (demo_parser l sink p sts ns r True) =
     (demo_parser l sink p sts ns r True\<lparr>ps_error := Some e\<rparr>, demo_token 0 0 0, Done Failed) \<and> er_byte e = 0"
proof -
  obtain expected where "tf_parser_describe_expected demo_lang 1 (TF_ERROR_MESSAGE_SIZE div 2) = Some expected"
    using describe_expected_Some [of 1 demo_lang 1] by (auto simp: demo_table)
  then show ?thesis
    by (simp only: unexpected_def tf_parser_fail_unexpected_def tf_parser_fail_def demo_parser_sel if_True prod.case option.case Let_def)
       (auto simp: demo_token_def)
qed

lemma empty_run:
  "\<exists>e. tf_parser_run demo_mem (split :: ('p, 'v, 's) splitter) demo_lang [] 0 (Some sink) True p =
     Some (discard_values sink [] p, Some e, Failed) \<and> er_byte e = 0"
proof -
  let ?self = "demo_parser (end_lexer 0 1) sink p [1] [] False True :: ('p, 'v, 's) TFParser"
  obtain e where fails: "unexpected 1 (demo_token 0 0 0) ?self =
      (?self\<lparr>ps_error := Some e\<rparr>, demo_token 0 0 0, Done Failed)" and e: "er_byte e = 0"
    using empty_fails [of "end_lexer 0 1" sink p "[1]" "[]" False] by (elim exE conjE)
  have grow: "grow_capacity 0 64 = 64" by (simp add: grow_capacity_def while_unfold)
  have "tf_parser_run demo_mem split demo_lang [] 0 (Some sink) True p =
     map_option (\<lambda>(self, ended).
       (case ended of Failed \<Rightarrow> discard_values (ps_sink self) (ps_nodes self) (ps_payload self)
        | _ \<Rightarrow> ps_payload self, ps_error self, ended))
       (tf_parser_loop demo_mem split
         (demo_parser (end_lexer 0 0) sink p [1] [] False True, zero_token, Lex))"
    by (simp add: tf_parser_run_def Let_def empty_init tf_parser_grow_def demo_parser_def demo_mem_def grow)
  also have "tf_parser_loop demo_mem split (demo_parser (end_lexer 0 0) sink p [1] [] False True, zero_token, Lex) =
    tf_parser_loop demo_mem split (?self, demo_token 0 0 0, Dispatch 1)"
    by (simp add: demo_lex_step empty_lexes)
  also have "\<dots> = tf_parser_loop demo_mem split (unexpected 1 (demo_token 0 0 0) ?self)"
    by (simp add: tf_parser_loop.simps [of _ _ "(_, _, Dispatch _)"] tf_parser_dispatch_def demo_table
       tf_parser_demote_keyword_def)
  finally show ?thesis
    using e by (simp add: fails tf_parser_loop.simps [of _ _ "(_, _, Done _)"])
qed



text \<open>
  C33: when a shift runs out of memory the consumer has been called and its value is in no
  cell of the stack, so that nothing hands it back.
\<close>

theorem shift_oom_loses:
  assumes "tf_parser_shift mem token extra state self = (self', Op_Oom)"
  shows "ps_payload self' = fst (tf_parser_emit_shift (ps_sink self) (ps_payload self) token extra) \<and>
    ps_nodes self' = ps_nodes self"
proof -
  obtain p v where emit: "tf_parser_emit_shift (ps_sink self) (ps_payload self) token extra = (p, v)" by fastforce
  then obtain s where push: "tf_parser_push mem (token_node token extra v) state s = (self', Op_Oom)"
    and s: "ps_payload s = p"
    using assms by (auto simp: tf_parser_shift_def Let_def split: if_split_asm)
  from push have "ps_payload self' = p" by (rule push_cases) (simp_all add: s)
  then show ?thesis using shift_not_Ok(2) [OF assms] emit by simp
qed

text \<open>The ledger has given out value 0 by then, and the stack is still empty.\<close>

theorem shift_oom_loses_witness:
  "\<exists>self' :: (ledger, nat, unit) TFParser.
     tf_parser_shift (\<lambda>_ _. False) (demo_token 2 0 1) False 3
       (demo_parser (demo_lexer 97 2 1 0 1 False 1) ledger_sink new_ledger [1] [] False False\<lparr>ps_capacity := 0\<rparr>)
       = (self', Op_Oom) \<and> issued (ps_payload self') = 1 \<and> ps_nodes self' = []"
proof -
  let ?self = "demo_parser (demo_lexer 97 2 1 0 1 False 1) ledger_sink new_ledger [1] [] False False\<lparr>ps_capacity := 0\<rparr>
    :: (ledger, nat, unit) TFParser"
  obtain self' where shift: "tf_parser_shift (\<lambda>_ _. False) (demo_token 2 0 1) False 3 ?self = (self', Op_Oom)"
    by (simp add: tf_parser_shift_def tf_parser_push_def tf_parser_grow_def Let_def ps_depth_def)
  from shift_oom_loses [OF shift] show ?thesis using shift by (simp add: new_ledger_def)
qed

end
