(* ===== verification/Visible.thy ===== *)
theory Visible
  imports Parser
begin

text \<open>
  The visible-node filter (\<^verbatim>\<open>tf_visible.c\<close>): a consumer of the driver that applies tree-sitter's
  visibility, alias and field rules and forwards what survives to a consumer of its own. The
  settled children of every cell lie in one arena, the cell remembers only how many.
\<close>

section \<open>Data\<close>

text \<open>\<open>'c\<close> is the type of the values the visible consumer returns; \<open>None\<close> is \<^verbatim>\<open>NULL\<close>.\<close>

record 'c TFVisibleChild =
  ch_symbol :: TSSymbol
  ch_field_id :: TSFieldId
  ch_extra :: bool
  ch_value :: "'c option"

text \<open>\<open>vn_children\<close> is the run of \<^verbatim>\<open>child_count\<close> entries that \<^verbatim>\<open>children\<close> points to.\<close>

record 'c TFVisibleNode =
  vn_symbol :: TSSymbol
  vn_production_id :: u16
  vn_named :: bool
  vn_extra :: bool
  vn_start_byte :: u32
  vn_end_byte :: u32
  vn_start_point :: TFPoint
  vn_end_point :: TFPoint
  vn_child_count :: u32
  vn_children :: "'c TFVisibleChild list"

text \<open>The visible consumer: callbacks over its payload \<open>'q\<close>, as in \<open>TFSink\<close>.\<close>

record ('q, 'c) TFVisibleSink =
  vs_on_node :: "('q \<Rightarrow> 'c TFVisibleNode \<Rightarrow> 'q \<times> 'c option) option"
  vs_on_discard :: "('q \<Rightarrow> 'c \<Rightarrow> 'q) option"
  vs_on_hidden :: "('q \<Rightarrow> 'c TFVisibleNode \<Rightarrow> 'q \<times> 'c option) option"
  vs_named_only :: bool

record TFVisibleCell =
  vc_children :: u32
  vc_production :: u16

text \<open>
  What the driver stores for the filter: the bits of a packed cell, or the value of the visible
  consumer for the root.
\<close>

datatype 'c pointer = Packed u64 | Consumer 'c

text \<open>
  \<open>fl_arena\<close> holds the \<^verbatim>\<open>arena_len\<close> live entries, bottom first. The contents of \<^verbatim>\<open>scratch\<close> do not
  outlive a reduction. \<open>fl_fault\<close> records behaviour the C standard does not define: reading a
  value of the consumer as a cell, an entry below the arena, or writing past a capacity.
\<close>

record ('q, 'c) TFFilter =
  fl_lang :: TFLanguage
  fl_sink :: "('q, 'c) TFVisibleSink"
  fl_payload :: 'q
  fl_arena :: "'c TFVisibleChild list"
  fl_arena_capacity :: u32
  fl_scratch_capacity :: u32
  fl_declined :: "bool list option"
  fl_failed :: bool
  fl_fault :: bool

section \<open>Cells\<close>

text \<open>The packed cells of a 64-bit target.\<close>

definition tf_filter_cell :: "'c pointer option \<Rightarrow> TFVisibleCell" where
  "tf_filter_cell value =
    (let packed = (case value of Some (Packed w) \<Rightarrow> w | _ \<Rightarrow> 0)
     in \<lparr>vc_children = ucast (drop_bit 17 packed), vc_production = ucast (drop_bit 1 packed AND 0xFFFF)\<rparr>)"

definition tf_filter_store_cell :: "u32 \<Rightarrow> u16 \<Rightarrow> 'c pointer option" where
  "tf_filter_store_cell children production =
     Some (Packed (push_bit 17 (ucast children) OR push_bit 1 (ucast production) OR 1))"

text \<open>
  The other targets keep the cells in an array of their own and store an index, from one. \<open>None\<close>
  from the store is \<^verbatim>\<open>NULL\<close> with \<^verbatim>\<open>failed\<close> set; \<^verbatim>\<open>sizeof(TFVisibleCell)\<close> is 8 and \<^verbatim>\<open>SIZE_MAX\<close> is
  that of a 32-bit target.
\<close>

record TFCellArena =
  ca_cells :: "TFVisibleCell list"
  ca_capacity :: u32

definition tf_filter_indexed_cell :: "TFCellArena \<Rightarrow> nat option \<Rightarrow> TFVisibleCell" where
  "tf_filter_indexed_cell self value =
    (let index = (case value of Some i \<Rightarrow> i | None \<Rightarrow> 0)
     in if index = 0 \<or> index > length (ca_cells self) then \<lparr>vc_children = 0, vc_production = 0\<rparr>
        else ca_cells self ! (index - 1))"

definition tf_filter_store_indexed_cell ::
  "allocator \<Rightarrow> u32 \<Rightarrow> u16 \<Rightarrow> TFCellArena \<Rightarrow> TFCellArena \<times> nat option" where
  "tf_filter_store_indexed_cell mem children production self =
    (if of_nat (length (ca_cells self)) = UINT32_MAX then (self, None)
     else
       let grown =
         (if of_nat (length (ca_cells self)) = ca_capacity self then
            let doubled = (if ca_capacity self \<noteq> 0 then ca_capacity self * 2 else 64);
                next = (if doubled < ca_capacity self then UINT32_MAX else doubled)
            in if unat next > unat UINT32_MAX div 8 then None
               else if \<not> mem A_filter_cells (unat next) then None
               else Some (self\<lparr>ca_capacity := next\<rparr>)
          else Some self)
       in case grown of
            None \<Rightarrow> (self, None)
          | Some self \<Rightarrow>
            let self = self\<lparr>ca_cells := ca_cells self @ [\<lparr>vc_children = children, vc_production = production\<rparr>]\<rparr>
            in (self, Some (length (ca_cells self))))"

section \<open>The arena\<close>

text \<open>The \<open>owns\<close> entries at \<open>position\<close>.\<close>

definition tf_filter_run :: "'c TFVisibleChild list \<Rightarrow> nat \<Rightarrow> nat \<Rightarrow> 'c TFVisibleChild list" where
  "tf_filter_run arena position owns = take owns (drop position arena)"

definition tf_filter_parent ::
  "('q, 'c) TFFilter \<Rightarrow> 'v TFReduction \<Rightarrow> bool \<Rightarrow> nat \<Rightarrow> 'c TFVisibleNode" where
  "tf_filter_parent self reduction named base =
    (let owned = length (fl_arena self) - base
     in \<lparr>vn_symbol = tf_public_symbol (fl_lang self) (rd_symbol reduction),
         vn_production_id = rd_production_id reduction, vn_named = named, vn_extra = False,
         vn_start_byte = rd_start_byte reduction, vn_end_byte = rd_end_byte reduction,
         vn_start_point = rd_start_point reduction, vn_end_point = rd_end_point reduction,
         vn_child_count = of_nat owned, vn_children = tf_filter_run (fl_arena self) base owned\<rparr>)"

text \<open>The new capacity, or \<open>None\<close> when memory is refused. The doubling is that of \<open>tf_parser_grow\<close>.\<close>

definition tf_filter_reserve :: "allocator \<Rightarrow> alloc_site \<Rightarrow> u32 \<Rightarrow> u32 \<Rightarrow> u32 option" where
  "tf_filter_reserve mem site capacity needed =
    (if needed \<le> capacity then Some capacity
     else
       let next = grow_capacity capacity needed;
           next = (if next > ucast UINT32_MAX then ucast UINT32_MAX else next)
       in if \<not> mem site (unat next) then None else Some (ucast next))"

section \<open>Shift\<close>

definition tf_filter_on_shift ::
  "('q, 'c) TFFilter \<Rightarrow> TFToken \<Rightarrow> bool \<Rightarrow> ('q, 'c) TFFilter \<times> 'c pointer option" where
  "tf_filter_on_shift self token extra = (self, tf_filter_store_cell 0 0)"

section \<open>Reduce\<close>

text \<open>What the production says of its child: the alias, and the field it fills.\<close>

definition child_alias :: "TFLanguage \<Rightarrow> u16 \<Rightarrow> 'v TFNode \<Rightarrow> nat \<Rightarrow> TSSymbol" where
  "child_alias lang production_id child structural =
    (case tf_alias_sequence lang (unat production_id) of
       Some alias_row \<Rightarrow> if \<not> nd_extra child then alias_row structural else 0
     | None \<Rightarrow> 0)"

definition child_field :: "TFLanguage \<Rightarrow> u16 \<Rightarrow> 'v TFNode \<Rightarrow> nat \<Rightarrow> TSFieldId" where
  "child_field lang production_id child structural =
    (let field_width = unat (field_at_width lang)
     in if field_width \<noteq> 0 \<and> \<not> nd_extra child \<and> structural < field_width
        then field_at lang ! (unat production_id * field_width + structural) else 0)"

definition child_visible :: "TFLanguage \<Rightarrow> u16 \<Rightarrow> 'v TFNode \<Rightarrow> nat \<Rightarrow> bool" where
  "child_visible lang production_id child structural \<longleftrightarrow>
     child_alias lang production_id child structural \<noteq> 0 \<or> md_visible (tf_symbol_metadata lang (nd_symbol child))"

definition child_named :: "TFLanguage \<Rightarrow> u16 \<Rightarrow> 'v TFNode \<Rightarrow> nat \<Rightarrow> bool" where
  "child_named lang production_id child structural =
    (let alias = child_alias lang production_id child structural
     in if alias \<noteq> 0 then md_named (tf_symbol_metadata lang alias)
        else md_named (tf_symbol_metadata lang (nd_symbol child)))"

definition next_structural :: "'v TFNode \<Rightarrow> nat \<Rightarrow> nat" where
  "next_structural child structural = (if \<not> nd_extra child then structural + 1 else structural)"

definition give_field :: "TSFieldId \<Rightarrow> 'c TFVisibleChild \<Rightarrow> 'c TFVisibleChild" where
  "give_field field entry =
     (if \<not> ch_extra entry \<and> ch_field_id entry = 0 then entry\<lparr>ch_field_id := field\<rparr> else entry)"

text \<open>The field of a hidden child, written over its \<open>owns\<close> entries where they lie.\<close>

definition field_run ::
  "TSFieldId \<Rightarrow> nat \<Rightarrow> nat \<Rightarrow> 'c TFVisibleChild list \<Rightarrow> 'c TFVisibleChild list" where
  "field_run field position owns arena =
     fold (\<lambda>i arena. arena[position + i := give_field field (arena ! (position + i))]) [0..<owns] arena"

text \<open>
  The leading run of hidden children, whose entries stay where they are: the children left,
  the structural index and the position reached, and the arena.
\<close>

fun hidden_loop ::
  "TFLanguage \<Rightarrow> u16 \<Rightarrow> 'c pointer TFNode list \<Rightarrow> nat \<Rightarrow> nat \<Rightarrow> 'c TFVisibleChild list
     \<Rightarrow> 'c pointer TFNode list \<times> nat \<times> nat \<times> 'c TFVisibleChild list" where
  "hidden_loop lang production_id [] structural position arena = ([], structural, position, arena)"
| "hidden_loop lang production_id (child # children) structural position arena =
    (let owns = unat (vc_children (tf_filter_cell (nd_value child)))
     in if child_visible lang production_id child structural then (child # children, structural, position, arena)
        else
          let field = child_field lang production_id child structural;
              arena = (if field \<noteq> 0 then field_run field position owns arena else arena)
          in hidden_loop lang production_id children (next_structural child structural) (position + owns) arena)"

text \<open>A visible child, as its parent's consumer is told of it.\<close>

definition visible_node ::
  "TFLanguage \<Rightarrow> u16 \<Rightarrow> 'v TFNode \<Rightarrow> nat \<Rightarrow> u16 \<Rightarrow> u32 \<Rightarrow> 'c TFVisibleChild list \<Rightarrow> 'c TFVisibleNode" where
  "visible_node lang production_id child structural production owns run =
    (let alias = child_alias lang production_id child structural
     in \<lparr>vn_symbol = tf_public_symbol lang (if alias \<noteq> 0 then alias else nd_symbol child),
         vn_production_id = production, vn_named = child_named lang production_id child structural,
         vn_extra = nd_extra child, vn_start_byte = nd_start_byte child, vn_end_byte = nd_end_byte child,
         vn_start_point = nd_start_point child, vn_end_point = nd_end_point child,
         vn_child_count = owns, vn_children = run\<rparr>)"

definition emit_node :: "('q, 'c) TFVisibleSink \<Rightarrow> 'q \<Rightarrow> 'c TFVisibleNode \<Rightarrow> 'q \<times> 'c option" where
  "emit_node sink payload node =
     (case vs_on_node sink of Some f \<Rightarrow> f payload node | None \<Rightarrow> (payload, None))"

text \<open>
  From the first visible child on: the entries go to scratch, where \<open>produced\<close> of them lie, and
  are read from the arena at \<open>position\<close>. \<open>None\<close> when the reduction is given up.
\<close>

fun scratch_loop ::
  "allocator \<Rightarrow> u16 \<Rightarrow> 'c pointer TFNode list \<Rightarrow> nat \<Rightarrow> nat \<Rightarrow> 'c TFVisibleChild list
     \<Rightarrow> ('q, 'c) TFFilter \<Rightarrow> ('q, 'c) TFFilter \<times> 'c TFVisibleChild list option" where
  "scratch_loop mem production_id [] structural position produced self = (self, Some produced)"
| "scratch_loop mem production_id (child # children) structural position produced self =
    (let lang = fl_lang self;
         cell = tf_filter_cell (nd_value child);
         owns = unat (vc_children cell);
         field = child_field lang production_id child structural;
         run = tf_filter_run (fl_arena self) position owns;
         next = next_structural child structural
     in if child_visible lang production_id child structural then
          if vs_named_only (fl_sink self) \<and> \<not> child_named lang production_id child structural \<and> field = 0 \<and> owns = 0
          then scratch_loop mem production_id children next position produced self
          else
            let node = visible_node lang production_id child structural (vc_production cell) (vc_children cell) run
            in case tf_filter_reserve mem A_filter_scratch (fl_scratch_capacity self) (of_nat (length produced + 1)) of
                 None \<Rightarrow> (self\<lparr>fl_failed := True\<rparr>, None)
               | Some capacity \<Rightarrow>
                 if \<not> length produced < unat capacity then (self\<lparr>fl_fault := True\<rparr>, None)
                 else
                   let (payload, value) = emit_node (fl_sink self) (fl_payload self) node;
                       entry = \<lparr>ch_symbol = vn_symbol node, ch_field_id = field, ch_extra = nd_extra child,
                                ch_value = value\<rparr>
                   in scratch_loop mem production_id children next (position + owns) (produced @ [entry])
                        (self\<lparr>fl_scratch_capacity := capacity, fl_payload := payload\<rparr>)
        else
          case tf_filter_reserve mem A_filter_scratch (fl_scratch_capacity self) (of_nat (length produced + owns)) of
            None \<Rightarrow> (self\<lparr>fl_failed := True\<rparr>, None)
          | Some capacity \<Rightarrow>
            if \<not> length produced + owns \<le> unat capacity then (self\<lparr>fl_fault := True\<rparr>, None)
            else
              let run = (if field \<noteq> 0 then map (give_field field) run else run)
              in scratch_loop mem production_id children next (position + owns) (produced @ run)
                   (self\<lparr>fl_scratch_capacity := capacity\<rparr>))"

text \<open>The copy back over the region that has been read: whether the arena could hold it.\<close>

definition copy_back ::
  "allocator \<Rightarrow> nat \<Rightarrow> 'c TFVisibleChild list \<Rightarrow> ('q, 'c) TFFilter \<Rightarrow> ('q, 'c) TFFilter \<times> bool" where
  "copy_back mem settled produced self =
    (if produced = [] then (self\<lparr>fl_arena := take settled (fl_arena self)\<rparr>, True)
     else
       case tf_filter_reserve mem A_filter_arena (fl_arena_capacity self) (of_nat (settled + length produced)) of
         None \<Rightarrow> (self\<lparr>fl_failed := True\<rparr>, False)
       | Some capacity \<Rightarrow>
         if \<not> settled + length produced \<le> unat capacity then (self\<lparr>fl_fault := True\<rparr>, False)
         else (self\<lparr>fl_arena_capacity := capacity, fl_arena := take settled (fl_arena self) @ produced\<rparr>, True))"

text \<open>Offering a hidden run of more than one entry to the consumer.\<close>

definition offer_hidden ::
  "allocator \<Rightarrow> 'v TFReduction \<Rightarrow> nat \<Rightarrow> ('q, 'c) TFFilter \<Rightarrow> ('q, 'c) TFFilter" where
  "offer_hidden mem reduction base self =
    (let symbol = unat (rd_symbol reduction);
         refused = (case fl_declined self of Some declined \<Rightarrow> declined ! symbol | None \<Rightarrow> False)
     in case vs_on_hidden (fl_sink self) of
          None \<Rightarrow> self
        | Some on_hidden \<Rightarrow>
          if length (fl_arena self) - base > 1 \<and> tf_foldable (fl_lang self) (rd_symbol reduction) \<and> \<not> refused then
            let node = tf_filter_parent self reduction False base;
                (payload, folded) = on_hidden (fl_payload self) node;
                self = self\<lparr>fl_payload := payload\<rparr>
            in case folded of
                 Some value \<Rightarrow>
                   self\<lparr>fl_arena := take base (fl_arena self) @
                     [\<lparr>ch_symbol = vn_symbol node, ch_field_id = 0, ch_extra = False, ch_value = Some value\<rparr>]\<rparr>
               | None \<Rightarrow>
                   let n = unat (symbol_count (ts (fl_lang self)));
                       declined = (case fl_declined self of
                                     Some d \<Rightarrow> Some d
                                   | None \<Rightarrow> if mem A_filter_declined n then Some (replicate n False) else None)
                   in self\<lparr>fl_declined := map_option (\<lambda>d. d[symbol := True]) declined\<rparr>
          else self)"

text \<open>The root is emitted on its own terms; it is the reduction whose last child is the end token.\<close>

definition is_root :: "'v TFReduction \<Rightarrow> bool" where
  "is_root reduction \<longleftrightarrow>
     rd_children reduction \<noteq> [] \<and> nd_symbol (last (rd_children reduction)) = ts_builtin_sym_end"

definition report_reduction ::
  "'v TFReduction \<Rightarrow> nat \<Rightarrow> ('q, 'c) TFFilter \<Rightarrow> ('q, 'c) TFFilter \<times> 'c pointer option" where
  "report_reduction reduction base self =
    (if is_root reduction then
       let metadata = tf_symbol_metadata (fl_lang self) (rd_symbol reduction)
       in if \<not> md_visible metadata then (self, None)
          else
            let (payload, value) = emit_node (fl_sink self) (fl_payload self)
                  (tf_filter_parent self reduction (md_named metadata) base)
            in (self\<lparr>fl_payload := payload\<rparr>, map_option Consumer value)
     else (self, tf_filter_store_cell (of_nat (length (fl_arena self) - base)) (rd_production_id reduction)))"

definition is_consumer :: "'c pointer option \<Rightarrow> bool" where
  "is_consumer value = (case value of Some (Consumer _) \<Rightarrow> True | _ \<Rightarrow> False)"

definition tf_filter_on_reduce ::
  "allocator \<Rightarrow> ('q, 'c) TFFilter \<Rightarrow> 'c pointer TFReduction \<Rightarrow> ('q, 'c) TFFilter \<times> 'c pointer option" where
  "tf_filter_on_reduce mem self reduction =
    (if fl_failed self then (self, None)
     else
       let children = rd_children reduction;
           production_id = rd_production_id reduction;
           total = sum_list (map (\<lambda>child. unat (vc_children (tf_filter_cell (nd_value child)))) children)
       in if list_ex (is_consumer \<circ> nd_value) children \<or> total > length (fl_arena self)
          then (self\<lparr>fl_fault := True\<rparr>, None)
          else
            let base = length (fl_arena self) - total;
                (rest, structural, settled, arena) =
                  hidden_loop (fl_lang self) production_id children 0 base (fl_arena self)
            in case scratch_loop mem production_id rest structural settled [] (self\<lparr>fl_arena := arena\<rparr>) of
                 (self, None) \<Rightarrow> (self, None)
               | (self, Some produced) \<Rightarrow>
                 let (self, ok) = copy_back mem settled produced self
                 in if \<not> ok then (self, None)
                    else report_reduction reduction base (offer_hidden mem reduction base self))"

section \<open>Parsing\<close>

definition filter_sink :: "allocator \<Rightarrow> (('q, 'c) TFFilter, 'c pointer) TFSink" where
  "filter_sink mem =
     \<lparr>on_shift = Some tf_filter_on_shift, on_reduce = Some (tf_filter_on_reduce mem), on_discard = None\<rparr>"

definition new_filter :: "TFLanguage \<Rightarrow> ('q, 'c) TFVisibleSink \<Rightarrow> 'q \<Rightarrow> ('q, 'c) TFFilter" where
  "new_filter lang sink payload =
     \<lparr>fl_lang = lang, fl_sink = sink, fl_payload = payload, fl_arena = [], fl_arena_capacity = 0,
      fl_scratch_capacity = 0, fl_declined = None, fl_failed = False, fl_fault = False\<rparr>"

definition no_visible_sink :: "('q, 'c) TFVisibleSink" where
  "no_visible_sink = \<lparr>vs_on_node = None, vs_on_discard = None, vs_on_hidden = None, vs_named_only = False\<rparr>"

text \<open>The entries of the arena that hold a value go back to the consumer, bottom first.\<close>

definition discard_entries :: "('q, 'c) TFVisibleSink \<Rightarrow> 'c TFVisibleChild list \<Rightarrow> 'q \<Rightarrow> 'q" where
  "discard_entries sink arena payload =
    (case vs_on_discard sink of None \<Rightarrow> payload
     | Some discard \<Rightarrow>
       fold (\<lambda>entry payload. case ch_value entry of None \<Rightarrow> payload | Some v \<Rightarrow> discard payload v) arena payload)"

text \<open>
  How a visible parse ends: with the root's value, with \<^verbatim>\<open>false\<close>, or in a fault of the driver or
  of the filter.
\<close>

datatype 'c visible_end = Visible "'c option" | Refused | Undefined

definition finish_visible ::
  "('q, 'c) TFFilter \<Rightarrow> TFError option \<Rightarrow> 'c pointer run_end \<Rightarrow> 'q \<times> TFError option \<times> 'c visible_end" where
  "finish_visible self err ended =
    (let raw = (case ended of
                  Parsed None \<Rightarrow> Visible None
                | Parsed (Some (Consumer v)) \<Rightarrow> Visible (Some v)
                | Parsed (Some (Packed _)) \<Rightarrow> Undefined
                | Failed \<Rightarrow> Refused
                | Fault _ \<Rightarrow> Undefined);
         starved = (fl_failed self \<and> (case ended of Parsed _ \<Rightarrow> True | _ \<Rightarrow> False));
         outcome = (if fl_fault self then Undefined else if starved then Refused else raw);
         err = (if starved
                then map_option (\<lambda>e. e\<lparr>er_message := print_at [] 0 TF_ERROR_MESSAGE_SIZE ''out of memory''\<rparr>) err
                else err);
         payload = (case outcome of Refused \<Rightarrow> discard_entries (fl_sink self) (fl_arena self) (fl_payload self)
                    | _ \<Rightarrow> fl_payload self)
     in (payload, err, outcome))"

definition tf_parse_visible ::
  "allocator \<Rightarrow> (('q, 'c) TFFilter, 'c pointer, 's) splitter \<Rightarrow> TFLanguage \<Rightarrow> u8 list \<Rightarrow> u64
     \<Rightarrow> ('q, 'c) TFVisibleSink option \<Rightarrow> bool \<Rightarrow> 'q \<Rightarrow> ('q \<times> TFError option \<times> 'c visible_end) option" where
  "tf_parse_visible mem split lang source sz sink want_error payload =
    map_option (\<lambda>(self, err, ended). finish_visible self err ended)
      (tf_parser_run mem split lang source sz (Some (filter_sink mem)) want_error
        (new_filter lang (case sink of Some s \<Rightarrow> s | None \<Rightarrow> no_visible_sink) payload))"

end
