(* ===== verification/Visible_Spec.thy ===== *)
theory Visible_Spec
  imports Visible Erase
begin

text \<open>
  What the filter does, without its arena: every cell of the stack owns a run of settled
  entries, and a reduction puts the runs of its children together. The arena algorithm is
  shown to compute that, in place.
\<close>

section \<open>The specification\<close>

text \<open>A cell of the stack, the production that built it and the run it owns.\<close>

record 'c settled_cell =
  st_node :: "unit TFNode"
  st_production :: u16
  st_run :: "'c TFVisibleChild list"

text \<open>
  The entries of the children from structural index \<open>s\<close> on: a hidden child gives its own run, its field
  filled in; a visible one an entry for what the consumer makes of it, unless it is left out.
\<close>

fun visible_run ::
  "('q, 'c) TFVisibleSink \<Rightarrow> TFLanguage \<Rightarrow> u16 \<Rightarrow> 'c settled_cell list \<Rightarrow> nat \<Rightarrow> 'q
     \<Rightarrow> 'q \<times> 'c TFVisibleChild list" where
  "visible_run sink lang production_id [] s q = (q, [])"
| "visible_run sink lang production_id (cell # cells) s q =
    (let child = st_node cell; run = st_run cell;
         field = child_field lang production_id child s;
         (q, entries) =
           (if \<not> child_visible lang production_id child s then (q, map (give_field field) run)
            else if vs_named_only sink \<and> \<not> child_named lang production_id child s \<and> field = 0 \<and> run = []
            then (q, [])
            else let node = visible_node lang production_id child s (st_production cell) (of_nat (length run)) run;
                     (q, value) = emit_node sink q node
                 in (q, [\<lparr>ch_symbol = vn_symbol node, ch_field_id = field, ch_extra = nd_extra child,
                          ch_value = value\<rparr>]));
         (q, rest) = visible_run sink lang production_id cells (next_structural child s) q
     in (q, entries @ rest))"

text \<open>The node of a reduction over the run it owns.\<close>

definition reduction_node :: "TFLanguage \<Rightarrow> unit TFReduction \<Rightarrow> bool \<Rightarrow> 'c TFVisibleChild list \<Rightarrow> 'c TFVisibleNode" where
  "reduction_node lang rd named run =
     \<lparr>vn_symbol = tf_public_symbol lang (rd_symbol rd), vn_production_id = rd_production_id rd,
      vn_named = named, vn_extra = False, vn_start_byte = rd_start_byte rd, vn_end_byte = rd_end_byte rd,
      vn_start_point = rd_start_point rd, vn_end_point = rd_end_point rd,
      vn_child_count = of_nat (length run), vn_children = run\<rparr>"

text \<open>
  The folding of a hidden run; a refusal is remembered, when there is memory to. \<open>declined\<close> is
  the set of symbols refused so far.
\<close>

definition fold_run ::
  "allocator \<Rightarrow> ('q, 'c) TFVisibleSink \<Rightarrow> TFLanguage \<Rightarrow> unit TFReduction \<Rightarrow> 'c TFVisibleChild list
     \<Rightarrow> 'q \<times> bool list option \<Rightarrow> ('q \<times> bool list option) \<times> 'c TFVisibleChild list" where
  "fold_run mem sink lang rd run = (\<lambda>(q, declined).
    (case vs_on_hidden sink of
       None \<Rightarrow> ((q, declined), run)
     | Some on_hidden \<Rightarrow>
       if length run > 1 \<and> tf_foldable lang (rd_symbol rd) \<and>
          \<not> (case declined of Some d \<Rightarrow> d ! unat (rd_symbol rd) | None \<Rightarrow> False)
       then (case on_hidden q (reduction_node lang rd False run) of
               (q, Some value) \<Rightarrow>
                 ((q, declined), [\<lparr>ch_symbol = tf_public_symbol lang (rd_symbol rd), ch_field_id = 0,
                                   ch_extra = False, ch_value = Some value\<rparr>])
             | (q, None) \<Rightarrow>
                 ((q, map_option (\<lambda>d. d[unat (rd_symbol rd) := True])
                    (case declined of Some d \<Rightarrow> Some d
                     | None \<Rightarrow> if mem A_filter_declined (unat (symbol_count (ts lang)))
                               then Some (replicate (unat (symbol_count (ts lang))) False) else None)), run))
       else ((q, declined), run)))"

text \<open>A reduction: the run its cell owns, and for the root what the consumer makes of it.\<close>

definition visible_reduce ::
  "allocator \<Rightarrow> ('q, 'c) TFVisibleSink \<Rightarrow> TFLanguage \<Rightarrow> unit TFReduction \<Rightarrow> 'c settled_cell list
     \<Rightarrow> 'q \<times> bool list option \<Rightarrow> ('q \<times> bool list option) \<times> 'c TFVisibleChild list \<times> 'c option" where
  "visible_reduce mem sink lang rd cells = (\<lambda>(q, declined).
    (let (q, run) = visible_run sink lang (rd_production_id rd) cells 0 q;
         ((q, declined), run) = fold_run mem sink lang rd run (q, declined);
         metadata = tf_symbol_metadata lang (rd_symbol rd)
     in if is_root rd \<and> md_visible metadata
        then let (q, value) = emit_node sink q (reduction_node lang rd (md_named metadata) run)
             in ((q, declined), run, value)
        else ((q, declined), run, None)))"

section \<open>Cells\<close>

lemma cell_fields:
  fixes children :: u32 and production :: u16
  defines "w \<equiv> push_bit 17 (ucast children) OR push_bit 1 (ucast production) OR (1 :: u64)"
  shows "ucast (drop_bit 17 w) = children" "ucast (drop_bit 1 w AND 0xFFFF) = production" "w \<noteq> 0"
proof -
  have mask: "(0xFFFF :: u64) = mask 16" by (simp add: mask_eq_exp_minus_1)
  have bits: "bit w n \<longleftrightarrow> n < 64 \<and> (n = 0 \<or> 1 \<le> n \<and> bit production (n - 1) \<or> 17 \<le> n \<and> bit children (n - 17))" for n
    unfolding w_def bit_or_iff bit_push_bit_iff bit_1_iff bit_ucast_iff by (auto dest: bit_imp_le_length)
  have narrow: "\<not> bit production (16 + n)" for n
    by (auto dest: bit_imp_le_length)
  show "ucast (drop_bit 17 w) = children"
    by (rule bit_word_eqI) (auto simp: bit_ucast_iff bit_drop_bit_eq bits narrow)
  show "ucast (drop_bit 1 w AND 0xFFFF) = production"
    unfolding mask by (rule bit_word_eqI) (auto simp: bit_ucast_iff bit_and_iff bit_drop_bit_eq bit_mask_iff bits)
  have "bit w 0" by (simp add: bits)
  then show "w \<noteq> 0" by auto
qed

lemma store_cell [simp]:
  "tf_filter_cell (tf_filter_store_cell children production) = \<lparr>vc_children = children, vc_production = production\<rparr>"
  "\<not> is_consumer (tf_filter_store_cell children production)"
  using cell_fields [of children production]
  by (simp_all add: tf_filter_cell_def tf_filter_store_cell_def is_consumer_def)

lemma child_erase [simp]:
  "child_alias lang p (erase_node n) s = child_alias lang p n s"
  "child_field lang p (erase_node n) s = child_field lang p n s"
  "child_visible lang p (erase_node n) s = child_visible lang p n s"
  "child_named lang p (erase_node n) s = child_named lang p n s"
  "next_structural (erase_node n) s = next_structural n s"
  "visible_node lang p (erase_node n) s pr owns run = visible_node lang p n s pr owns run"
proof -
  have sy: "nd_symbol (erase_node n) = nd_symbol n" by (simp add: erase_node_def)
  show al: "child_alias lang p (erase_node n) s = child_alias lang p n s"
    by (cases "tf_alias_sequence lang (unat p)") (simp_all add: child_alias_def)
  show fi: "child_field lang p (erase_node n) s = child_field lang p n s" by (simp add: child_field_def)
  show vi: "child_visible lang p (erase_node n) s = child_visible lang p n s" by (simp add: child_visible_def al sy)
  show na: "child_named lang p (erase_node n) s = child_named lang p n s" by (simp add: child_named_def al sy)
  show "next_structural (erase_node n) s = next_structural n s" by (simp add: next_structural_def)
  show "visible_node lang p (erase_node n) s pr owns run = visible_node lang p n s pr owns run"
    by (simp add: visible_node_def al na sy Let_def)
qed

text \<open>A cell of the driver's stack, and the cell of the specification it stands for.\<close>

definition holds :: "'c pointer TFNode \<Rightarrow> 'c settled_cell \<Rightarrow> bool" where
  "holds n cell \<longleftrightarrow> st_node cell = erase_node n \<and>
     nd_value n = tf_filter_store_cell (of_nat (length (st_run cell))) (st_production cell) \<and>
     length (st_run cell) < 2 ^ 32 \<and> (nd_extra n \<longrightarrow> st_run cell = [])"

definition runs :: "'c settled_cell list \<Rightarrow> 'c TFVisibleChild list" where
  "runs cells = concat (map st_run cells)"

lemma runs_simps [simp]:
  "runs [] = []" "runs (c # cells) = st_run c @ runs cells" "runs (xs @ ys) = runs xs @ runs ys"
  by (simp_all add: runs_def)

lemma holds_cell:
  assumes "holds n cell"
  shows "unat (vc_children (tf_filter_cell (nd_value n))) = length (st_run cell)"
    "vc_children (tf_filter_cell (nd_value n)) = of_nat (length (st_run cell))"
    "vc_production (tf_filter_cell (nd_value n)) = st_production cell"
    "\<not> is_consumer (nd_value n)" "st_node cell = erase_node n"
  using assms by (auto simp: holds_def)

section \<open>The leading run\<close>

lemma field_run_eq:
  "owns \<le> length run \<Longrightarrow>
     field_run field (length before) owns (before @ run @ after) = before @ map (give_field field) (take owns run) @ drop owns run @ after"
proof (induction owns)
  case 0
  then show ?case by (simp add: field_run_def)
next
  case (Suc owns)
  let ?done = "before @ map (give_field field) (take owns run)"
  have len: "length ?done = length before + owns" using Suc.prems by simp
  have run: "drop owns run = run ! owns # drop (Suc owns) run" using Suc.prems by (simp add: Cons_nth_drop_Suc)
  have "field_run field (length before) (Suc owns) (before @ run @ after) =
     (let a = field_run field (length before) owns (before @ run @ after)
      in a[length before + owns := give_field field (a ! (length before + owns))])"
    by (simp add: field_run_def Let_def)
  also have "\<dots> = (let a = ?done @ run ! owns # drop (Suc owns) run @ after
      in a[length ?done := give_field field (a ! length ?done)])"
    using Suc.IH Suc.prems by (simp only: len run append_assoc append_Cons Suc_leD)
  also have "\<dots> = ?done @ give_field field (run ! owns) # drop (Suc owns) run @ after"
    unfolding Let_def by (simp only: nth_append_length list_update_length)
  also have "\<dots> = before @ map (give_field field) (take (Suc owns) run) @ drop (Suc owns) run @ after"
    using Suc.prems by (simp add: take_Suc_conv_app_nth)
  finally show ?case .
qed

lemma give_field_0 [simp]: "give_field 0 entry = entry"
  by (simp add: give_field_def)

lemma give_field_value [simp]: "ch_value (give_field field entry) = ch_value entry"
  by (simp add: give_field_def)

lemma give_fields_0 [simp]: "map (give_field 0) run = run"
  by (simp add: map_idI)

lemma hidden_loop_spec:
  assumes "list_all2 holds children cells"
    and "hidden_loop lang pid children s (length before) (before @ runs cells) = (rest, s', position, arena)"
  shows "\<exists>hidden cells'. list_all2 holds rest cells' \<and> arena = before @ hidden @ runs cells' \<and>
     position = length before + length hidden \<and> map ch_value arena = map ch_value (before @ runs cells) \<and>
     (\<forall>(sink :: ('q, 'c) TFVisibleSink) q. visible_run sink lang pid cells s q =
        map_prod id ((@) hidden) (visible_run sink lang pid cells' s' q))"
  using assms
proof (induction children cells arbitrary: s before rule: list_all2_induct)
  case Nil
  then show ?case by (intro exI [of _ "[]"]) auto
next
  case (Cons child children cell cells)
  note cell = holds_cell(1,5) [OF Cons.hyps(1)]
  show ?case
  proof (cases "child_visible lang pid child s")
    case True
    then have "rest = child # children \<and> s' = s \<and> position = length before \<and> arena = before @ runs (cell # cells)"
      using Cons.prems by (simp add: Let_def)
    then show ?thesis using Cons.hyps(1,2)
      by (intro exI [of _ "[]"] exI [of _ "cell # cells"]) (auto simp: map_prod_def)
  next
    case False
    define field where "field = child_field lang pid child s"
    define run where "run = map (give_field field) (st_run cell)"
    have "(if field \<noteq> 0 then field_run field (length before) (length (st_run cell)) (before @ runs (cell # cells))
        else before @ runs (cell # cells)) = (before @ run) @ runs cells"
      using field_run_eq [of "length (st_run cell)" "st_run cell" field before "runs cells"] by (simp add: run_def)
    moreover have "hidden_loop lang pid (child # children) s (length before) (before @ runs (cell # cells)) =
        hidden_loop lang pid children (next_structural child s) (length before + length (st_run cell))
          (if field \<noteq> 0 then field_run field (length before) (length (st_run cell)) (before @ runs (cell # cells))
           else before @ runs (cell # cells))"
      using False by (simp only: hidden_loop.simps Let_def cell(1) field_def if_False)
    ultimately have "hidden_loop lang pid children (next_structural child s) (length (before @ run)) ((before @ run) @ runs cells) =
        (rest, s', position, arena)"
      using Cons.prems by (simp only: length_append run_def length_map)
    from Cons.IH [OF this] obtain hidden cells' where IH:
      "list_all2 holds rest cells'" "arena = (before @ run) @ hidden @ runs cells'"
      "position = length (before @ run) + length hidden"
      "map ch_value arena = map ch_value ((before @ run) @ runs cells)"
      "\<And>(sink :: ('q, 'c) TFVisibleSink) q. visible_run sink lang pid cells (next_structural child s) q =
        map_prod id ((@) hidden) (visible_run sink lang pid cells' s' q)"
      by blast
    have seen: "visible_run sink lang pid (cell # cells) s q =
        map_prod id ((@) (run @ hidden)) (visible_run sink lang pid cells' s' q)" for sink :: "('q, 'c) TFVisibleSink" and q
      using False IH(5) [of sink q] by (simp add: Let_def cell field_def [symmetric] run_def split_def map_prod_def)
    show ?thesis
    proof (intro exI [of _ "run @ hidden"] exI [of _ cells'] conjI allI)
      show "visible_run sink lang pid (cell # cells) s q =
        map_prod id ((@) (run @ hidden)) (visible_run sink lang pid cells' s' q)" for sink :: "('q, 'c) TFVisibleSink" and q
        by (rule seen)
    qed (use IH(1-4) in \<open>simp_all add: run_def\<close>)
  qed
qed

section \<open>The scratch array\<close>

text \<open>An allocator that never grants the filter \<open>2 ^ 31\<close> entries.\<close>

definition bounded_filter :: "allocator \<Rightarrow> bool" where
  "bounded_filter mem \<longleftrightarrow> (\<forall>n. mem A_filter_arena n \<or> mem A_filter_scratch n \<longrightarrow> n < 2 ^ 31)"

lemma reserve_Some:
  assumes "tf_filter_reserve mem site capacity needed = Some capacity'"
  shows "needed \<le> capacity'" and "capacity' = capacity \<or> mem site (unat capacity')"
proof -
  define g where "g = grow_capacity capacity needed"
  define cap where "cap = (if g > ucast UINT32_MAX then ucast UINT32_MAX else g)"
  have g: "unat needed \<le> unat g" using grow_capacity_bounds [of needed capacity] by (simp add: g_def)
  have "cap \<le> ucast UINT32_MAX" by (simp add: cap_def not_less)
  then have narrow: "unat (ucast cap :: u32) = unat cap"
    by (simp add: unsigned_ucast_eq take_bit_nat_eq_self word_le_nat_alt)
  have "unat needed \<le> unat cap"
  proof -
    have "unat needed \<le> 4294967295" using unat_u32_less [of needed] by linarith
    then show ?thesis using g by (auto simp: cap_def)
  qed
  moreover have res: "tf_filter_reserve mem site capacity needed =
     (if needed \<le> capacity then Some capacity else if \<not> mem site (unat cap) then None else Some (ucast cap))"
    by (simp add: tf_filter_reserve_def Let_def g_def cap_def)
  ultimately have "needed \<le> capacity' \<and> (capacity' = capacity \<or> mem site (unat capacity'))"
    using assms narrow unfolding res by (auto simp: word_le_nat_alt split: if_split_asm)
  then show "needed \<le> capacity'" and "capacity' = capacity \<or> mem site (unat capacity')" by simp_all
qed

text \<open>What a reservation gives that stays below the bound.\<close>

lemma reserve_bounded:
  assumes "tf_filter_reserve mem site capacity (of_nat n) = Some capacity'" and "bounded_filter mem"
    and "site = A_filter_arena \<or> site = A_filter_scratch" and "unat capacity < 2 ^ 31" and "n < 2 ^ 32"
  shows "n \<le> unat capacity'" "unat capacity' < 2 ^ 31"
proof -
  note r = reserve_Some [OF assms(1)]
  have "unat (of_nat n :: u32) = n" using assms(5) by simp
  then show "n \<le> unat capacity'" using r(1) by (simp add: word_le_nat_alt)
  show "unat capacity' < 2 ^ 31"
    using r(2) assms(2-4) by (auto simp: bounded_filter_def)
qed

text \<open>A filter in order: no fault, its capacities below the bound, its arena within its capacity.\<close>

definition filter_ok :: "allocator \<Rightarrow> ('q, 'c) TFFilter \<Rightarrow> bool" where
  "filter_ok mem self \<longleftrightarrow> bounded_filter mem \<and> \<not> fl_fault self \<and>
     unat (fl_arena_capacity self) < 2 ^ 31 \<and> unat (fl_scratch_capacity self) < 2 ^ 31 \<and>
     length (fl_arena self) \<le> unat (fl_arena_capacity self)"

lemma tf_filter_run_append [simp]:
  "length run = owns \<Longrightarrow> tf_filter_run (before @ run @ after) (length before) owns = run"
  by (simp add: tf_filter_run_def)

lemma scratch_loop_spec:
  assumes "list_all2 holds children cells" and "fl_arena self = before @ runs cells"
    and "filter_ok mem self" and "length produced \<le> unat (fl_scratch_capacity self)"
    and "scratch_loop mem pid children s (length before) produced self = (self', out)"
  shows "filter_ok mem self' \<and> fl_lang self' = fl_lang self \<and> fl_sink self' = fl_sink self \<and>
     fl_declined self' = fl_declined self \<and> fl_arena_capacity self' = fl_arena_capacity self \<and>
     fl_arena self' = fl_arena self \<and>
     (case out of None \<Rightarrow> fl_failed self'
      | Some all \<Rightarrow> fl_failed self' = fl_failed self \<and> length all < 2 ^ 31 \<and>
          (\<exists>run. all = produced @ run \<and>
             visible_run (fl_sink self) (fl_lang self) pid cells s (fl_payload self) = (fl_payload self', run)))"
  using assms
proof (induction children cells arbitrary: s before produced self rule: list_all2_induct)
  case Nil
  then show ?case by (auto simp: filter_ok_def)
next
  case (Cons child children cell cells)
  note cell = holds_cell [OF Cons.hyps(1)]
  define field where "field = child_field (fl_lang self) pid child s"
  define n where "n = length (st_run cell)"
  have run: "tf_filter_run (fl_arena self) (length before) n = st_run cell"
    using Cons.prems(1) by (simp add: n_def)
  have arena: "fl_arena self = (before @ st_run cell) @ runs cells" using Cons.prems(1) by simp
  have pos: "length before + n = length (before @ st_run cell)" by (simp add: n_def)
  have caps: "unat (fl_scratch_capacity self) < 2 ^ 31" "bounded_filter mem" "n < 2 ^ 31"
    using Cons.prems(1,2) by (auto simp: filter_ok_def n_def)
  have un: "unat (of_nat n :: u32) = n" using caps(3) by simp
  consider (hidden) "\<not> child_visible (fl_lang self) pid child s"
    | (left_out) "child_visible (fl_lang self) pid child s" "vs_named_only (fl_sink self) \<and>
        \<not> child_named (fl_lang self) pid child s \<and> field = 0 \<and> n = 0"
    | (shown) "child_visible (fl_lang self) pid child s" "\<not> (vs_named_only (fl_sink self) \<and>
        \<not> child_named (fl_lang self) pid child s \<and> field = 0 \<and> n = 0)"
    by blast
  then show ?case
  proof cases
    case hidden
    show ?thesis
    proof (cases "tf_filter_reserve mem A_filter_scratch (fl_scratch_capacity self) (of_nat (length produced + n))")
      case None
      then have "self' = self\<lparr>fl_failed := True\<rparr> \<and> out = None"
        using Cons.prems(4) hidden by (simp add: Let_def cell(1) n_def [symmetric])
      then show ?thesis using Cons.prems(2) by (simp add: filter_ok_def)
    next
      case (Some capacity)
      have cap: "length produced + n \<le> unat capacity" "unat capacity < 2 ^ 31"
        using reserve_bounded [OF Some caps(2) _ caps(1)] Cons.prems(3) caps by auto
      let ?new = "map (give_field field) (st_run cell)"
      have loop: "scratch_loop mem pid children (next_structural child s) (length (before @ st_run cell)) (produced @ ?new)
          (self\<lparr>fl_scratch_capacity := capacity\<rparr>) = (self', out)"
        using Cons.prems(4) hidden Some cap(1) run
        by (simp add: Let_def cell(1) n_def [symmetric] field_def [symmetric] split: if_split_asm)
      from Cons.IH [OF _ _ _ loop] show ?thesis
        using Cons.prems(2) cap hidden arena
        by (auto simp: filter_ok_def n_def Let_def cell(5) field_def [symmetric] split: option.splits)
    qed
  next
    case left_out
    then have loop: "scratch_loop mem pid children (next_structural child s) (length (before @ st_run cell)) produced self = (self', out)"
      using Cons.prems(4) by (simp add: Let_def cell(1) n_def [symmetric] field_def [symmetric])
    have "st_run cell = []" using left_out by (simp add: n_def)
    with Cons.IH [OF _ Cons.prems(2,3) loop] show ?thesis
      using arena left_out by (auto simp: Let_def cell(5) field_def [symmetric] split: option.splits)
  next
    case shown
    let ?node = "visible_node (fl_lang self) pid child s (st_production cell) (of_nat n) (st_run cell)"
    obtain q v where emit: "emit_node (fl_sink self) (fl_payload self) ?node = (q, v)" by fastforce
    let ?entry = "\<lparr>ch_symbol = vn_symbol ?node, ch_field_id = field, ch_extra = nd_extra child, ch_value = v\<rparr>"
    show ?thesis
    proof (cases "tf_filter_reserve mem A_filter_scratch (fl_scratch_capacity self) (of_nat (length produced + 1))")
      case None
      then have "self' = self\<lparr>fl_failed := True\<rparr> \<and> out = None"
        using Cons.prems(4) shown by (simp add: Let_def cell(1) n_def [symmetric] field_def [symmetric] del: of_nat_add)
      then show ?thesis using Cons.prems(2) by (simp add: filter_ok_def)
    next
      case (Some capacity)
      have cap: "length produced + 1 \<le> unat capacity" "unat capacity < 2 ^ 31"
        using reserve_bounded [OF Some caps(2) _ caps(1)] Cons.prems(3) caps by auto
      have loop: "scratch_loop mem pid children (next_structural child s) (length (before @ st_run cell)) (produced @ [?entry])
          (self\<lparr>fl_scratch_capacity := capacity, fl_payload := q\<rparr>) = (self', out)"
        using Cons.prems(4) shown Some cap(1) run emit
        by (simp add: Let_def cell(2,3) un n_def [symmetric] field_def [symmetric] del: of_nat_add split: if_split_asm)
      from Cons.IH [OF _ _ _ loop] show ?thesis
        using Cons.prems(2) cap shown arena emit
        by (auto simp: filter_ok_def n_def Let_def cell(5) field_def [symmetric] split: option.splits)
    qed
  qed
qed

section \<open>The reduction\<close>

lemma erase_reduction_sel [simp]:
  "rd_symbol (erase_reduction rd) = rd_symbol rd" "rd_production_id (erase_reduction rd) = rd_production_id rd"
  "rd_start_byte (erase_reduction rd) = rd_start_byte rd" "rd_end_byte (erase_reduction rd) = rd_end_byte rd"
  "rd_start_point (erase_reduction rd) = rd_start_point rd" "rd_end_point (erase_reduction rd) = rd_end_point rd"
  "is_root (erase_reduction rd) = is_root rd"
  by (auto simp: erase_reduction_def is_root_def last_map erase_node_def)

lemma parent_run:
  assumes "fl_arena self = before @ run"
  shows "tf_filter_parent self rd named (length before) = reduction_node (fl_lang self) (erase_reduction rd) named run"
  using assms by (simp add: tf_filter_parent_def reduction_node_def tf_filter_run_def)

lemma reduction_node_symbol [simp]: "vn_symbol (reduction_node lang rd named run) = tf_public_symbol lang (rd_symbol rd)"
  by (simp add: reduction_node_def)

lemma offer_fold:
  assumes "fl_arena self = before @ run" and "filter_ok mem self" and "offer_hidden mem rd (length before) self = self'"
  shows "\<exists>run'. fold_run mem (fl_sink self) (fl_lang self) (erase_reduction rd) run (fl_payload self, fl_declined self) =
       ((fl_payload self', fl_declined self'), run') \<and> fl_arena self' = before @ run' \<and>
     filter_ok mem self' \<and> fl_lang self' = fl_lang self \<and> fl_sink self' = fl_sink self \<and> fl_failed self' = fl_failed self"
proof (cases "vs_on_hidden (fl_sink self)")
  case None
  then show ?thesis using assms by (simp add: offer_hidden_def fold_run_def)
next
  case (Some on_hidden)
  note hid = Some
  note node = parent_run [OF assms(1)]
  define go where "go \<longleftrightarrow> length run > 1 \<and> tf_foldable (fl_lang self) (rd_symbol rd) \<and>
      \<not> (case fl_declined self of Some d \<Rightarrow> d ! unat (rd_symbol rd) | None \<Rightarrow> False)"
  have offer: "offer_hidden mem rd (length before) self = self" if "\<not> go"
    using that Some assms(1) by (cases "fl_declined self") (auto simp: offer_hidden_def go_def)
  have fold: "fold_run mem (fl_sink self) (fl_lang self) (erase_reduction rd) run (fl_payload self, fl_declined self) =
     ((fl_payload self, fl_declined self), run)" if "\<not> go"
    using that Some by (cases "fl_declined self") (auto simp: fold_run_def go_def)
  show ?thesis
  proof (cases go)
    case False
    then show ?thesis using assms offer fold by auto
  next
    case True
    then have go: "length (fl_arena self) - length before > 1" "length run > 1" "tf_foldable (fl_lang self) (rd_symbol rd)"
      "(case fl_declined self of Some d \<Rightarrow> d ! unat (rd_symbol rd) | None \<Rightarrow> False) = False"
      using assms(1) by (simp_all add: go_def)
    obtain q folded where call: "on_hidden (fl_payload self) (reduction_node (fl_lang self) (erase_reduction rd) False run) = (q, folded)"
      by fastforce
    show ?thesis
    proof (cases folded)
      case None
      show ?thesis
        using assms(2) go unfolding assms(3) [symmetric] offer_hidden_def fold_run_def Let_def node prod.case erase_reduction_sel
        by (cases "fl_declined self") (simp_all add: hid call None assms(1) filter_ok_def)
    next
      case (Some folded_value)
      have "length before + length run \<le> unat (fl_arena_capacity self)" using assms(1,2) by (simp add: filter_ok_def)
      then show ?thesis
        using assms(2) go unfolding assms(3) [symmetric] offer_hidden_def fold_run_def Let_def node prod.case erase_reduction_sel
        by (cases "fl_declined self") (simp_all add: Some call hid assms(1) filter_ok_def)
    qed
  qed
qed

lemma report_root:
  assumes "fl_arena self = before @ run" and "report_reduction rd (length before) self = (self', v)"
  shows "\<exists>q root. self' = self\<lparr>fl_payload := q\<rparr> \<and>
     (if is_root rd \<and> md_visible (tf_symbol_metadata (fl_lang self) (rd_symbol rd))
      then emit_node (fl_sink self) (fl_payload self) (reduction_node (fl_lang self) (erase_reduction rd)
        (md_named (tf_symbol_metadata (fl_lang self) (rd_symbol rd))) run)
      else (fl_payload self, None)) = (q, root) \<and>
     v = (if is_root rd then map_option Consumer root
          else tf_filter_store_cell (of_nat (length run)) (rd_production_id rd))"
proof (cases "emit_node (fl_sink self) (fl_payload self) (reduction_node (fl_lang self) (erase_reduction rd)
        (md_named (tf_symbol_metadata (fl_lang self) (rd_symbol rd))) run)")
  case (Pair q root)
  note node = parent_run [OF assms(1)]
  consider "\<not> is_root rd" | "is_root rd" "\<not> md_visible (tf_symbol_metadata (fl_lang self) (rd_symbol rd))"
    | "is_root rd" "md_visible (tf_symbol_metadata (fl_lang self) (rd_symbol rd))"
    by blast
  then show ?thesis
  proof cases
    case 1
    then show ?thesis using assms by (intro exI [of _ "fl_payload self"] exI [of _ None]) (simp add: report_reduction_def)
  next
    case 2
    then show ?thesis using assms by (intro exI [of _ "fl_payload self"] exI [of _ None]) (simp add: report_reduction_def)
  next
    case 3
    then show ?thesis using assms Pair
      by (intro exI [of _ q] exI [of _ root]) (simp add: report_reduction_def node)
  qed
qed

lemma copy_back_spec:
  assumes "fl_arena self = kept @ rest" and "filter_ok mem self" and "length produced < 2 ^ 31"
    and "copy_back mem (length kept) produced self = (self', ok)"
  shows "filter_ok mem self' \<and> fl_lang self' = fl_lang self \<and> fl_sink self' = fl_sink self \<and>
     fl_payload self' = fl_payload self \<and> fl_declined self' = fl_declined self \<and>
     (if ok then fl_failed self' = fl_failed self \<and> fl_arena self' = kept @ produced
      else fl_failed self' \<and> fl_arena self' = fl_arena self)"
proof (cases "produced = []")
  case True
  then show ?thesis using assms by (auto simp: copy_back_def filter_ok_def)
next
  case False
  show ?thesis
  proof (cases "tf_filter_reserve mem A_filter_arena (fl_arena_capacity self) (of_nat (length kept + length produced))")
    case None
    then show ?thesis using False assms by (auto simp: copy_back_def filter_ok_def)
  next
    case (Some capacity)
    have "length kept + length produced < 2 ^ 32" "unat (fl_arena_capacity self) < 2 ^ 31" "bounded_filter mem"
      using assms(1-3) by (auto simp: filter_ok_def)
    then have "length kept + length produced \<le> unat capacity" "unat capacity < 2 ^ 31"
      using reserve_bounded [OF Some] by auto
    then show ?thesis using False Some assms by (auto simp: copy_back_def filter_ok_def)
  qed
qed

lemma total_runs:
  "list_all2 holds children cells \<Longrightarrow>
     sum_list (map (\<lambda>child. unat (vc_children (tf_filter_cell (nd_value child)))) children) = length (runs cells)"
  "list_all2 holds children cells \<Longrightarrow> \<not> list_ex (is_consumer \<circ> nd_value) children"
  by (induction rule: list_all2_induct) (simp_all add: holds_cell(1,4))

lemma reduce_refines:
  fixes self :: "('q, 'c) TFFilter"
  assumes cells: "list_all2 holds (rd_children rd) cells" and arena: "fl_arena self = before @ runs cells"
    and ok: "filter_ok mem self" "\<not> fl_failed self" and red: "tf_filter_on_reduce mem self rd = (self', v)"
  shows "filter_ok mem self' \<and> fl_lang self' = fl_lang self \<and> fl_sink self' = fl_sink self \<and>
    (if fl_failed self' then v = None \<and> map ch_value (fl_arena self') = map ch_value (fl_arena self)
     else \<exists>run root. visible_reduce mem (fl_sink self) (fl_lang self) (erase_reduction rd) cells (fl_payload self, fl_declined self) =
            ((fl_payload self', fl_declined self'), run, root) \<and>
          fl_arena self' = before @ run \<and> length run < 2 ^ 31 \<and>
          v = (if is_root rd then map_option Consumer root
               else tf_filter_store_cell (of_nat (length run)) (rd_production_id rd)))"
proof -
  note total = total_runs [OF cells]
  obtain rest s' settled arena' where hidden: "hidden_loop (fl_lang self) (rd_production_id rd) (rd_children rd) 0
      (length before) (before @ runs cells) = (rest, s', settled, arena')"
    by (metis prod_cases4)
  from hidden_loop_spec [OF cells hidden] obtain hid cells' where
    rest: "list_all2 holds rest cells'" and arena': "arena' = before @ hid @ runs cells'"
    and settled: "settled = length before + length hid" "map ch_value arena' = map ch_value (before @ runs cells)"
    and seen: "\<forall>(sink :: ('q, 'c) TFVisibleSink) q. visible_run sink (fl_lang self) (rd_production_id rd) cells 0 q =
        map_prod id ((@) hid) (visible_run sink (fl_lang self) (rd_production_id rd) cells' s' q)"
    by (elim exE conjE) (rule that)
  have len: "length arena' = length before + length (runs cells)"
    using settled(2) by (metis length_append length_map)
  have same: "map ch_value (before @ hid @ runs cells') = map ch_value (fl_arena self)"
    using settled(2) by (simp add: arena arena')
  define s1 where "s1 = self\<lparr>fl_arena := arena'\<rparr>"
  have s1: "filter_ok mem s1" "fl_arena s1 = (before @ hid) @ runs cells'" "fl_lang s1 = fl_lang self" "fl_sink s1 = fl_sink self"
    "fl_payload s1 = fl_payload self" "fl_declined s1 = fl_declined self" "\<not> fl_failed s1"
    using ok arena len by (simp_all add: s1_def arena' filter_ok_def)
  obtain s2 out where scratch: "scratch_loop mem (rd_production_id rd) rest s' (length (before @ hid)) [] s1 = (s2, out)"
    by fastforce
  from scratch_loop_spec [OF rest s1(2,1) _ scratch] have s2: "filter_ok mem s2" "fl_lang s2 = fl_lang self" "fl_sink s2 = fl_sink self"
    "fl_declined s2 = fl_declined self" "fl_arena s2 = (before @ hid) @ runs cells'"
    and out: "case out of None \<Rightarrow> fl_failed s2 | Some all \<Rightarrow> \<not> fl_failed s2 \<and> length all < 2 ^ 31 \<and>
       visible_run (fl_sink self) (fl_lang self) (rd_production_id rd) cells' s' (fl_payload self) = (fl_payload s2, all)"
    using s1 by (auto split: option.splits)
  have unfold: "tf_filter_on_reduce mem self rd =
    (case (s2, out) of (s, None) \<Rightarrow> (s, None)
     | (s, Some produced) \<Rightarrow>
       let (s, ok) = copy_back mem (length (before @ hid)) produced s
       in if \<not> ok then (s, None) else report_reduction rd (length before) (offer_hidden mem rd (length before) s))"
    using ok(2) total arena hidden settled(1) scratch
    by (simp add: tf_filter_on_reduce_def Let_def s1_def [symmetric])
  show ?thesis
  proof (cases out)
    case None
    then show ?thesis using red unfold s2 out same by simp
  next
    case (Some produced)
    obtain s3 copied where copy: "copy_back mem (length (before @ hid)) produced s2 = (s3, copied)" by fastforce
    from copy_back_spec [OF s2(5,1) _ copy] have s3: "filter_ok mem s3" "fl_lang s3 = fl_lang self" "fl_sink s3 = fl_sink self"
      "fl_payload s3 = fl_payload s2" "fl_declined s3 = fl_declined self"
      "if copied then \<not> fl_failed s3 \<and> fl_arena s3 = before @ hid @ produced
       else fl_failed s3 \<and> fl_arena s3 = fl_arena s2"
      using out Some s2 by auto
    show ?thesis
    proof (cases copied)
      case False
      then show ?thesis using red unfold Some copy s3 s2(5) same by simp
    next
      case True
      define s4 where "s4 = offer_hidden mem rd (length before) s3"
      have "fl_arena s3 = before @ hid @ produced" using s3(6) True by simp
      from offer_fold [OF this s3(1) s4_def [symmetric]] obtain run where
        fold: "fold_run mem (fl_sink self) (fl_lang self) (erase_reduction rd) (hid @ produced) (fl_payload s2, fl_declined self) =
          ((fl_payload s4, fl_declined s4), run)"
        and s4: "fl_arena s4 = before @ run" "filter_ok mem s4" "fl_lang s4 = fl_lang self" "fl_sink s4 = fl_sink self" "\<not> fl_failed s4"
        using s3 True by auto
      have "report_reduction rd (length before) s4 = (self', v)"
        using red unfold Some copy True by (simp add: s4_def)
      from report_root [OF s4(1) this, unfolded s4(3,4)] obtain q root where self': "self' = s4\<lparr>fl_payload := q\<rparr>"
        and root: "(if is_root rd \<and> md_visible (tf_symbol_metadata (fl_lang self) (rd_symbol rd))
          then emit_node (fl_sink self) (fl_payload s4) (reduction_node (fl_lang self) (erase_reduction rd)
            (md_named (tf_symbol_metadata (fl_lang self) (rd_symbol rd))) run)
          else (fl_payload s4, None)) = (q, root)"
        and v: "v = (if is_root rd then map_option Consumer root
          else tf_filter_store_cell (of_nat (length run)) (rd_production_id rd))"
        by (elim exE conjE) (rule that)
      have "visible_run (fl_sink self) (fl_lang self) (rd_production_id rd) cells 0 (fl_payload self) = (fl_payload s2, hid @ produced)"
        using seen [rule_format, of "fl_sink self" "fl_payload self"] out Some by simp
      then have "visible_reduce mem (fl_sink self) (fl_lang self) (erase_reduction rd) cells (fl_payload self, fl_declined self) =
          ((q, fl_declined s4), run, root)"
        using fold root by (auto simp: visible_reduce_def Let_def split: if_split_asm)
      moreover have "length run < 2 ^ 31" using s4(1,2) by (simp add: filter_ok_def)
      moreover have "filter_ok mem self'" using s4(2) by (simp add: self' filter_ok_def)
      ultimately show ?thesis using s4 v by (simp add: self')
    qed
  qed
qed

section \<open>The stack of the driver\<close>

lemma holds_split:
  assumes "list_all2 holds (below @ kids @ trail) cells" and "list_all nd_extra trail"
  obtains below' kids' where "cells = below' @ kids' @ drop (length below + length kids) cells"
    "list_all2 holds below below'" "list_all2 holds kids kids'"
    "list_all2 holds trail (drop (length below + length kids) cells)"
    "runs cells = runs below' @ runs kids'"
proof -
  obtain below' rest where 1: "cells = below' @ rest" "list_all2 holds below below'" "list_all2 holds (kids @ trail) rest"
    using assms(1) by (auto simp: list_all2_append1)
  obtain kids' trail' where 2: "rest = kids' @ trail'" "list_all2 holds kids kids'" "list_all2 holds trail trail'"
    using 1(3) by (auto simp: list_all2_append1)
  have "runs trail' = []"
    using 2(3) assms(2) by (induction rule: list_all2_induct) (auto simp: holds_def)
  moreover have "drop (length below + length kids) cells = trail'"
    using 1(1,2) 2(1,2) by (simp add: list_all2_lengthD)
  ultimately show thesis using that [of below' kids'] 1 2 by simp
qed

lemma map_st_node: "list_all2 holds nodes cells \<Longrightarrow> map st_node cells = map erase_node nodes"
  by (induction rule: list_all2_induct) (simp_all add: holds_def)

lemma spans_erase [simp]: "spans_from source lo (map erase_node nodes) = spans_from source lo nodes"
  by (induction nodes arbitrary: lo) (auto simp: node_at_def)

lemma end_erase [simp]: "end_from lo (map erase_node nodes) = end_from lo nodes"
  by (cases nodes rule: rev_cases) (simp_all add: end_from_def)

lemma structural_erase [simp]: "structural (map erase_node nodes) = structural nodes"
  by (induction nodes) auto

lemma split_erase:
  "reduce_split c nodes below kids trail \<Longrightarrow>
     reduce_split c (map erase_node nodes) (map erase_node below) (map erase_node kids) (map erase_node trail)"
  by (auto simp: reduce_split_def hd_map last_map list_all_iff split: if_splits)

lemma reduction_over_erase:
  "erase_reduction (reduction_over symbol pid c below kids) =
     reduction_over symbol pid c (map erase_node below) (map erase_node kids)"
  by (simp add: erase_reduction_def reduction_over_def hd_map last_map)

lemma root_reduction_erase:
  "erase_reduction (root_reduction token nodes v rd) =
     root_reduction token (map erase_node nodes) None (erase_reduction rd)"
  by (simp add: root_reduction_def erase_reduction_def Let_def nth_append)

lemma erase_parent: "erase_node (parent_node rd v) = parent_node (erase_reduction rd) None"
  by (simp add: parent_node_def erase_reduction_def erase_node_def)

end
