(* ===== verification/Visible_Client.thy ===== *)
theory Visible_Client
  imports Visible_Spec Sink
begin

text \<open>
  The interface between the filter and a consumer of visible nodes. A client states what holds
  of its payload and the cells of the stack with the runs they own; through the filter it is
  then a client of the driver.
\<close>

section \<open>The interface\<close>

text \<open>The cells a shift and a reduction leave.\<close>

definition leaf_cell :: "TFToken \<Rightarrow> bool \<Rightarrow> 'c settled_cell" where
  "leaf_cell token extra = \<lparr>st_node = token_node token extra None, st_production = 0, st_run = []\<rparr>"

definition branch_cell :: "unit TFReduction \<Rightarrow> 'c TFVisibleChild list \<Rightarrow> 'c settled_cell" where
  "branch_cell rd run = \<lparr>st_node = parent_node rd None, st_production = rd_production_id rd, st_run = run\<rparr>"

abbreviation shapes :: "'c settled_cell list \<Rightarrow> unit TFNode list" where
  "shapes cells \<equiv> map st_node cells"

locale visible_client =
  fixes mem :: allocator and lang :: TFLanguage and vsink :: "('q, 'c) TFVisibleSink" and source :: "u8 list"
    and inv :: "'q \<Rightarrow> 'c settled_cell list \<Rightarrow> bool" and rooted :: "'q \<Rightarrow> 'c option \<Rightarrow> bool"
  assumes visible_shift: "inv q cells \<Longrightarrow> spans_from source 0 (shapes cells) \<Longrightarrow>
      token_at source (end_from 0 (shapes cells)) token \<Longrightarrow> tok_symbol token \<noteq> 0 \<Longrightarrow>
      inv q (cells @ [leaf_cell token extra])"
    and visible_branch: "inv q (below @ kids @ trail) \<Longrightarrow> spans_from source 0 (shapes (below @ kids @ trail)) \<Longrightarrow>
      reduce_split (unat child_count) (shapes (below @ kids @ trail)) (shapes below) (shapes kids) (shapes trail) \<Longrightarrow>
      symbol \<noteq> 0 \<Longrightarrow>
      visible_reduce mem vsink lang (reduction_over symbol production_id child_count (shapes below) (shapes kids)) kids
        (q, declined) = ((q', declined'), run, root) \<Longrightarrow>
      \<not> is_root (reduction_over symbol production_id child_count (shapes below) (shapes kids)) \<Longrightarrow>
      inv q' (below @ branch_cell (reduction_over symbol production_id child_count (shapes below) (shapes kids)) run # trail)"
    and visible_root: "inv q (below @ kids @ trail) \<Longrightarrow> spans_from source 0 (shapes (below @ kids @ trail)) \<Longrightarrow>
      reduce_split (unat child_count) (shapes (below @ kids @ trail)) (shapes below) (shapes kids) (shapes trail) \<Longrightarrow>
      list_all nd_extra (shapes below) \<Longrightarrow> symbol \<noteq> 0 \<Longrightarrow>
      token_at source (end_from 0 (shapes (below @ kids @ trail))) token \<Longrightarrow> tok_symbol token = 0 \<Longrightarrow>
      visible_reduce mem vsink lang
        (root_reduction token (shapes (below @ kids @ trail)) None
          (reduction_over symbol production_id child_count (shapes below) (shapes kids)))
        (below @ kids @ trail @ [leaf_cell token True]) (q, declined) = ((q', declined'), run, root) \<Longrightarrow> rooted q' root"
begin

text \<open>
  The invariant of the filter: no cell holds the end token, and unless memory ran out the arena
  is the runs of the cells, one after the other.
\<close>

definition filter_inv :: "('q, 'c) TFFilter \<Rightarrow> 'c pointer TFNode list \<Rightarrow> bool" where
  "filter_inv self nodes \<longleftrightarrow>
     filter_ok mem self \<and> fl_lang self = lang \<and> fl_sink self = vsink \<and> list_all (\<lambda>n. nd_symbol n \<noteq> 0) nodes \<and>
     (\<not> fl_failed self \<longrightarrow>
       (\<exists>cells. list_all2 holds nodes cells \<and> fl_arena self = runs cells \<and> inv (fl_payload self) cells))"

definition filter_rooted :: "('q, 'c) TFFilter \<Rightarrow> 'c pointer option \<Rightarrow> bool" where
  "filter_rooted self v \<longleftrightarrow>
     filter_ok mem self \<and> fl_lang self = lang \<and> fl_sink self = vsink \<and>
     (if fl_failed self then v = None else \<exists>root. v = map_option Consumer root \<and> rooted (fl_payload self) root)"

lemma emit_filter:
  "tf_parser_emit_shift (filter_sink mem) self token extra = (self, tf_filter_store_cell 0 0)"
  "tf_parser_emit_reduce (filter_sink mem) self rd = tf_filter_on_reduce mem self rd"
  by (simp_all add: tf_parser_emit_shift_def tf_parser_emit_reduce_def filter_sink_def tf_filter_on_shift_def)

lemma holds_leaf: "holds (token_node token extra (tf_filter_store_cell 0 0)) (leaf_cell token extra)"
  by (simp add: holds_def leaf_cell_def) (simp add: token_node_def)

lemma holds_branch:
  assumes "length run < 2 ^ 31"
  shows "holds (parent_node rd (tf_filter_store_cell (of_nat (length run)) (rd_production_id rd))) (branch_cell (erase_reduction rd) run)"
  using assms by (simp add: holds_def branch_cell_def erase_parent) (simp add: parent_node_def)

lemma failed_reduce:
  "fl_failed self \<Longrightarrow> tf_filter_on_reduce mem self rd = (self, None)"
  by (simp add: tf_filter_on_reduce_def)

lemma filter_reduce:
  assumes inv: "filter_inv self nodes" and spans: "spans_from source 0 nodes"
    and split: "reduce_split (unat child_count) nodes below kids trail" and symbol: "symbol \<noteq> 0"
    and red: "tf_filter_on_reduce mem self (reduction_over symbol production_id child_count below kids) = (self', v)"
  shows "filter_inv self' (below @ parent_node (reduction_over symbol production_id child_count below kids) v # trail)"
proof -
  let ?rd = "reduction_over symbol production_id child_count below kids"
  have nodes: "nodes = below @ kids @ trail" and trail: "list_all nd_extra trail"
    using split by (simp_all add: reduce_split_def)
  have nonzero: "list_all (\<lambda>n. nd_symbol n \<noteq> 0) (below @ parent_node ?rd v # trail)"
    using inv symbol by (simp add: filter_inv_def nodes parent_node_def reduction_over_def)
  show ?thesis
  proof (cases "fl_failed self")
    case True
    then show ?thesis using inv red nonzero by (simp add: filter_inv_def failed_reduce)
  next
    case False
    then obtain cells where cells: "list_all2 holds nodes cells" "fl_arena self = runs cells" "inv (fl_payload self) cells"
      using inv by (auto simp: filter_inv_def)
    obtain below' kids' trail' where parts: "cells = below' @ kids' @ trail'" "list_all2 holds below below'"
      "list_all2 holds kids kids'" "list_all2 holds trail trail'" "runs cells = runs below' @ runs kids'"
      using holds_split [OF cells(1) [unfolded nodes] trail] by blast
    note shape = parts(2-4) [THEN map_st_node]
    have all: "shapes (below' @ kids' @ trail') = map erase_node nodes" by (simp add: shape nodes)
    have rd: "erase_reduction ?rd = reduction_over symbol production_id child_count (shapes below') (shapes kids')"
      by (simp only: reduction_over_erase shape)
    have "last kids \<in> set nodes" if "kids \<noteq> []" using that by (simp add: nodes)
    then have "nd_symbol (last kids) \<noteq> 0" if "kids \<noteq> []"
      using that inv by (simp add: filter_inv_def list_all_iff)
    then have root: "\<not> is_root ?rd" by (auto simp: is_root_def reduction_over_def ts_builtin_sym_end_def)
    have kids: "list_all2 holds (rd_children ?rd) kids'" using parts(3) by (simp add: reduction_over_def)
    note res = reduce_refines [OF kids cells(2) [unfolded parts(5)] _ False red]
    show ?thesis
    proof (cases "fl_failed self'")
      case True
      then show ?thesis using res inv nonzero by (simp add: filter_inv_def)
    next
      case ok: False
      obtain run root where vr: "visible_reduce mem vsink lang (erase_reduction ?rd) kids' (fl_payload self, fl_declined self) =
          ((fl_payload self', fl_declined self'), run, root)" and arena: "fl_arena self' = runs below' @ run"
        and len: "length run < 2 ^ 31" and v: "v = tf_filter_store_cell (of_nat (length run)) (rd_production_id ?rd)"
        using res inv ok root by (auto simp: filter_inv_def)
      have "inv (fl_payload self') (below' @ branch_cell (erase_reduction ?rd) run # trail')"
        unfolding rd
      proof (rule visible_branch [where kids = kids'])
        show "inv (fl_payload self) (below' @ kids' @ trail')" using cells(3) by (simp add: parts(1))
        show "spans_from source 0 (shapes (below' @ kids' @ trail'))"
          using spans by (simp only: all spans_erase)
        show "reduce_split (unat child_count) (shapes (below' @ kids' @ trail')) (shapes below') (shapes kids') (shapes trail')"
          using split_erase [OF split] by (simp only: all shape)
        show "visible_reduce mem vsink lang (reduction_over symbol production_id child_count (shapes below') (shapes kids')) kids'
            (fl_payload self, fl_declined self) = ((fl_payload self', fl_declined self'), run, root)"
          using vr by (simp only: rd)
        show "\<not> is_root (reduction_over symbol production_id child_count (shapes below') (shapes kids'))"
          using root by (simp flip: rd)
      qed (rule symbol)
      moreover have "runs trail' = []"
        using parts(1,5) by simp
      moreover have "list_all2 holds (below @ parent_node ?rd v # trail) (below' @ branch_cell (erase_reduction ?rd) run # trail')"
        using parts(2,4) holds_branch [OF len, of ?rd] by (simp add: v list_all2_appendI)
      moreover have "fl_arena self' = runs (below' @ branch_cell (erase_reduction ?rd) run # trail')"
        using arena calculation(2) by (simp add: branch_cell_def)
      ultimately show ?thesis
        using res inv nonzero unfolding filter_inv_def by auto
    qed
  qed
qed

lemma filter_root:
  assumes inv: "filter_inv self nodes" and spans: "spans_from source 0 nodes"
    and split: "reduce_split (unat child_count) nodes below kids trail" and lead: "list_all nd_extra below"
    and symbol: "symbol \<noteq> 0" and token: "token_at source (end_from 0 nodes) token" "tok_symbol token = 0"
    and red: "tf_filter_on_reduce mem self (root_reduction token nodes (tf_filter_store_cell 0 0)
        (reduction_over symbol production_id child_count below kids)) = (self', v)"
  shows "filter_rooted self' v"
proof (cases "fl_failed self")
  case True
  then show ?thesis using inv red by (simp add: filter_inv_def filter_rooted_def failed_reduce)
next
  case False
  let ?rd = "root_reduction token nodes (tf_filter_store_cell 0 0) (reduction_over symbol production_id child_count below kids)"
  have nodes: "nodes = below @ kids @ trail" and trail: "list_all nd_extra trail"
    using split by (simp_all add: reduce_split_def)
  obtain cells where cells: "list_all2 holds nodes cells" "fl_arena self = runs cells" "inv (fl_payload self) cells"
    using inv False by (auto simp: filter_inv_def)
  obtain below' kids' trail' where parts: "cells = below' @ kids' @ trail'" "list_all2 holds below below'"
    "list_all2 holds kids kids'" "list_all2 holds trail trail'"
    using holds_split [OF cells(1) [unfolded nodes] trail] by blast
  note shape = parts(2-4) [THEN map_st_node]
  have all: "shapes (below' @ kids' @ trail') = map erase_node nodes" by (simp add: shape nodes)
  have children: "rd_children ?rd = nodes @ [token_node token True (tf_filter_store_cell 0 0)]"
    by (simp add: root_reduction_def Let_def)
  have root: "is_root ?rd" by (simp add: is_root_def children ts_builtin_sym_end_def token_node_def token(2))
  have all2: "list_all2 holds (rd_children ?rd) (cells @ [leaf_cell token True])"
    unfolding children by (rule list_all2_appendI [OF cells(1)]) (simp add: holds_leaf)
  have "fl_arena self = [] @ runs (cells @ [leaf_cell token True])" using cells(2) by (simp add: leaf_cell_def)
  note res = reduce_refines [OF all2 this _ False red]
  show ?thesis
  proof (cases "fl_failed self'")
    case True
    then show ?thesis using res inv by (simp add: filter_inv_def filter_rooted_def)
  next
    case ok: False
    obtain run result where vr: "visible_reduce mem vsink lang (erase_reduction ?rd) (cells @ [leaf_cell token True])
        (fl_payload self, fl_declined self) = ((fl_payload self', fl_declined self'), run, result)"
      and v: "v = map_option Consumer result"
      using res inv ok root by (auto simp: filter_inv_def)
    have "rooted (fl_payload self') result"
    proof (rule visible_root)
      show "inv (fl_payload self) (below' @ kids' @ trail')" using cells(3) by (simp add: parts(1))
      show "spans_from source 0 (shapes (below' @ kids' @ trail'))" using spans by (simp only: all spans_erase)
      show "reduce_split (unat child_count) (shapes (below' @ kids' @ trail')) (shapes below') (shapes kids') (shapes trail')"
        using split_erase [OF split] by (simp only: all shape)
      show "list_all nd_extra (shapes below')" using lead by (simp add: shape list_all_iff)
      show "token_at source (end_from 0 (shapes (below' @ kids' @ trail'))) token" using token(1) by (simp only: all end_erase)
      show "visible_reduce mem vsink lang (root_reduction token (shapes (below' @ kids' @ trail')) None
          (reduction_over symbol production_id child_count (shapes below') (shapes kids')))
          (below' @ kids' @ trail' @ [leaf_cell token True]) (fl_payload self, fl_declined self) =
          ((fl_payload self', fl_declined self'), run, result)"
        using vr by (simp add: root_reduction_erase reduction_over_erase all shape parts(1) del: map_append)
    qed (rule symbol token(2))+
    then show ?thesis using res inv v ok by (auto simp: filter_inv_def filter_rooted_def)
  qed
qed

sublocale through: sink_client "filter_sink mem" source filter_inv filter_rooted
proof
  fix p :: "('q, 'c) TFFilter" and nodes :: "'c pointer TFNode list" and token extra p' v
  assume inv: "filter_inv p nodes" and spans: "spans_from source 0 nodes"
    and token: "token_at source (end_from 0 nodes) token" "tok_symbol token \<noteq> 0"
    and emit: "tf_parser_emit_shift (filter_sink mem) p token extra = (p', v)"
  have pv: "p' = p" "v = tf_filter_store_cell 0 0" using emit by (simp_all add: emit_filter)
  have "\<exists>cells. list_all2 holds (nodes @ [token_node token extra v]) cells \<and> fl_arena p = runs cells \<and> inv (fl_payload p) cells"
    if "list_all2 holds nodes cells" "fl_arena p = runs cells" "inv (fl_payload p) cells" for cells
  proof (intro exI [of _ "cells @ [leaf_cell token extra]"] conjI)
    show "list_all2 holds (nodes @ [token_node token extra v]) (cells @ [leaf_cell token extra])"
      unfolding pv by (rule list_all2_appendI [OF that(1)]) (simp add: holds_leaf)
    show "fl_arena p = runs (cells @ [leaf_cell token extra])" using that(2) by (simp add: leaf_cell_def)
    show "inv (fl_payload p) (cells @ [leaf_cell token extra])"
      using that(3) spans token by (intro visible_shift) (simp_all add: map_st_node [OF that(1)])
  qed
  then show "filter_inv p' (nodes @ [token_node token extra v])"
    using inv token(2) unfolding filter_inv_def by (auto simp: pv) (simp_all add: token_node_def)
next
  fix p :: "('q, 'c) TFFilter" and nodes below kids trail :: "'c pointer TFNode list"
    and child_count symbol production_id p' v
  assume "filter_inv p nodes" and "spans_from source 0 nodes" and "reduce_split (unat child_count) nodes below kids trail"
    and "symbol \<noteq> 0"
    and "tf_parser_emit_reduce (filter_sink mem) p (reduction_over symbol production_id child_count below kids) = (p', v)"
  then show "filter_inv p' (below @ parent_node (reduction_over symbol production_id child_count below kids) v # trail)"
    unfolding emit_filter by (rule filter_reduce)
next
  fix p :: "('q, 'c) TFFilter" and nodes below kids trail :: "'c pointer TFNode list"
    and child_count symbol token p1 v1 production_id p' v
  assume prems: "filter_inv p nodes" "spans_from source 0 nodes" "reduce_split (unat child_count) nodes below kids trail"
    "list_all nd_extra below" "symbol \<noteq> 0" "token_at source (end_from 0 nodes) token" "tok_symbol token = 0"
    and shift: "tf_parser_emit_shift (filter_sink mem) p token True = (p1, v1)"
    and emit: "tf_parser_emit_reduce (filter_sink mem) p1 (root_reduction token nodes v1
        (reduction_over symbol production_id child_count below kids)) = (p', v)"
  have "p1 = p" "v1 = tf_filter_store_cell 0 0" using shift by (simp_all add: emit_filter)
  with emit show "filter_rooted p' v" unfolding emit_filter by (intro filter_root [OF prems]) simp
qed

text \<open>
  A parse through the filter: when it succeeds the client's root has been reported; when it
  fails, and memory was not the reason, the runs of all cells are handed back; it is undefined
  only where the driver is.
\<close>

lemma filter_end:
  assumes run: "tf_parser_run mem split lang source sz (Some (filter_sink mem)) want (new_filter lang vsink q0) = Some (self, err, ended)"
    and inv: "inv q0 []" and mem: "bounded_filter mem"
    and hyps: "unat sz = length source" "tables_ok lang" "lexes_tokens lang" "split_contract mem lang source split"
    and finish: "finish_visible self err ended = (q, err', outcome)"
  shows "case outcome of
       Visible v \<Rightarrow> rooted q v
     | Refused \<Rightarrow> fl_failed self \<or> (\<exists>q1 cells. inv q1 cells \<and> q = discard_entries vsink (runs cells) q1)
     | Undefined \<Rightarrow> \<exists>f. ended = Fault f"
proof -
  have "filter_inv (new_filter lang vsink q0) []"
    using inv mem by (simp add: filter_inv_def filter_ok_def new_filter_def)
  note ends = through.client_run [OF run this hyps]
  show ?thesis
  proof (cases ended)
    case (Parsed v)
    then have "filter_rooted self v" using ends by simp
    then have ok: "\<not> fl_fault self" "fl_failed self \<or> (\<exists>root. v = map_option Consumer root \<and> rooted (fl_payload self) root)"
      by (auto simp: filter_rooted_def filter_ok_def split: if_splits)
    show ?thesis
    proof (cases "fl_failed self")
      case True
      then show ?thesis using finish Parsed ok(1) by (auto simp: finish_visible_def Let_def)
    next
      case False
      then obtain root where "v = map_option Consumer root" "rooted (fl_payload self) root" using ok(2) by blast
      then show ?thesis using finish Parsed ok(1) False by (cases root) (auto simp: finish_visible_def Let_def)
    qed
  next
    case Failed
    then obtain p1 nodes lost where "filter_inv p1 (nodes @ lost)" and "self = discard_values (filter_sink mem) nodes p1"
      using ends by auto
    then have "filter_inv self (nodes @ lost)" by (simp add: discard_values_def filter_sink_def)
    then have ok: "\<not> fl_fault self" "fl_sink self = vsink"
      "fl_failed self \<or> (\<exists>cells. fl_arena self = runs cells \<and> inv (fl_payload self) cells)"
      by (auto simp: filter_inv_def filter_ok_def)
    have out: "outcome = Refused" "q = discard_entries vsink (fl_arena self) (fl_payload self)"
      using finish Failed ok(1,2) by (auto simp: finish_visible_def Let_def)
    then have "fl_failed self \<or> (\<exists>q1 cells. inv q1 cells \<and> q = discard_entries vsink (runs cells) q1)"
      using ok(3) by metis
    then show ?thesis by (simp add: out(1))
  next
    case (Fault f)
    then show ?thesis using finish by (auto simp: finish_visible_def Let_def split: if_splits)
  qed
qed

end

end
