(* ===== verification/Visible_Tree.thy ===== *)
theory Visible_Tree
  imports Visible_Client Tree
begin

text \<open>
  The visible tree of a parse tree, defined on the tree itself, and a consumer of visible nodes
  that builds it.
\<close>

section \<open>The visible tree\<close>

text \<open>
  A node: symbol, production, named, extra, span, and its children, each with its symbol, its
  field, whether it is an extra, and its node.
\<close>

datatype vtree =
  VTree TSSymbol u16 bool bool u32 u32 "(TSSymbol \<times> TSFieldId \<times> bool \<times> vtree option) list"

definition child_tuple :: "'c TFVisibleChild \<Rightarrow> TSSymbol \<times> TSFieldId \<times> bool \<times> 'c option" where
  "child_tuple c = (ch_symbol c, ch_field_id c, ch_extra c, ch_value c)"

definition vtree_of :: "vtree TFVisibleNode \<Rightarrow> vtree" where
  "vtree_of node = VTree (vn_symbol node) (vn_production_id node) (vn_named node) (vn_extra node)
     (vn_start_byte node) (vn_end_byte node) (map child_tuple (vn_children node))"

fun tree_production :: "ptree \<Rightarrow> u16" where
  "tree_production (Leaf _ _) = 0"
| "tree_production (Branch _ production _ _ _ _) = production"

text \<open>What the rules look at of a child: its symbol, whether it is an extra, and its span.\<close>

definition tree_node :: "ptree \<Rightarrow> unit TFNode" where
  "tree_node t = \<lparr>nd_symbol = tree_symbol t, nd_extra = tree_extra t, nd_start_byte = tree_start t,
     nd_end_byte = tree_end t, nd_start_point = zero_point, nd_end_point = zero_point, nd_value = None\<rparr>"

text \<open>The entry of a visible child that owns \<open>run\<close>; nothing when it is left out.\<close>

definition visible_entry ::
  "TFLanguage \<Rightarrow> bool \<Rightarrow> u16 \<Rightarrow> nat \<Rightarrow> ptree \<Rightarrow> vtree TFVisibleChild list \<Rightarrow> vtree TFVisibleChild list" where
  "visible_entry lang named_only p s t run =
    (let field = child_field lang p (tree_node t) s;
         node = visible_node lang p (tree_node t) s (tree_production t) (of_nat (length run)) run
     in if named_only \<and> \<not> child_named lang p (tree_node t) s \<and> field = 0 \<and> run = [] then []
        else [\<lparr>ch_symbol = vn_symbol node, ch_field_id = field, ch_extra = tree_extra t, ch_value = Some (vtree_of node)\<rparr>])"

text \<open>
  The visible children of a tree: a visible child gives an entry for its node, a hidden one its
  own visible children, with its field where they have none.
\<close>

fun own_run :: "TFLanguage \<Rightarrow> bool \<Rightarrow> ptree \<Rightarrow> vtree TFVisibleChild list"
  and child_runs :: "TFLanguage \<Rightarrow> bool \<Rightarrow> u16 \<Rightarrow> ptree list \<Rightarrow> nat \<Rightarrow> vtree TFVisibleChild list" where
  "own_run lang named_only (Leaf _ _) = []"
| "own_run lang named_only (Branch _ p _ _ _ kids) = child_runs lang named_only p kids 0"
| "child_runs lang named_only p [] s = []"
| "child_runs lang named_only p (t # kids) s =
    (if child_visible lang p (tree_node t) s then visible_entry lang named_only p s t (own_run lang named_only t)
     else map (give_field (child_field lang p (tree_node t) s)) (own_run lang named_only t)) @
    child_runs lang named_only p kids (next_structural (tree_node t) s)"

text \<open>The root's node; a hidden root has none.\<close>

fun visible_root_tree :: "TFLanguage \<Rightarrow> bool \<Rightarrow> ptree \<Rightarrow> vtree option" where
  "visible_root_tree lang named_only (Leaf _ _) = None"
| "visible_root_tree lang named_only (Branch symbol p c start end kids) =
    (if md_visible (tf_symbol_metadata lang symbol)
     then Some (VTree (tf_public_symbol lang symbol) p (md_named (tf_symbol_metadata lang symbol)) False start end
            (map child_tuple (own_run lang named_only (Branch symbol p c start end kids))))
     else None)"

section \<open>The consumer\<close>

text \<open>Its payload counts the nodes it was told of.\<close>

definition vtree_sink :: "bool \<Rightarrow> (nat, vtree) TFVisibleSink" where
  "vtree_sink named_only =
     \<lparr>vs_on_node = Some (\<lambda>n node. (n + 1, Some (vtree_of node))), vs_on_discard = None, vs_on_hidden = None,
      vs_named_only = named_only\<rparr>"

text \<open>A cell, the driver's cell with the tree in it, and the run it owns.\<close>

definition vtree_cell :: "TFLanguage \<Rightarrow> bool \<Rightarrow> ptree TFNode \<Rightarrow> vtree settled_cell \<Rightarrow> bool" where
  "vtree_cell lang named_only n cell \<longleftrightarrow>
     st_node cell = erase_node n \<and> nd_symbol n = tree_symbol (cell_tree n) \<and>
     nd_extra n = tree_extra (cell_tree n) \<and> nd_start_byte n = tree_start (cell_tree n) \<and>
     nd_end_byte n = tree_end (cell_tree n) \<and>
     st_production cell = tree_production (cell_tree n) \<and> st_run cell = own_run lang named_only (cell_tree n)"

definition vtree_inv :: "u8 list \<Rightarrow> TFLanguage \<Rightarrow> bool \<Rightarrow> nat \<Rightarrow> vtree settled_cell list \<Rightarrow> bool" where
  "vtree_inv source lang named_only q cells \<longleftrightarrow>
     (\<exists>log nodes. tree_inv source log nodes \<and> list_all2 (vtree_cell lang named_only) nodes cells)"

definition vtree_rooted :: "u8 list \<Rightarrow> TFLanguage \<Rightarrow> bool \<Rightarrow> nat \<Rightarrow> vtree option \<Rightarrow> bool" where
  "vtree_rooted source lang named_only q v \<longleftrightarrow>
     (\<exists>log root. tree_rooted source log (Some root) \<and> v = visible_root_tree lang named_only root)"

lemma emit_vtree [simp]:
  "emit_node (vtree_sink named_only) q node = (q + 1, Some (vtree_of node))"
  "vs_on_hidden (vtree_sink named_only) = None" "vs_named_only (vtree_sink named_only) = named_only"
  by (simp_all add: emit_node_def vtree_sink_def)

text \<open>The rules see the same child in the cell and in the tree.\<close>

lemma same_child:
  assumes "nd_symbol n = nd_symbol m" and "nd_extra n = nd_extra m"
  shows "child_alias lang p n s = child_alias lang p m s" "child_field lang p n s = child_field lang p m s"
    "child_visible lang p n s = child_visible lang p m s" "child_named lang p n s = child_named lang p m s"
    "next_structural n s = next_structural m s"
proof -
  show al: "child_alias lang p n s = child_alias lang p m s"
    by (cases "tf_alias_sequence lang (unat p)") (simp_all add: child_alias_def assms)
  show "child_field lang p n s = child_field lang p m s" by (simp add: child_field_def assms)
  show "child_visible lang p n s = child_visible lang p m s" by (simp add: child_visible_def al assms)
  show "child_named lang p n s = child_named lang p m s" by (simp add: child_named_def al assms)
  show "next_structural n s = next_structural m s" by (simp add: next_structural_def assms)
qed

lemma vtree_visible_run:
  assumes "list_all2 (vtree_cell lang named_only) nodes cells"
  shows "\<exists>q'. visible_run (vtree_sink named_only) lang p cells s q = (q', child_runs lang named_only p (map cell_tree nodes) s)"
  using assms
proof (induction nodes cells arbitrary: s q rule: list_all2_induct)
  case Nil
  then show ?case by simp
next
  case (Cons n nodes cell cells)
  let ?t = "cell_tree n"
  have n: "tree_extra ?t = nd_extra n" "tree_start ?t = nd_start_byte n" "tree_end ?t = nd_end_byte n"
    "nd_symbol n = tree_symbol ?t"
    using Cons.hyps(1) by (simp_all add: vtree_cell_def)
  have cell: "st_node cell = erase_node n" "st_production cell = tree_production ?t" "st_run cell = own_run lang named_only ?t"
    using Cons.hyps(1) by (simp_all add: vtree_cell_def)
  have "nd_symbol (tree_node ?t) = nd_symbol n" "nd_extra (tree_node ?t) = nd_extra n"
    by (simp_all add: tree_node_def n)
  note same = same_child [OF this]
  have node: "vtree_of (visible_node lang p n s pr owns run) = vtree_of (visible_node lang p (tree_node ?t) s pr owns run)"
    "vn_symbol (visible_node lang p n s pr owns run) = vn_symbol (visible_node lang p (tree_node ?t) s pr owns run)"
    for pr owns run
    by (simp_all add: vtree_of_def visible_node_def Let_def same) (simp_all add: tree_node_def n)
  show ?case
    using Cons.IH [of "next_structural n s" q] Cons.IH [of "next_structural n s" "q + 1"]
    by (auto simp: Let_def cell same node visible_entry_def n(1))
qed

lemma vtree_reduce:
  assumes "list_all2 (vtree_cell lang named_only) (rd_children rd) cells"
    and "visible_reduce mem (vtree_sink named_only) lang (erase_reduction rd) cells (q, declined) = ((q', declined'), run, root)"
  shows "run = own_run lang named_only (branch_of rd)"
    and "is_root rd \<Longrightarrow> root = visible_root_tree lang named_only (branch_of rd)"
proof -
  let ?run = "child_runs lang named_only (rd_production_id rd) (map cell_tree (rd_children rd)) 0"
  obtain q1 where run: "visible_run (vtree_sink named_only) lang (rd_production_id rd) cells 0 q = (q1, ?run)"
    using vtree_visible_run [OF assms(1), of "rd_production_id rd" 0 q] by blast
  have own: "own_run lang named_only (branch_of rd) = ?run" by (simp add: branch_of_def)
  then show "run = own_run lang named_only (branch_of rd)"
    using assms(2) by (auto simp: visible_reduce_def run fold_run_def Let_def split: if_splits)
  show "root = visible_root_tree lang named_only (branch_of rd)" if "is_root rd"
    using assms(2) that own
    by (auto simp: visible_reduce_def run fold_run_def Let_def vtree_of_def reduction_node_def branch_of_def split: if_splits)
qed

lemma vtree_cells_split:
  assumes "list_all2 (vtree_cell lang named_only) nodes (below @ kids @ trail)"
  obtains below' kids' trail' where "nodes = below' @ kids' @ trail'" "list_all2 (vtree_cell lang named_only) below' below"
    "list_all2 (vtree_cell lang named_only) kids' kids" "list_all2 (vtree_cell lang named_only) trail' trail"
    "map erase_node below' = shapes below" "map erase_node kids' = shapes kids" "map erase_node trail' = shapes trail"
proof -
  have shape: "map erase_node ns = shapes cs" if "list_all2 (vtree_cell lang named_only) ns cs" for ns cs
    using that by (induction rule: list_all2_induct) (simp_all add: vtree_cell_def)
  obtain below' rest where 1: "nodes = below' @ rest" "list_all2 (vtree_cell lang named_only) below' below"
    "list_all2 (vtree_cell lang named_only) rest (kids @ trail)"
    using assms by (auto simp: list_all2_append2)
  obtain kids' trail' where "rest = kids' @ trail'" "list_all2 (vtree_cell lang named_only) kids' kids"
    "list_all2 (vtree_cell lang named_only) trail' trail"
    using 1(3) by (auto simp: list_all2_append2)
  then show thesis using that 1 shape by blast
qed

lemma unerase_split:
  "reduce_split c (map erase_node nodes) (map erase_node below) (map erase_node kids) (map erase_node trail) \<Longrightarrow>
     nodes = below @ kids @ trail \<Longrightarrow> reduce_split c nodes below kids trail"
  by (auto simp: reduce_split_def hd_map last_map list_all_iff split: if_splits)

interpretation vtree: visible_client mem lang "vtree_sink named_only" source
    "vtree_inv source lang named_only" "vtree_rooted source lang named_only"
  for mem lang named_only source
proof
  fix q :: nat and cells :: "vtree settled_cell list" and token extra
  assume inv: "vtree_inv source lang named_only q cells" and spans: "spans_from source 0 (shapes cells)"
    and token: "token_at source (end_from 0 (shapes cells)) token" "tok_symbol token \<noteq> 0"
  obtain log nodes where tree: "tree_inv source log nodes" and cells: "list_all2 (vtree_cell lang named_only) nodes cells"
    using inv by (auto simp: vtree_inv_def)
  obtain nodes' where "nodes = nodes'" and shape: "map erase_node nodes = shapes cells"
    using vtree_cells_split [of lang named_only nodes cells "[]" "[]"] cells by auto
  let ?n = "token_node token extra (Some (Leaf token extra))"
  have "tree_inv source (log @ [(token, extra)]) (nodes @ [?n])"
    using spans token by (intro tree.client_shift [OF tree]) (simp_all flip: shape)
  moreover have "vtree_cell lang named_only ?n (leaf_cell token extra)"
    by (simp add: vtree_cell_def leaf_cell_def) (simp add: token_node_def)
  ultimately show "vtree_inv source lang named_only q (cells @ [leaf_cell token extra])"
    unfolding vtree_inv_def by (intro exI conjI) (assumption, rule list_all2_appendI [OF cells], simp)
next
  fix q q' :: nat and below kids trail :: "vtree settled_cell list"
    and child_count symbol production_id declined declined' run root
  let ?rd = "reduction_over symbol production_id child_count (shapes below) (shapes kids)"
  assume inv: "vtree_inv source lang named_only q (below @ kids @ trail)"
    and spans: "spans_from source 0 (shapes (below @ kids @ trail))"
    and split: "reduce_split (unat child_count) (shapes (below @ kids @ trail)) (shapes below) (shapes kids) (shapes trail)"
    and symbol: "symbol \<noteq> 0"
    and red: "visible_reduce mem (vtree_sink named_only) lang ?rd kids (q, declined) = ((q', declined'), run, root)"
  obtain log nodes where tree: "tree_inv source log nodes"
    and cells: "list_all2 (vtree_cell lang named_only) nodes (below @ kids @ trail)"
    using inv by (auto simp: vtree_inv_def)
  obtain b k t where parts: "nodes = b @ k @ t" "list_all2 (vtree_cell lang named_only) b below"
    "list_all2 (vtree_cell lang named_only) k kids" "list_all2 (vtree_cell lang named_only) t trail"
    "map erase_node b = shapes below" "map erase_node k = shapes kids" "map erase_node t = shapes trail"
    using vtree_cells_split [OF cells] by blast
  have shape: "shapes (below @ kids @ trail) = map erase_node nodes" by (simp add: parts(1) flip: parts(5-7))
  let ?rt = "reduction_over symbol production_id child_count b k"
  have rd: "?rd = erase_reduction ?rt" by (simp only: reduction_over_erase parts(5,6))
  have splits: "reduce_split (unat child_count) nodes b k t"
    using split parts(1) unfolding shape parts(5-7) [symmetric] by (rule unerase_split)
  have kids: "rd_children ?rt = k" by (simp add: reduction_over_def)
  have "tree_inv source log (b @ parent_node ?rt (Some (branch_of ?rt)) # t)"
    using spans symbol by (intro tree.client_reduce [OF tree _ splits]) (simp_all add: shape del: map_append)
  moreover have "run = own_run lang named_only (branch_of ?rt)"
    using red parts(3) unfolding rd by (intro vtree_reduce(1) [where rd = ?rt]) (simp_all only: kids)
  then have "vtree_cell lang named_only (parent_node ?rt (Some (branch_of ?rt))) (branch_cell ?rd run)"
    by (simp add: vtree_cell_def branch_cell_def rd erase_parent) (simp add: parent_node_def branch_of_def)
  then have "list_all2 (vtree_cell lang named_only) (b @ parent_node ?rt (Some (branch_of ?rt)) # t) (below @ branch_cell ?rd run # trail)"
    using parts(2,4) by (simp add: list_all2_appendI)
  ultimately show "vtree_inv source lang named_only q' (below @ branch_cell ?rd run # trail)"
    unfolding vtree_inv_def by blast
next
  fix q q' :: nat and below kids trail :: "vtree settled_cell list"
    and child_count symbol production_id token declined declined' run root
  let ?rd = "root_reduction token (shapes (below @ kids @ trail)) None
      (reduction_over symbol production_id child_count (shapes below) (shapes kids))"
  assume inv: "vtree_inv source lang named_only q (below @ kids @ trail)"
    and spans: "spans_from source 0 (shapes (below @ kids @ trail))"
    and split: "reduce_split (unat child_count) (shapes (below @ kids @ trail)) (shapes below) (shapes kids) (shapes trail)"
    and lead: "list_all nd_extra (shapes below)" and symbol: "symbol \<noteq> 0"
    and token: "token_at source (end_from 0 (shapes (below @ kids @ trail))) token" "tok_symbol token = 0"
    and red: "visible_reduce mem (vtree_sink named_only) lang ?rd (below @ kids @ trail @ [leaf_cell token True]) (q, declined) =
      ((q', declined'), run, root)"
  obtain log nodes where tree: "tree_inv source log nodes"
    and cells: "list_all2 (vtree_cell lang named_only) nodes (below @ kids @ trail)"
    using inv by (auto simp: vtree_inv_def)
  obtain b k t where parts: "nodes = b @ k @ t" "map erase_node b = shapes below" "map erase_node k = shapes kids"
    "map erase_node t = shapes trail"
    using vtree_cells_split [OF cells] by blast
  have shape: "shapes (below @ kids @ trail) = map erase_node nodes" by (simp add: parts(1) flip: parts(2-4))
  let ?leaf = "token_node token True (Some (Leaf token True))"
  let ?rt = "root_reduction token nodes (Some (Leaf token True)) (reduction_over symbol production_id child_count b k)"
  have rd: "?rd = erase_reduction ?rt" by (simp only: root_reduction_erase reduction_over_erase parts(2,3) shape)
  have splits: "reduce_split (unat child_count) nodes b k t"
    using split parts(1) unfolding shape parts(2-4) [symmetric] by (rule unerase_split)
  have "list_all nd_extra b" using lead unfolding parts(2) [symmetric] by (simp add: list_all_iff)
  then have rooted: "tree_rooted source (log @ [(token, True)]) (Some (branch_of ?rt))"
    using spans symbol token by (intro tree.client_root [OF tree _ splits]) (simp_all add: shape del: map_append)
  have children: "rd_children ?rt = nodes @ [?leaf]" by (simp add: root_reduction_def Let_def)
  have "vtree_cell lang named_only ?leaf (leaf_cell token True)"
    by (simp add: vtree_cell_def leaf_cell_def) (simp add: token_node_def)
  then have all2: "list_all2 (vtree_cell lang named_only) (rd_children ?rt) ((below @ kids @ trail) @ [leaf_cell token True])"
    unfolding children by (intro list_all2_appendI [OF cells]) simp
  have "is_root ?rt" by (simp add: is_root_def children ts_builtin_sym_end_def token_node_def token(2))
  moreover have "visible_reduce mem (vtree_sink named_only) lang (erase_reduction ?rt) ((below @ kids @ trail) @ [leaf_cell token True])
      (q, declined) = ((q', declined'), run, root)"
    using red unfolding rd by simp
  ultimately have "root = visible_root_tree lang named_only (branch_of ?rt)"
    using vtree_reduce(2) [OF all2] by blast
  then show "vtree_rooted source lang named_only q' root"
    using rooted unfolding vtree_rooted_def by blast
qed

end
