(* ===== verification/Visible_Ledger.thy ===== *)
theory Visible_Ledger
  imports Visible_Client Ledger
begin

text \<open>
  A consumer of visible nodes that numbers the values it gives out and keeps a ledger of those
  it was handed back: in the children of a node, in a folded run, or discarded.
\<close>

definition entry_values :: "'c TFVisibleChild list \<Rightarrow> 'c list" where
  "entry_values run = concat (map (\<lambda>e. case ch_value e of Some v \<Rightarrow> [v] | None \<Rightarrow> []) run)"

lemma entry_values_simps [simp]:
  "entry_values [] = []" "entry_values (xs @ ys) = entry_values xs @ entry_values ys"
  "entry_values (e # run) = (case ch_value e of Some v \<Rightarrow> [v] | None \<Rightarrow> []) @ entry_values run"
  "entry_values (map (give_field field) run) = entry_values run"
  by (simp_all add: entry_values_def comp_def)

lemma entry_values_cong:
  fixes xs ys :: "'c TFVisibleChild list"
  assumes "map ch_value xs = map ch_value ys"
  shows "entry_values xs = entry_values ys"
proof -
  have "entry_values run = concat (map (\<lambda>v. case v of Some v \<Rightarrow> [v] | None \<Rightarrow> []) (map ch_value run))" for run :: "'c TFVisibleChild list"
    by (induction run) simp_all
  then show ?thesis by (simp only: assms)
qed

definition take_run :: "ledger \<Rightarrow> nat TFVisibleNode \<Rightarrow> ledger \<times> nat option" where
  "take_run l node = (l\<lparr>issued := issued l + 1, used := used l @ entry_values (vn_children node)\<rparr>, Some (issued l))"

text \<open>It folds the runs \<open>folds\<close> asks it to, and declines the others.\<close>

definition visible_ledger_sink :: "(nat TFVisibleNode \<Rightarrow> bool) \<Rightarrow> bool \<Rightarrow> (ledger, nat) TFVisibleSink" where
  "visible_ledger_sink folds named_only =
     \<lparr>vs_on_node = Some take_run,
      vs_on_discard = Some (\<lambda>l v. l\<lparr>given_back := given_back l @ [v]\<rparr>),
      vs_on_hidden = Some (\<lambda>l node. if folds node then take_run l node else (l, None)),
      vs_named_only = named_only\<rparr>"

lemma emit_visible_ledger [simp]: "emit_node (visible_ledger_sink folds named_only) l node = take_run l node"
  by (simp add: emit_node_def visible_ledger_sink_def)

lemma discard_visible_ledger:
  "discard_entries (visible_ledger_sink folds named_only) arena l = l\<lparr>given_back := given_back l @ entry_values arena\<rparr>"
  unfolding discard_entries_def visible_ledger_sink_def TFVisibleSink.select_convs option.case
  by (induction arena arbitrary: l) (auto split: option.split)

text \<open>The values given out are the consumed ones and those in the runs.\<close>

definition balanced :: "ledger \<Rightarrow> nat multiset \<Rightarrow> bool" where
  "balanced l live \<longleftrightarrow> mset (used l) + live = mset [0..<issued l] \<and> given_back l = []"

definition visible_ledger_inv :: "ledger \<Rightarrow> nat settled_cell list \<Rightarrow> bool" where
  "visible_ledger_inv l cells \<longleftrightarrow> balanced l (mset (entry_values (runs cells)))"

definition visible_ledger_rooted :: "ledger \<Rightarrow> nat option \<Rightarrow> bool" where
  "visible_ledger_rooted l v \<longleftrightarrow> given_back l = [] \<and> (\<forall>root. v = Some root \<longrightarrow> balanced l {#root#})"

lemma take_run_balanced:
  assumes "balanced l (mset (entry_values (vn_children node)) + live)" and "take_run l node = (l', v)"
  shows "\<exists>u. v = Some u \<and> balanced l' (add_mset u live)"
  using assms by (auto simp: balanced_def take_run_def ac_simps)

lemma visible_node_children [simp]: "vn_children (visible_node lang p child s pr owns run) = run"
  by (simp add: visible_node_def Let_def)

lemma visible_run_balanced:
  assumes "visible_run (visible_ledger_sink folds named_only) lang p cells s l = (l', run)"
    and "balanced l (mset (entry_values (runs cells)) + live)"
  shows "balanced l' (mset (entry_values run) + live)"
  using assms
proof (induction cells arbitrary: s l run live)
  case Nil
  then show ?case by simp
next
  case (Cons cell cells)
  let ?next = "next_structural (st_node cell) s"
  have step: ?case if first: "balanced l1 (mset (entry_values es) + (mset (entry_values (runs cells)) + live))"
    and rest: "visible_run (visible_ledger_sink folds named_only) lang p cells ?next l1 = (l', rest)" and run: "run = es @ rest"
    for l1 es rest
  proof -
    have "balanced l1 (mset (entry_values (runs cells)) + (mset (entry_values es) + live))"
      using first by (simp add: ac_simps)
    from Cons.IH [OF rest this] show ?thesis by (simp add: run ac_simps)
  qed
  let ?field = "child_field lang p (st_node cell) s"
  have before: "balanced l (mset (entry_values (st_run cell)) + (mset (entry_values (runs cells)) + live))"
    using Cons.prems(2) by (simp add: ac_simps)
  obtain rest l1 where rest: "visible_run (visible_ledger_sink folds named_only) lang p cells ?next l = (l1, rest)" by fastforce
  consider "\<not> child_visible lang p (st_node cell) s"
    | "child_visible lang p (st_node cell) s" "named_only \<and> \<not> child_named lang p (st_node cell) s \<and> ?field = 0 \<and> st_run cell = []"
    | "child_visible lang p (st_node cell) s" "\<not> (named_only \<and> \<not> child_named lang p (st_node cell) s \<and> ?field = 0 \<and> st_run cell = [])"
    by blast
  then show ?case
  proof cases
    case 1
    then show ?thesis
      using Cons.prems(1) rest before by (intro step [of l "map (give_field ?field) (st_run cell)" rest]) (auto simp: Let_def)
  next
    case 2
    then show ?thesis
      using Cons.prems(1) rest before
      by (intro step [of l "[]" rest]) (auto simp: Let_def visible_ledger_sink_def)
  next
    case 3
    define node where "node = visible_node lang p (st_node cell) s (st_production cell) (of_nat (length (st_run cell))) (st_run cell)"
    obtain l2 v where node: "take_run l node = (l2, v)" by fastforce
    obtain rest' l3 where rest': "visible_run (visible_ledger_sink folds named_only) lang p cells ?next l2 = (l3, rest')" by fastforce
    have "balanced l (mset (entry_values (vn_children node)) + (mset (entry_values (runs cells)) + live))"
      using before by (simp add: node_def)
    from take_run_balanced [OF this node] obtain u where
      u: "v = Some u" "balanced l2 (add_mset u (mset (entry_values (runs cells)) + live))" by blast
    let ?entry = "\<lparr>ch_symbol = vn_symbol node, ch_field_id = ?field, ch_extra = nd_extra (st_node cell), ch_value = v\<rparr>"
    have named: "vs_named_only (visible_ledger_sink folds named_only) = named_only" by (simp add: visible_ledger_sink_def)
    have "(l', run) = (l3, [?entry] @ rest')"
      using Cons.prems(1) 3 node rest' by (simp add: Let_def named node_def [symmetric] del: de_Morgan_conj)
    then show ?thesis using rest' u by (intro step [of l2 "[?entry]" rest']) auto
  qed
qed

lemma fold_run_balanced:
  assumes "fold_run mem (visible_ledger_sink folds named_only) lang rd run (l, declined) = ((l', declined'), run')"
    and "balanced l (mset (entry_values run) + live)"
  shows "balanced l' (mset (entry_values run') + live)"
proof -
  have take: "balanced l1 (add_mset u live)" if "take_run l (reduction_node lang rd False run) = (l1, Some u)" for l1 u
    using take_run_balanced [of l "reduction_node lang rd False run" live, OF _ that] assms(2)
    by (simp add: reduction_node_def)
  show ?thesis
    using assms take
    by (auto simp: fold_run_def visible_ledger_sink_def Let_def take_run_def split: if_splits option.splits prod.splits)
qed

lemma visible_reduce_balanced:
  assumes red: "visible_reduce mem (visible_ledger_sink folds named_only) lang rd cells (l, declined) = ((l', declined'), run, root)"
    and bal: "balanced l (mset (entry_values (runs cells)) + live)"
  shows "\<not> is_root rd \<Longrightarrow> balanced l' (mset (entry_values run) + live)"
    and "live = {#} \<Longrightarrow> is_root rd \<Longrightarrow> visible_ledger_rooted l' root"
proof -
  let ?sink = "visible_ledger_sink folds named_only"
  obtain l1 run1 where 1: "visible_run ?sink lang (rd_production_id rd) cells 0 l = (l1, run1)" by fastforce
  obtain l2 d2 run2 where 2: "fold_run mem ?sink lang rd run1 (l1, declined) = ((l2, d2), run2)"
    by (metis prod.exhaust)
  have b2: "balanced l2 (mset (entry_values run2) + live)"
    using fold_run_balanced [OF 2 visible_run_balanced [OF 1 bal]] .
  let ?node = "reduction_node lang rd (md_named (tf_symbol_metadata lang (rd_symbol rd))) run2"
  have result: "visible_reduce mem ?sink lang rd cells (l, declined) =
    (if is_root rd \<and> md_visible (tf_symbol_metadata lang (rd_symbol rd))
     then let (q, value) = take_run l2 ?node in ((q, d2), run2, value) else ((l2, d2), run2, None))"
    by (simp add: visible_reduce_def 1 2 Let_def)
  show "\<not> is_root rd \<Longrightarrow> balanced l' (mset (entry_values run) + live)"
    using red b2 unfolding result by simp
  assume live: "live = {#}" and "is_root rd"
  obtain l3 v where take: "take_run l2 ?node = (l3, v)" by fastforce
  have "balanced l2 (mset (entry_values (vn_children ?node)) + {#})"
    using b2 by (simp add: live reduction_node_def)
  from take_run_balanced [OF this take] have "balanced l3 {#u#}" if "v = Some u" for u
    using that by simp
  moreover have "given_back l2 = []" "given_back l3 = []"
    using b2 take by (auto simp: balanced_def take_run_def)
  ultimately show "visible_ledger_rooted l' root"
    using red unfolding result by (auto simp: take visible_ledger_rooted_def split: if_splits)
qed

interpretation visible_ledger: visible_client mem lang "visible_ledger_sink folds named_only" source
    visible_ledger_inv visible_ledger_rooted
  for mem lang folds named_only source
proof
  fix q :: ledger and cells :: "nat settled_cell list" and token extra
  assume "visible_ledger_inv q cells"
  then show "visible_ledger_inv q (cells @ [leaf_cell token extra])"
    by (simp add: visible_ledger_inv_def leaf_cell_def)
next
  fix q q' :: ledger and below kids trail :: "nat settled_cell list"
    and child_count symbol production_id declined declined' run root
  let ?rd = "reduction_over symbol production_id child_count (shapes below) (shapes kids)"
  assume inv: "visible_ledger_inv q (below @ kids @ trail)"
    and red: "visible_reduce mem (visible_ledger_sink folds named_only) lang ?rd kids (q, declined) = ((q', declined'), run, root)"
    and root: "\<not> is_root ?rd"
  have "balanced q (mset (entry_values (runs kids)) + mset (entry_values (runs below @ runs trail)))"
    using inv by (simp add: visible_ledger_inv_def ac_simps)
  from visible_reduce_balanced(1) [OF red this root]
  show "visible_ledger_inv q' (below @ branch_cell ?rd run # trail)"
    by (simp add: visible_ledger_inv_def branch_cell_def ac_simps)
next
  fix q q' :: ledger and below kids trail :: "nat settled_cell list"
    and child_count symbol production_id token declined declined' run root
  let ?rd = "root_reduction token (shapes (below @ kids @ trail)) None
      (reduction_over symbol production_id child_count (shapes below) (shapes kids))"
  assume inv: "visible_ledger_inv q (below @ kids @ trail)" and token: "tok_symbol token = 0"
    and red: "visible_reduce mem (visible_ledger_sink folds named_only) lang ?rd (below @ kids @ trail @ [leaf_cell token True]) (q, declined) =
      ((q', declined'), run, root)"
  have "balanced q (mset (entry_values (runs (below @ kids @ trail @ [leaf_cell token True]))) + {#})"
    using inv by (simp add: visible_ledger_inv_def leaf_cell_def)
  from visible_reduce_balanced(2) [OF red this refl]
  show "visible_ledger_rooted q' root"
    by (simp add: is_root_def root_reduction_def Let_def token_node_def token ts_builtin_sym_end_def)
qed

end
