(* ===== verification/Visible_Cells.thy ===== *)
theory Visible_Cells
  imports Visible_Spec
begin

text \<open>
  The two ways the filter keeps what it knows of a stack cell, the bits of a pointer and an
  array of cells, behind one interface: what was stored under a handle is read back from it,
  however many cells are stored after it.
\<close>

locale cell_store =
  fixes store :: "u32 \<Rightarrow> u16 \<Rightarrow> 's \<Rightarrow> 's \<times> 'h option" and cell :: "'s \<Rightarrow> 'h option \<Rightarrow> TFVisibleCell"
    and live :: "'s \<Rightarrow> 'h \<Rightarrow> bool"
  assumes store_reads: "store children production s = (s', Some h) \<Longrightarrow>
      live s' h \<and> cell s' (Some h) = \<lparr>vc_children = children, vc_production = production\<rparr>"
    and store_keeps: "store children production s = (s', r) \<Longrightarrow> live s h \<Longrightarrow> live s' h \<and> cell s' (Some h) = cell s (Some h)"
    and null_cell: "cell s None = \<lparr>vc_children = 0, vc_production = 0\<rparr>"
begin

text \<open>The handles of a run of stores; a refused one is \<^verbatim>\<open>NULL\<close>.\<close>

fun store_all :: "(u32 \<times> u16) list \<Rightarrow> 's \<Rightarrow> 's \<times> 'h option list" where
  "store_all [] s = (s, [])"
| "store_all ((children, production) # cs) s =
    (let (s, h) = store children production s; (s, hs) = store_all cs s in (s, h # hs))"

lemma store_all_keeps: "store_all cs s = (s', hs) \<Longrightarrow> live s h \<Longrightarrow> live s' h \<and> cell s' (Some h) = cell s (Some h)"
proof (induction cs s arbitrary: s' hs rule: store_all.induct)
  case (2 children production cs s)
  obtain s1 r where 1: "store children production s = (s1, r)" by fastforce
  obtain s2 rs where r: "store_all cs s1 = (s2, rs)" by fastforce
  have "live s1 h \<and> cell s1 (Some h) = cell s (Some h)" using store_keeps [OF 1 "2.prems"(2)] .
  then show ?case using "2.IH" [OF 1 [symmetric] refl r] "2.prems"(1) 1 r by auto
qed simp

lemma store_all_reads:
  assumes "store_all cs s = (s', hs)" and "i < length cs" and "hs ! i \<noteq> None"
  shows "cell s' (hs ! i) = \<lparr>vc_children = fst (cs ! i), vc_production = snd (cs ! i)\<rparr>"
  using assms
proof (induction cs s arbitrary: s' hs i rule: store_all.induct)
  case (2 children production cs s)
  obtain s1 r where 1: "store children production s = (s1, r)" by fastforce
  obtain s2 rs where r: "store_all cs s1 = (s2, rs)" by fastforce
  have out: "s' = s2" "hs = r # rs" using "2.prems"(1) 1 r by simp_all
  show ?case
  proof (cases i)
    case 0
    then obtain h where h: "r = Some h" using "2.prems"(3) out by auto
    with store_reads [OF 1 [unfolded h]] store_all_keeps [OF r] show ?thesis using 0 by (simp add: out h)
  next
    case (Suc j)
    then show ?thesis using "2.IH" [OF 1 [symmetric] refl r, of j] "2.prems"(2,3) out by simp
  qed
qed simp

end

interpretation packed_cells: cell_store
  "\<lambda>children production (s :: unit). (s, tf_filter_store_cell children production)"
  "\<lambda>_. tf_filter_cell" "\<lambda>_ _. True"
proof
  show "tf_filter_cell None = \<lparr>vc_children = 0, vc_production = 0\<rparr>" by (simp add: tf_filter_cell_def)
next
  fix children production and s s' :: unit and h :: "'a pointer"
  assume "(s, tf_filter_store_cell children production) = (s', Some h)"
  then show "True \<and> tf_filter_cell (Some h) = \<lparr>vc_children = children, vc_production = production\<rparr>"
    using store_cell(1) [of children production, where ?'a = 'a] by auto
qed simp

definition live_index :: "TFCellArena \<Rightarrow> nat \<Rightarrow> bool" where
  "live_index s i \<longleftrightarrow> 0 < i \<and> i \<le> length (ca_cells s)"

lemma store_indexed_cases:
  assumes "tf_filter_store_indexed_cell mem children production s = (s', r)"
  obtains "s' = s" "r = None"
    | c where "s' = \<lparr>ca_cells = ca_cells s @ [\<lparr>vc_children = children, vc_production = production\<rparr>], ca_capacity = c\<rparr>"
      "r = Some (length (ca_cells s) + 1)"
  using assms
  by (cases s) (auto simp: tf_filter_store_indexed_cell_def Let_def split: if_splits option.splits)

interpretation indexed_cells: cell_store "tf_filter_store_indexed_cell mem" tf_filter_indexed_cell live_index for mem
proof
  show "tf_filter_indexed_cell s None = \<lparr>vc_children = 0, vc_production = 0\<rparr>" for s
    by (simp add: tf_filter_indexed_cell_def)
next
  fix children production s s' h
  assume "tf_filter_store_indexed_cell mem children production s = (s', Some h)"
  then show "live_index s' h \<and> tf_filter_indexed_cell s' (Some h) = \<lparr>vc_children = children, vc_production = production\<rparr>"
    by (rule store_indexed_cases) (simp_all add: live_index_def tf_filter_indexed_cell_def)
next
  fix children production s s' r h
  assume store: "tf_filter_store_indexed_cell mem children production s = (s', r)" and live: "live_index s h"
  from store show "live_index s' h \<and> tf_filter_indexed_cell s' (Some h) = tf_filter_indexed_cell s (Some h)"
  proof (rule store_indexed_cases)
    fix c
    assume "s' = \<lparr>ca_cells = ca_cells s @ [\<lparr>vc_children = children, vc_production = production\<rparr>], ca_capacity = c\<rparr>"
    moreover have "h - 1 < length (ca_cells s)" using live by (auto simp: live_index_def)
    ultimately show ?thesis using live by (simp add: live_index_def tf_filter_indexed_cell_def nth_append)
  qed (simp add: live)
qed

lemma store_nonnull: "tf_filter_store_cell children production \<noteq> Some (Packed 0)"
  using cell_fields(3) [of children production] by (simp add: tf_filter_store_cell_def)

text \<open>
  C32: cells survive their encoding: unpacking a packed pointer gives the child count and the
  production that went into it, the pointer is never \<^verbatim>\<open>NULL\<close>, and where cells are kept in an
  array every handle reads what was stored under it, however many cells follow.
\<close>

theorem cells_roundtrip:
  assumes "indexed_cells.store_all mem cs s = (s', hs)" and "i < length cs" and "hs ! i \<noteq> None"
  shows "tf_filter_indexed_cell s' (hs ! i) = \<lparr>vc_children = fst (cs ! i), vc_production = snd (cs ! i)\<rparr> \<and>
    tf_filter_cell (tf_filter_store_cell (fst (cs ! i)) (snd (cs ! i)) :: 'c pointer option) =
      \<lparr>vc_children = fst (cs ! i), vc_production = snd (cs ! i)\<rparr> \<and>
    tf_filter_store_cell (fst (cs ! i)) (snd (cs ! i)) \<noteq> Some (Packed 0 :: 'c pointer)"
  using indexed_cells.store_all_reads [OF assms] by (simp add: store_nonnull)

theorem cells_roundtrip_witness:
  "\<exists>s' hs. indexed_cells.store_all (\<lambda>_ _. True) [(3, 7), (0, 65535)] \<lparr>ca_cells = [], ca_capacity = 0\<rparr> = (s', hs) \<and>
     tf_filter_indexed_cell s' (hs ! 0) = \<lparr>vc_children = 3, vc_production = 7\<rparr>"
proof -
  obtain s' h0 h1 where store: "indexed_cells.store_all (\<lambda>_ _. True) [(3, 7), (0, 65535)]
      \<lparr>ca_cells = [], ca_capacity = 0\<rparr> = (s', [Some h0, h1])"
    by (simp add: tf_filter_store_indexed_cell_def)
  from cells_roundtrip [OF store, of 0] show ?thesis using store by auto
qed

end
