(* ===== verification/Visible_Props.thy ===== *)
theory Visible_Props
  imports Visible_Tree Visible_Ledger Visible_Cells Parser_Props
begin

text \<open>What a parse through the visible-node filter guarantees its consumer.\<close>

section \<open>In place\<close>

text \<open>
  C28: the arena algorithm computes the specification. A reduction over cells whose runs are on
  top of the arena leaves there, in place of them, the run of visible children the rules give,
  calls the consumer as the specification does, in the same order, and returns a cell of that
  many children, or for the root what the consumer made of it.
\<close>

theorem filter_in_place:
  assumes "list_all2 holds (rd_children rd) cells" and "fl_arena self = before @ runs cells"
    and "filter_ok mem self" and "\<not> fl_failed self"
    and "tf_filter_on_reduce mem self rd = (self', v)" and "\<not> fl_failed self'"
  shows "\<exists>run root. visible_reduce mem (fl_sink self) (fl_lang self) (erase_reduction rd) cells (fl_payload self, fl_declined self) =
       ((fl_payload self', fl_declined self'), run, root) \<and> fl_arena self' = before @ run \<and>
     v = (if is_root rd then map_option Consumer root
          else tf_filter_store_cell (of_nat (length run)) (rd_production_id rd))"
proof -
  note res = reduce_refines [OF assms(1-5)]
  show ?thesis using res unfolding if_not_P [OF assms(6)] by blast
qed

text \<open>A filter of the demonstration grammar over a ledger, its arena holding \<open>run\<close>.\<close>

definition demo_filter :: "ledger \<Rightarrow> nat TFVisibleChild list \<Rightarrow> (ledger, nat) TFFilter" where
  "demo_filter l run = (new_filter demo_lang (visible_ledger_sink (\<lambda>_. True) False) l)\<lparr>fl_arena := run, fl_arena_capacity := 64\<rparr>"

text \<open>The reduction of the hidden repetition to an item and what came before it.\<close>

definition demo_entry_of :: "nat \<Rightarrow> nat TFVisibleChild" where
  "demo_entry_of n = \<lparr>ch_symbol = 6, ch_field_id = 0, ch_extra = False, ch_value = Some n\<rparr>"

definition demo_repeat :: "nat pointer TFReduction" where
  "demo_repeat = demo_reduction 7 0 2 0 6
     [demo_cell 7 False 0 1 (tf_filter_store_cell 1 0), demo_cell 6 False 2 6 (tf_filter_store_cell 0 0)]"

lemma demo_repeat_reduce:
  "case tf_filter_on_reduce demo_mem (demo_filter \<lparr>issued = 1, used = [], given_back = []\<rparr> [demo_entry_of 0]) demo_repeat of
     (self', v) \<Rightarrow> \<not> fl_failed self' \<and> fl_payload self' = \<lparr>issued = 3, used = [0, 1], given_back = []\<rparr> \<and>
       length (fl_arena self') = 1"
  by code_simp

lemma demo_bounded_filter: "bounded_filter demo_mem"
  by (auto simp: bounded_filter_def demo_mem_def)

theorem filter_in_place_witness:
  "\<exists>self' v run root. tf_filter_on_reduce demo_mem (demo_filter \<lparr>issued = 1, used = [], given_back = []\<rparr> [demo_entry_of 0]) demo_repeat
       = (self', v) \<and> fl_arena self' = run \<and> length run = 1 \<and> issued (fl_payload self') = 3 \<and>
     visible_reduce demo_mem (visible_ledger_sink (\<lambda>_. True) False) demo_lang (erase_reduction demo_repeat)
       [\<lparr>st_node = erase_node (demo_cell 7 False 0 1 (tf_filter_store_cell 1 0 :: nat pointer option)), st_production = 0, st_run = [demo_entry_of 0]\<rparr>,
        \<lparr>st_node = erase_node (demo_cell 6 False 2 6 (tf_filter_store_cell 0 0 :: nat pointer option)), st_production = 0, st_run = []\<rparr>]
       (\<lparr>issued = 1, used = [], given_back = []\<rparr>, None) = ((fl_payload self', fl_declined self'), run, root)"
proof -
  let ?self = "demo_filter \<lparr>issued = 1, used = [], given_back = []\<rparr> [demo_entry_of 0]"
  let ?cells = "[\<lparr>st_node = erase_node (demo_cell 7 False 0 1 (tf_filter_store_cell 1 0 :: nat pointer option)), st_production = 0, st_run = [demo_entry_of 0]\<rparr>,
        \<lparr>st_node = erase_node (demo_cell 6 False 2 6 (tf_filter_store_cell 0 0 :: nat pointer option)), st_production = 0, st_run = []\<rparr>]"
  obtain self' v where red: "tf_filter_on_reduce demo_mem ?self demo_repeat = (self', v)" by fastforce
  have out: "\<not> fl_failed self'" "issued (fl_payload self') = 3" "length (fl_arena self') = 1"
    using demo_repeat_reduce red by auto
  have cells: "list_all2 holds (rd_children demo_repeat) ?cells"
    by (simp add: demo_repeat_def demo_reduction_def holds_def) (simp add: demo_cell_def)
  have arena: "fl_arena ?self = [] @ runs ?cells" by (simp add: demo_filter_def)
  have ok: "filter_ok demo_mem ?self" "\<not> fl_failed ?self"
    by (simp_all add: demo_filter_def filter_ok_def new_filter_def demo_bounded_filter)
  from filter_in_place [OF cells arena ok red out(1)] show ?thesis
    using red out by (auto simp: demo_filter_def new_filter_def)
qed

section \<open>Running out of memory\<close>

text \<open>
  C31: a reduction that is given up for lack of memory leaves every value of the arena where it
  was, whatever the consumer has been told and has returned meanwhile: what it consumed is
  still there to be discarded, and what it returned is nowhere.
\<close>

theorem filter_gives_up:
  assumes "list_all2 holds (rd_children rd) cells" and "fl_arena self = before @ runs cells"
    and "filter_ok mem self" and "\<not> fl_failed self"
    and "tf_filter_on_reduce mem self rd = (self', v)" and "fl_failed self'"
  shows "v = None \<and> entry_values (fl_arena self') = entry_values (fl_arena self)"
proof -
  note res = reduce_refines [OF assms(1-5)]
  show ?thesis using res assms(6) by (auto intro: entry_values_cong)
qed

text \<open>
  The arena is full, with values 0 to 63, and cannot grow. The node of the first child consumes
  value 63 and is 64, that of the second is 65; then the copy back is refused. Value 63 is in
  the ledger as consumed and still in the arena, values 64 and 65 are not.
\<close>

definition full_filter :: "(ledger, nat) TFFilter" where
  "full_filter = demo_filter \<lparr>issued = 64, used = [], given_back = []\<rparr> (map demo_entry_of [0..<64])"

definition full_reduction :: "nat pointer TFReduction" where
  "full_reduction = demo_reduction 6 0 2 0 6
     [demo_cell 6 False 0 1 (tf_filter_store_cell 1 0), demo_cell 6 False 2 6 (tf_filter_store_cell 0 0)]"

definition full_mem :: allocator where
  "full_mem = (\<lambda>site n. site = A_filter_scratch \<and> n \<le> 64)"

lemma full_reduce:
  "case tf_filter_on_reduce full_mem full_filter full_reduction of
     (self', v) \<Rightarrow> fl_failed self' \<and> fl_payload self' = \<lparr>issued = 66, used = [63], given_back = []\<rparr>"
  by code_simp

lemma full_cells:
  "list_all2 holds (rd_children full_reduction)
     [\<lparr>st_node = erase_node (demo_cell 6 False 0 1 (tf_filter_store_cell 1 0 :: nat pointer option)), st_production = 0, st_run = [demo_entry_of 63]\<rparr>,
      \<lparr>st_node = erase_node (demo_cell 6 False 2 6 (tf_filter_store_cell 0 0 :: nat pointer option)), st_production = 0, st_run = []\<rparr>]"
  by (simp add: full_reduction_def demo_reduction_def holds_def) (simp add: demo_cell_def)

lemma entry_values_demo: "entry_values (map demo_entry_of ns) = ns"
  by (induction ns) (simp_all add: demo_entry_of_def)

theorem filter_gives_up_witness:
  "\<exists>self'. tf_filter_on_reduce full_mem full_filter full_reduction = (self', None) \<and>
     63 \<in> set (used (fl_payload self')) \<and> issued (fl_payload self') = 66 \<and> entry_values (fl_arena self') = [0..<64]"
proof -
  obtain self' v where red: "tf_filter_on_reduce full_mem full_filter full_reduction = (self', v)" by fastforce
  have out: "fl_failed self'" "used (fl_payload self') = [63]" "issued (fl_payload self') = 66"
    using full_reduce red by auto
  have "[0..<64] = [0..<63] @ [63 :: nat]" by (simp add: upt_rec)
  then have arena: "fl_arena full_filter = map demo_entry_of [0..<63] @
      runs [\<lparr>st_node = erase_node (demo_cell 6 False 0 1 (tf_filter_store_cell 1 0 :: nat pointer option)), st_production = 0, st_run = [demo_entry_of 63]\<rparr>,
      \<lparr>st_node = erase_node (demo_cell 6 False 2 6 (tf_filter_store_cell 0 0 :: nat pointer option)), st_production = 0, st_run = []\<rparr>]"
    by (simp add: full_filter_def demo_filter_def)
  have "filter_ok full_mem full_filter" "\<not> fl_failed full_filter"
    by (simp_all add: full_filter_def demo_filter_def filter_ok_def new_filter_def bounded_filter_def full_mem_def)
  from filter_gives_up [OF full_cells arena this red out(1)] have "v = None" "entry_values (fl_arena self') = [0..<64]"
    using entry_values_demo [of "[0..<64]"] by (simp_all add: full_filter_def demo_filter_def)
  then show ?thesis using red out by auto
qed

section \<open>The visible tree\<close>


text \<open>The parse of \<^verbatim>\<open>(a end#\<close>: an item with three children, one of them in a field, and a comment.\<close>

lemma demo_visible_events:
  "case demo_events (filter_sink demo_mem) (new_filter demo_lang (vtree_sink False) 0) of
     (self, value) \<Rightarrow> \<not> fl_failed self \<and> \<not> fl_fault self \<and> fl_payload self = 7 \<and>
       (case value of
          Some (Consumer (VTree symbol production named extra start end kids)) \<Rightarrow>
            symbol = 5 \<and> production = 0 \<and> named \<and> \<not> extra \<and> start = 0 \<and> end = 7 \<and> length kids = 2
        | _ \<Rightarrow> False)"
  by code_simp


section \<open>Ownership\<close>


lemma demo_ledger_events:
  "case demo_events (filter_sink demo_mem) (new_filter demo_lang (visible_ledger_sink (\<lambda>_. True) True) new_ledger) of
     (self, value) \<Rightarrow> \<not> fl_failed self \<and> \<not> fl_fault self \<and> value = Some (Consumer 4) \<and> issued (fl_payload self) = 5"
  by code_simp


section \<open>Safety\<close>

text \<open>A consumer about which nothing is known.\<close>

interpretation any_visible: visible_client mem lang vsink source "\<lambda>_ _. True" "\<lambda>_ _. True"
  for mem lang vsink source
  by unfold_locales simp_all

text \<open>
  C30: on certified conflict-free tables no visible parse runs into undefined behaviour,
  whatever the consumer: no cell is read from a value of the consumer, no entry from below the
  arena, and nothing is written past a capacity.
\<close>

theorem parse_visible_defined:
  assumes "tf_parse_visible mem split lang source sz (Some sink) want q0 = Some (q, err, outcome)"
    and "unat sz = length source" and "tables_ok lang" and "lexes_tokens lang"
    and "split_contract mem lang source split"
    and "lr_tables lang" and "conflict_free lang" and "bounded mem" and "bounded_filter mem"
  shows "outcome \<noteq> Undefined"
proof
  assume outcome: "outcome = Undefined"
  obtain self err1 ended where
    run: "tf_parser_run mem split lang source sz (Some (filter_sink mem)) want (new_filter lang sink q0) = Some (self, err1, ended)"
    and finish: "finish_visible self err1 ended = (q, err, Undefined)"
    using assms(1) outcome by (auto simp: tf_parse_visible_def)
  from any_visible.filter_end [OF run TrueI assms(9,2-5) finish] obtain f where "ended = Fault f" by auto
  then show False using run_no_fault [OF run assms(2-4,6-8)] by blast
qed

theorem parse_visible_defined_witness:
  "\<exists>q err outcome. tf_parse_visible demo_mem no_split demo_lang demo_source 7
       (Some (visible_ledger_sink (\<lambda>_. True) True)) False new_ledger = Some (q, err, outcome) \<and> outcome \<noteq> Undefined"
proof -
  obtain self v where events: "demo_events (filter_sink demo_mem) (new_filter demo_lang (visible_ledger_sink (\<lambda>_. True) True) new_ledger) =
      (self, v)" by fastforce
  obtain q err outcome where parse: "tf_parse_visible demo_mem no_split demo_lang demo_source 7
       (Some (visible_ledger_sink (\<lambda>_. True) True)) False new_ledger = Some (q, err, outcome)"
    using demo_run [OF events, of no_split False] by (cases "finish_visible self None (Parsed v)") (simp add: tf_parse_visible_def)
  from parse_visible_defined [OF parse demo_hyps demo_certificates(1,2) demo_bounded demo_bounded_filter]
  show ?thesis using parse by blast
qed

end
