(* ===== verification/Lexer_End.thy ===== *)
theory Lexer_End
  imports Lexer_Progress
begin

text \<open>
  The end token is found at the end of the input only, when the lex function accepts symbol 0 in
  states that it enters at the end of the input only; and a token is marked as a keyword only
  where the language has a word token.
\<close>

definition end_at_eof :: "(TSStateId \<Rightarrow> lex_row) \<Rightarrow> bool" where
  "end_at_eof rows \<longleftrightarrow> (\<forall>s. row_accept (rows s) = Some 0 \<longrightarrow>
     (\<forall>r c. row_move (rows r) c False \<noteq> ADVANCE s \<and> row_move (rows r) c False \<noteq> SKIP s))"

definition lexes_end :: "TFLanguage \<Rightarrow> bool" where
  "lexes_end lang \<longleftrightarrow> end_at_eof (lex_fn (ts lang)) \<and>
     (\<forall>q. row_accept (lex_fn (ts lang) (lex_state (tf_lex_mode lang q))) \<noteq> Some 0) \<and>
     accepts_only (\<lambda>a. a \<noteq> 0) (keyword_lex_fn (ts lang))"

text \<open>A scan that found the end token.\<close>

definition end_seen :: "bool \<Rightarrow> TFLexer \<Rightarrow> bool" where
  "end_seen result l \<longleftrightarrow> (result \<and> lx_result_symbol l = 0 \<longrightarrow> lx_size l \<le> token_end_byte l \<and> lx_size l \<le> lx_byte l)"

lemma lexer_scan_end:
  assumes "tf_lexer_scan rows state self = Some (True, l)" and "end_at_eof rows" and "row_accept (rows state) \<noteq> Some 0"
    and "lx_result_symbol l = 0"
  shows "lx_size l \<le> token_end_byte l"
proof -
  obtain m where run: "lex_run tf_lexer_ops rows state False (tf_lexer_start self) = Some (True, m)"
    and l: "l = tf_lexer_finish m"
    using assms(1) by (auto simp: tf_lexer_scan_def)
  let ?P = "\<lambda>s result l. end_seen result l \<and> (row_accept (rows s) = Some 0 \<longrightarrow> tf_lexer_eof l)"
  have accept: "case accept_token tf_lexer_ops (row_accept (rows s)) (result, l) of (result', l') \<Rightarrow>
      end_seen result' l' \<and> tf_lexer_eof l' = tf_lexer_eof l" if "?P s result l" for s result l
    using that by (auto simp: accept_token_def end_seen_def tf_lexer_eof_def tf_lexer_mark_end_def split: option.split)
  have "(\<lambda>(result, l). end_seen result l) (True, m)"
  proof (rule lex_run_result [where P = ?P, OF run])
    show "?P state False (tf_lexer_start self)" using assms(3) by (simp add: end_seen_def)
    fix s l result
    assume P: "?P s result l"
    show "(\<lambda>(result, l). end_seen result l) (accept_token tf_lexer_ops (row_accept (rows s)) (result, l))"
      using accept [OF P] by auto
    fix s' skip
    assume move: "row_move (rows s) (op_lookahead tf_lexer_ops l) (op_eof tf_lexer_ops l) = (if skip then SKIP s' else ADVANCE s')"
    obtain result' l' where r: "accept_token tf_lexer_ops (row_accept (rows s)) (result, l) = (result', l')" by fastforce
    have seen: "end_seen result' l'" and eof: "tf_lexer_eof l' = tf_lexer_eof l" using accept [OF P] r by simp_all
    show "?P s' (fst (accept_token tf_lexer_ops (row_accept (rows s)) (result, l)))
        (op_advance tf_lexer_ops skip (snd (accept_token tf_lexer_ops (row_accept (rows s)) (result, l))))"
    proof (cases "tf_lexer_eof l'")
      case True
      then have "tf_lexer_advance skip l' = l'" by (simp add: tf_lexer_advance_def tf_lexer_eof_def)
      then show ?thesis using seen True r by simp
    next
      case False
      then have "row_accept (rows s') \<noteq> Some 0"
        using assms(2) move eof unfolding end_at_eof_def by (cases skip) auto
      moreover have "\<not> (result' \<and> lx_result_symbol l' = 0)" using seen False by (auto simp: end_seen_def tf_lexer_eof_def)
      moreover have "lx_result_symbol (tf_lexer_advance skip l') = lx_result_symbol l'"
        by (simp add: tf_lexer_advance_def tf_lexer_do_advance_def tf_lexer_get_lookahead_def Let_def split: prod.split)
      ultimately show ?thesis using r by (auto simp: end_seen_def)
    qed
  qed
  then have "lx_size m \<le> token_end_byte m \<and> lx_size m \<le> lx_byte m"
    using assms(4) by (simp add: l end_seen_def tf_lexer_finish_def tf_lexer_mark_end_def split: if_splits)
  then show ?thesis by (auto simp: l tf_lexer_finish_def tf_lexer_mark_end_def)
qed

lemma lexer_scan_accepts:
  assumes "tf_lexer_scan rows state self = Some (True, l)" and "accepts_only allowed rows"
  shows "allowed (lx_result_symbol l)"
proof -
  obtain m where run: "lex_run tf_lexer_ops rows state False (tf_lexer_start self) = Some (True, m)"
    and l: "l = tf_lexer_finish m"
    using assms(1) by (auto simp: tf_lexer_scan_def)
  let ?P = "\<lambda>(s :: TSStateId) result (l :: TFLexer). result \<longrightarrow> allowed (lx_result_symbol l)"
  have accept: "case accept_token tf_lexer_ops (row_accept (rows s)) (result, l) of (result', l') \<Rightarrow>
      result' \<longrightarrow> allowed (lx_result_symbol l')" if "?P s result l" for s result l
    using that assms(2) by (auto simp: accept_token_def accepts_only_def tf_lexer_mark_end_def split: option.split)
  have "(\<lambda>(result, l). result \<longrightarrow> allowed (lx_result_symbol l)) (True, m)"
  proof (rule lex_run_result [where P = ?P, OF run])
    fix s l result assume P: "?P s result l"
    show "(\<lambda>(result, l). result \<longrightarrow> allowed (lx_result_symbol l)) (accept_token tf_lexer_ops (row_accept (rows s)) (result, l))"
      using accept [OF P] by auto
    fix s' skip
    have "lx_result_symbol (tf_lexer_advance skip l') = lx_result_symbol l'" for l'
      by (simp add: tf_lexer_advance_def tf_lexer_do_advance_def tf_lexer_get_lookahead_def Let_def split: prod.split)
    moreover obtain result' l' where "accept_token tf_lexer_ops (row_accept (rows s)) (result, l) = (result', l')"
      by fastforce
    ultimately show "?P s' (fst (accept_token tf_lexer_ops (row_accept (rows s)) (result, l)))
        (op_advance tf_lexer_ops skip (snd (accept_token tf_lexer_ops (row_accept (rows s)) (result, l))))"
      using accept [OF P, of s] by simp
  qed simp
  then show ?thesis by (simp add: l tf_lexer_finish_def tf_lexer_mark_end_def)
qed

lemma lexer_next_end:
  assumes "tf_lexer_next state self = Some (self', Some tok)" and pos: "lexer_pos lang source self" and "lexes_end lang"
    and "tok_symbol tok = 0"
  shows "unat (tok_end_byte tok) = length source"
proof -
  have pos0: "lexer_pos lang source (self\<lparr>token_is_keyword := False, token_lex_state := state\<rparr>)"
    using pos by (simp add: lexer_pos_def)
  have le: "unat (tok_end_byte tok) \<le> length source" using lexer_next_inv(2) [OF assms(1,2)] by (simp add: token_at_def)
  from assms(1,2) show ?thesis
  proof (cases rule: lexer_next_found)
    case (1 l)
    have "lx_size l \<le> tok_end_byte tok"
      using lexer_scan_end [OF 1(1)] assms(3,4) 1(2) by (simp add: lexes_end_def lexed_token_def)
    moreover have "unat (lx_size l) = length source" using lexer_scan_inv(1) [OF 1(1) pos0] by (simp add: lexer_pos_def)
    ultimately show ?thesis using le by (simp add: word_le_nat_alt)
  next
    case (2 l k)
    have "lx_result_symbol k \<noteq> 0" by (rule lexer_scan_accepts [OF 2(2)]) (use assms(3) in \<open>simp add: lexes_end_def\<close>)
    then show ?thesis using assms(4) 2(3) by simp
  qed
qed

lemma lexer_next_flag:
  assumes "tf_lexer_next state self = Some (self', r)" and "lexer_pos lang source self" and "token_is_keyword self'"
  shows "keyword_capture_token (ts lang) \<noteq> 0"
proof -
  define l0 where "l0 = self\<lparr>token_is_keyword := False, token_lex_state := state\<rparr>"
  have lang: "lx_lang self = lang" using assms(2) by (simp add: lexer_pos_def)
  obtain found l where scan: "tf_lexer_scan (lex_fn (ts lang)) (lex_state (tf_lex_mode (lx_lang l0) state)) l0 = Some (found, l)"
    and rest: "(if \<not> found then Some (l, None)
            else map_option (\<lambda>(self, out). (tf_lexer_seek (tok_end_byte out) (tok_end_point out) self, Some out))
                   (if tok_symbol (lexed_token l) = keyword_capture_token (ts lang) \<and> tok_symbol (lexed_token l) \<noteq> 0
                    then tf_lexer_keyword state (lexed_token l) l
                    else Some (l, lexed_token l))) = Some (self', r)"
    using assms(1)
    unfolding tf_lexer_next_def Let_def l0_def [symmetric] lang bind_eq_Some_conv split_paired_Ex prod.case by blast
  have "\<not> token_is_keyword l" by (rule lexer_scan_flag [OF scan]) (simp add: l0_def)
  then show ?thesis using rest assms(3) by (auto split: if_splits)
qed

end
