(* ===== verification/Spec.thy ===== *)
theory Spec
  imports Parser "HOL-Library.Monad_Syntax"
begin

text \<open>
  The graph-structured stacks on which conflicts are worked out (\<^verbatim>\<open>tf_parser_spec.h\<close>): their
  data, growing them, merging stacks, comparing trees, popping and reducing.

  Arrays are the lists of their live entries; indices and counts are natural numbers, below
  \<open>2 ^ 31\<close> by the reservations, with \<^verbatim>\<open>TF_SPEC_NONE\<close> for \<^verbatim>\<open>UINT32_MAX\<close>. A function whose loops or
  recursion follow the links of the graph returns an option: \<open>None\<close> is a loop that does not end.
\<close>

section \<open>Data\<close>

definition TF_SPEC_NONE :: nat where "TF_SPEC_NONE = 4294967295"
definition TF_SPEC_LINKS :: nat where "TF_SPEC_LINKS = 8"
definition TF_SPEC_ITERATORS :: nat where "TF_SPEC_ITERATORS = 64"
definition TF_SPEC_VERSIONS :: nat where "TF_SPEC_VERSIONS = 6"

text \<open>
  Precedences are sums of 16-bit numbers over fewer than \<open>2 ^ 31\<close> trees, which \<^verbatim>\<open>int64_t\<close> holds:
  integers here.
\<close>

record TFSpecTree =
  tr_token :: TFToken
  tr_padding_start :: u32
  tr_first_child :: nat
  tr_child_count :: nat
  tr_production_id :: u16
  tr_structural_count :: u8
  tr_leaf :: bool
  tr_extra :: bool
  tr_inherited :: bool
  tr_opaque :: bool
  tr_precedence :: int

record TFSpecLink =
  lk_node :: nat
  lk_tree :: nat

record TFSpecNode =
  sn_state :: TSStateId
  sn_byte :: u32
  sn_point :: TFPoint
  sn_precedence :: int
  sn_first_link :: nat
  sn_link_count :: nat
  sn_link_capacity :: nat

record TFSpecHead =
  hd_node :: nat
  hd_halted :: bool
  hd_errored :: bool

record TFSpecEdge =
  ed_tree :: nat
  ed_previous :: nat

record TFSpecIterator =
  it_node :: nat
  it_edge :: nat
  it_count :: nat
  it_length :: nat

record TFSpecSlice =
  sl_version :: nat
  sl_first :: nat
  sl_count :: nat

text \<open>
  \<open>sp_capacity\<close> holds the capacities of the arrays, by the site that allocates each. The contents
  of \<^verbatim>\<open>scratch\<close> do not outlive the function that fills it. \<open>sp_owner\<close> is the parser at the fork,
  without its consumer: the only fields read through \<^verbatim>\<open>owner\<close> do not change while the graph is
  built. \<open>sp_fault\<close> is undefined behaviour met by the private replay of \<^verbatim>\<open>tf_spec__materialize\<close>.
\<close>

record TFSpec =
  sp_trees :: "TFSpecTree list"
  sp_nodes :: "TFSpecNode list"
  sp_links :: "TFSpecLink list"
  sp_heads :: "TFSpecHead list"
  sp_children :: "nat list"
  sp_edges :: "TFSpecEdge list"
  sp_slices :: "TFSpecSlice list"
  sp_prefix_tree :: "nat list"
  sp_capture_id :: "nat list"
  sp_capacity :: "alloc_site \<Rightarrow> u32"
  sp_frontier :: nat
  sp_prefix_left :: nat
  sp_prefix_depth :: nat
  sp_failed :: bool
  sp_materialized :: bool
  sp_captured :: bool
  sp_owner :: "(unit, unit, unit) TFParser"
  sp_fork_byte :: u32
  sp_cached :: TFToken
  sp_cached_byte :: u32
  sp_cached_state :: TSStateId
  sp_has_cache :: bool
  sp_cached_keyword :: bool
  sp_finished :: nat
  sp_error_byte :: u32
  sp_error_point :: TFPoint
  sp_error_state :: TSStateId
  sp_error_symbol :: TSSymbol
  sp_has_error :: bool
  sp_error_is_lex :: bool
  sp_fault :: "fault option"

section \<open>Growing the arrays\<close>

text \<open>
  Doubling from the capacity, or 64, stopped before it could exceed 32 bits. The number of bytes
  is not limited further on a 64-bit target.
\<close>

definition tf_spec_reserve :: "allocator \<Rightarrow> alloc_site \<Rightarrow> nat \<Rightarrow> TFSpec \<Rightarrow> TFSpec \<times> bool" where
  "tf_spec_reserve mem site needed s =
    (if sp_failed s then (s, False)
     else if needed \<le> unat (sp_capacity s site) then (s, True)
     else
       let next = while (\<lambda>next. next < needed \<and> \<not> next > unat UINT32_MAX div 2) (\<lambda>next. next * 2)
             (if sp_capacity s site \<noteq> 0 then unat (sp_capacity s site) else 64)
       in if next < needed then (s\<lparr>sp_failed := True\<rparr>, False)
          else if \<not> mem site next then (s\<lparr>sp_failed := True\<rparr>, False)
          else (s\<lparr>sp_capacity := (sp_capacity s)(site := of_nat next)\<rparr>, True))"

definition tf_spec_tree :: "allocator \<Rightarrow> TFSpecTree \<Rightarrow> TFSpec \<Rightarrow> TFSpec \<times> nat" where
  "tf_spec_tree mem tree s =
    (if length (sp_trees s) \<ge> 0x80000000 then (s\<lparr>sp_failed := True\<rparr>, TF_SPEC_NONE)
     else
       let (s, ok) = tf_spec_reserve mem A_spec_trees (length (sp_trees s) + 1) s
       in if \<not> ok then (s, TF_SPEC_NONE)
          else (s\<lparr>sp_trees := sp_trees s @ [tree]\<rparr>, length (sp_trees s)))"

definition tf_spec_head :: "allocator \<Rightarrow> nat \<Rightarrow> TFSpec \<Rightarrow> TFSpec \<times> nat" where
  "tf_spec_head mem node s =
    (let (s, ok) = tf_spec_reserve mem A_spec_heads (length (sp_heads s) + 1) s
     in if \<not> ok then (s, TF_SPEC_NONE)
        else (s\<lparr>sp_heads := sp_heads s @ [\<lparr>hd_node = node, hd_halted = False, hd_errored = False\<rparr>]\<rparr>,
              length (sp_heads s)))"

definition tf_spec_remove_head :: "nat \<Rightarrow> TFSpec \<Rightarrow> TFSpec" where
  "tf_spec_remove_head v s = s\<lparr>sp_heads := take v (sp_heads s) @ drop (v + 1) (sp_heads s)\<rparr>"

text \<open>A run of link slots, and the index of its first.\<close>

definition tf_spec_links :: "allocator \<Rightarrow> nat \<Rightarrow> TFSpec \<Rightarrow> TFSpec \<times> nat" where
  "tf_spec_links mem count s =
    (let (s, ok) = tf_spec_reserve mem A_spec_links (length (sp_links s) + count) s
     in if \<not> ok then (s, TF_SPEC_NONE)
        else (s\<lparr>sp_links := sp_links s @ replicate count \<lparr>lk_node = 0, lk_tree = 0\<rparr>\<rparr>, length (sp_links s)))"

definition tf_spec_push :: "allocator \<Rightarrow> nat \<Rightarrow> nat \<Rightarrow> TSStateId \<Rightarrow> TFSpec \<Rightarrow> TFSpec \<times> nat" where
  "tf_spec_push mem previous tree state s =
    (let (s, ok) = tf_spec_reserve mem A_spec_nodes (length (sp_nodes s) + 1) s
     in if \<not> ok then (s, TF_SPEC_NONE)
        else
          let (s, at) = tf_spec_links mem 1 s
          in if sp_failed s then (s, TF_SPEC_NONE)
             else
               let t = sp_trees s ! tree;
                   node = \<lparr>sn_state = state, sn_byte = tok_end_byte (tr_token t), sn_point = tok_end_point (tr_token t),
                           sn_precedence = sn_precedence (sp_nodes s ! previous) + tr_precedence t,
                           sn_first_link = at, sn_link_count = 1, sn_link_capacity = 1\<rparr>
               in (s\<lparr>sp_links := (sp_links s)[at := \<lparr>lk_node = previous, lk_tree = tree\<rparr>],
                     sp_nodes := sp_nodes s @ [node]\<rparr>, length (sp_nodes s)))"

section \<open>The prefix\<close>

definition tf_spec_resolve :: "nat \<Rightarrow> TFSpec \<Rightarrow> TFSpec" where
  "tf_spec_resolve k s =
    (let slot = sp_prefix_tree s ! k;
         id = sp_capture_id s ! (sp_prefix_depth s - 1 - k)
     in s\<lparr>sp_trees := (sp_trees s)[slot := (sp_trees s ! slot)\<lparr>tr_first_child := tr_first_child (sp_trees s ! id),
           tr_child_count := tr_child_count (sp_trees s ! id), tr_opaque := False\<rparr>]\<rparr>)"

text \<open>The tree of a cell of the real stack, and the node below it.\<close>

definition prefix_cell :: "unit TFNode \<Rightarrow> u32 \<Rightarrow> TFSpecTree" where
  "prefix_cell n byte =
     \<lparr>tr_token = \<lparr>tok_symbol = nd_symbol n, tok_start_byte = nd_start_byte n, tok_end_byte = nd_end_byte n,
        tok_start_point = nd_start_point n, tok_end_point = nd_end_point n\<rparr>,
      tr_padding_start = byte, tr_first_child = 0, tr_child_count = TF_SPEC_NONE, tr_production_id = 0,
      tr_structural_count = 0, tr_leaf = False, tr_extra = nd_extra n, tr_inherited = True, tr_opaque = True,
      tr_precedence = 0\<rparr>"

definition bare_node :: "TSStateId \<Rightarrow> u32 \<Rightarrow> TFPoint \<Rightarrow> TFSpecNode" where
  "bare_node state byte point = \<lparr>sn_state = state, sn_byte = byte, sn_point = point, sn_precedence = 0,
     sn_first_link = 0, sn_link_count = 0, sn_link_capacity = 0\<rparr>"

text \<open>The end of the cells below the \<open>i\<close>-th.\<close>

definition cell_end :: "'v TFNode list \<Rightarrow> nat \<Rightarrow> u32 \<times> TFPoint" where
  "cell_end nodes i =
     (if i \<noteq> 0 then (nd_end_byte (nodes ! (i - 1)), nd_end_point (nodes ! (i - 1))) else (0, zero_point))"

definition tf_spec_extend :: "allocator \<Rightarrow> TFSpec \<Rightarrow> TFSpec" where
  "tf_spec_extend mem s =
    (let p = sp_owner s;
         i = sp_prefix_left s - 1;
         (byte, point) = cell_end (ps_nodes p) i;
         (s, tree) = tf_spec_tree mem (prefix_cell (ps_nodes p ! i) byte) s
     in if sp_failed s then s
        else
          let (s, ok) = tf_spec_reserve mem A_spec_prefix_tree (length (sp_prefix_tree s) + 1) s
          in if \<not> ok then s
             else
               let (s, ok) = tf_spec_reserve mem A_spec_nodes (length (sp_nodes s) + 1) s
               in if \<not> ok then s
                  else
                    let s = s\<lparr>sp_prefix_tree := sp_prefix_tree s @ [tree]\<rparr>;
                        (s, at) = tf_spec_links mem 1 s
                    in if sp_failed s then s
                       else
                         let below = length (sp_nodes s);
                             nodes = sp_nodes s @ [bare_node (ps_states p ! i) byte point];
                             s = s\<lparr>sp_links := (sp_links s)[at := \<lparr>lk_node = below, lk_tree = tree\<rparr>],
                                   sp_nodes := nodes[sp_frontier s := (nodes ! sp_frontier s)
                                     \<lparr>sn_first_link := at, sn_link_count := 1, sn_link_capacity := 1\<rparr>],
                                   sp_frontier := below, sp_prefix_left := i\<rparr>
                         in if sp_materialized s \<and> sp_captured s
                            then tf_spec_resolve (length (sp_prefix_tree s) - 1) s else s)"

definition tf_spec_unroll :: "allocator \<Rightarrow> nat \<Rightarrow> TFSpec \<Rightarrow> TFSpec \<times> bool" where
  "tf_spec_unroll mem node s =
    (let s = (if node = sp_frontier s \<and> sp_prefix_left s \<noteq> 0 then tf_spec_extend mem s else s)
     in (s, \<not> sp_failed s))"

section \<open>Merging stacks\<close>

text \<open>
  \<^verbatim>\<open>tf_spec__materialize\<close>, which recovers the shapes of the prefix by a private replay, is an
  argument: the graph with the shapes, and whether they are there.
\<close>

type_synonym materializer = "TFSpec \<Rightarrow> (TFSpec \<times> bool) option"

definition same_extent :: "TFSpecTree \<Rightarrow> TFSpecTree \<Rightarrow> bool" where
  "same_extent x y \<longleftrightarrow>
     tok_symbol (tr_token x) = tok_symbol (tr_token y) \<and> tr_extra x = tr_extra y \<and>
     tok_start_byte (tr_token x) - tr_padding_start x = tok_start_byte (tr_token y) - tr_padding_start y \<and>
     tok_end_byte (tr_token x) - tok_start_byte (tr_token x) = tok_end_byte (tr_token y) - tok_start_byte (tr_token y)"

definition tf_spec_equivalent :: "materializer \<Rightarrow> nat \<Rightarrow> nat \<Rightarrow> TFSpec \<Rightarrow> (TFSpec \<times> bool) option" where
  "tf_spec_equivalent materialize a b s =
    (if a = b then Some (s, True)
     else
       let x = sp_trees s ! a; y = sp_trees s ! b
       in if \<not> same_extent x y then Some (s, False)
          else do {
            (s, ok) \<leftarrow> (if tr_opaque x \<or> tr_opaque y then materialize s else Some (s, True));
            Some (s, ok \<and> tr_child_count (sp_trees s ! a) = tr_child_count (sp_trees s ! b))
          })"

text \<open>What \<^verbatim>\<open>tf_spec__add_link\<close> does with a link: it is dropped, takes the place of one, is merged below one, or is new.\<close>

datatype link_place = Drop | Replace nat | Below nat | Append

text \<open>The search through the links from index \<open>i\<close> on.\<close>

fun place_link ::
  "materializer \<Rightarrow> TFSpecLink \<Rightarrow> (nat \<times> TFSpecLink) list \<Rightarrow> TFSpec \<Rightarrow> (TFSpec \<times> link_place) option" where
  "place_link materialize link [] s = Some (s, Append)"
| "place_link materialize link ((i, existing) # rest) s = do {
     (s, same) \<leftarrow> tf_spec_equivalent materialize (lk_tree existing) (lk_tree link) s;
     if \<not> same then place_link materialize link rest s
     else if lk_node existing = lk_node link then
       Some (s, if tr_precedence (sp_trees s ! lk_tree link) > tr_precedence (sp_trees s ! lk_tree existing)
                then Replace i else Drop)
     else if sn_state (sp_nodes s ! lk_node existing) = sn_state (sp_nodes s ! lk_node link) \<and>
             sn_byte (sp_nodes s ! lk_node existing) = sn_byte (sp_nodes s ! lk_node link)
     then Some (s, Below (lk_node existing))
     else place_link materialize link rest s
   }"

definition node_links :: "TFSpec \<Rightarrow> nat \<Rightarrow> TFSpecLink list" where
  "node_links s node =
     take (sn_link_count (sp_nodes s ! node)) (drop (sn_first_link (sp_nodes s ! node)) (sp_links s))"

text \<open>The precedence of a stack that ends in a link.\<close>

definition link_precedence :: "TFSpec \<Rightarrow> TFSpecLink \<Rightarrow> int" where
  "link_precedence s link = sn_precedence (sp_nodes s ! lk_node link) + tr_precedence (sp_trees s ! lk_tree link)"

definition update_node :: "nat \<Rightarrow> (TFSpecNode \<Rightarrow> TFSpecNode) \<Rightarrow> TFSpec \<Rightarrow> TFSpec" where
  "update_node node f s = s\<lparr>sp_nodes := (sp_nodes s)[node := f (sp_nodes s ! node)]\<rparr>"

definition raise_precedence :: "nat \<Rightarrow> TFSpecLink \<Rightarrow> TFSpec \<Rightarrow> TFSpec" where
  "raise_precedence target link s =
    (let prec = link_precedence s link
     in if prec > sn_precedence (sp_nodes s ! target)
        then update_node target (\<lambda>n. n\<lparr>sn_precedence := prec\<rparr>) s else s)"

text \<open>A new link, in a longer run of slots when the node's is full; beyond eight it is dropped.\<close>

definition write_link :: "nat \<Rightarrow> TFSpecLink \<Rightarrow> TFSpec \<Rightarrow> TFSpec" where
  "write_link target link s =
    (let node = sp_nodes s ! target;
         s = update_node target (\<lambda>n. n\<lparr>sn_link_count := sn_link_count n + 1\<rparr>)
               (s\<lparr>sp_links := (sp_links s)[sn_first_link node + sn_link_count node := link]\<rparr>)
     in raise_precedence target link s)"

definition append_link :: "allocator \<Rightarrow> nat \<Rightarrow> TFSpecLink \<Rightarrow> TFSpec \<Rightarrow> TFSpec" where
  "append_link mem target link s =
    (let node = sp_nodes s ! target
     in if sn_link_count node = TF_SPEC_LINKS then s
        else if sn_link_count node = sn_link_capacity node then
          let want = (if sn_link_capacity node \<noteq> 0 then sn_link_capacity node * 2 else 1);
              want = (if want > TF_SPEC_LINKS then TF_SPEC_LINKS else want);
              old = node_links s target;
              (s, at) = tf_spec_links mem want s
          in if sp_failed s then s
             else write_link target link
                    (update_node target (\<lambda>n. n\<lparr>sn_first_link := at, sn_link_capacity := want\<rparr>)
                      (s\<lparr>sp_links := take at (sp_links s) @ old @ drop (at + length old) (sp_links s)\<rparr>))
        else write_link target link s)"

partial_function (option) tf_spec_add_link ::
  "allocator \<Rightarrow> materializer \<Rightarrow> nat \<Rightarrow> TFSpecLink \<Rightarrow> TFSpec \<Rightarrow> TFSpec option" where
  "tf_spec_add_link mem materialize target link s =
    (if lk_node link = target then Some s
     else
       let (s, ok) = tf_spec_unroll mem target s
       in if \<not> ok then Some s
          else do {
            (s, place) \<leftarrow> place_link materialize link
               (zip [0..<sn_link_count (sp_nodes s ! target)] (node_links s target)) s;
            (case place of
               Drop \<Rightarrow> Some s
             | Replace i \<Rightarrow>
                 let at = sn_first_link (sp_nodes s ! target) + i;
                     s = s\<lparr>sp_links := (sp_links s)[at := (sp_links s ! at)\<lparr>lk_tree := lk_tree link\<rparr>]\<rparr>
                 in Some (update_node target (\<lambda>n. n\<lparr>sn_precedence := link_precedence s link\<rparr>) s)
             | Below existing \<Rightarrow> do {
                 s \<leftarrow> fold_opt (tf_spec_add_link mem materialize existing) (node_links s (lk_node link)) s;
                 Some (if sp_failed s then s else raise_precedence target link s)
               }
             | Append \<Rightarrow> Some (append_link mem target link s))
          })"

declare tf_spec_add_link.simps [code]

definition tf_spec_absorb :: "allocator \<Rightarrow> materializer \<Rightarrow> nat \<Rightarrow> nat \<Rightarrow> TFSpec \<Rightarrow> TFSpec option" where
  "tf_spec_absorb mem materialize into from s =
     fold_opt (tf_spec_add_link mem materialize into) (node_links s from) s"

definition tf_spec_merge :: "allocator \<Rightarrow> materializer \<Rightarrow> nat \<Rightarrow> nat \<Rightarrow> TFSpec \<Rightarrow> (TFSpec \<times> bool) option" where
  "tf_spec_merge mem materialize a b s =
    (let x = sp_heads s ! a; y = sp_heads s ! b
     in if hd_halted x \<or> hd_halted y \<or> sn_state (sp_nodes s ! hd_node x) \<noteq> sn_state (sp_nodes s ! hd_node y) \<or>
           sn_byte (sp_nodes s ! hd_node x) \<noteq> sn_byte (sp_nodes s ! hd_node y)
        then Some (s, False)
        else do {
          s \<leftarrow> tf_spec_absorb mem materialize (hd_node x) (hd_node y) s;
          Some (tf_spec_remove_head b s, True)
        })"

section \<open>Comparing trees\<close>

text \<open>
  The pairs still to compare, the next one first. The result is whether the second tree is
  preferred; \<open>sp_failed\<close> tells when there was no memory to find out.
\<close>

partial_function (option) prefer_loop ::
  "allocator \<Rightarrow> materializer \<Rightarrow> (nat \<times> nat) list \<Rightarrow> TFSpec \<Rightarrow> (TFSpec \<times> bool) option" where
  "prefer_loop mem materialize pairs s =
    (case pairs of
       [] \<Rightarrow> Some (s, False)
     | (left, right) # rest \<Rightarrow>
       if left = right then prefer_loop mem materialize rest s
       else
         let x = sp_trees s ! left; y = sp_trees s ! right
         in if tok_symbol (tr_token x) \<noteq> tok_symbol (tr_token y)
            then Some (s, tok_symbol (tr_token y) < tok_symbol (tr_token x))
            else do {
              (s, ok) \<leftarrow> (if tr_opaque x \<or> tr_opaque y then materialize s else Some (s, True));
              if \<not> ok then Some (s, False)
              else
                let x = sp_trees s ! left; y = sp_trees s ! right
                in if tr_child_count x \<noteq> tr_child_count y then Some (s, tr_child_count y < tr_child_count x)
                   else
                     let (s, ok) = tf_spec_reserve mem A_spec_scratch (2 * length rest + 2 * tr_child_count x) s
                     in if \<not> ok then Some (s, False)
                        else prefer_loop mem materialize
                               (map (\<lambda>i. (sp_children s ! (tr_first_child x + i), sp_children s ! (tr_first_child y + i)))
                                  [0..<tr_child_count x] @ rest) s
            })"

declare prefer_loop.simps [code]

definition tf_spec_prefer :: "allocator \<Rightarrow> materializer \<Rightarrow> nat \<Rightarrow> nat \<Rightarrow> TFSpec \<Rightarrow> (TFSpec \<times> bool) option" where
  "tf_spec_prefer mem materialize a b s =
    (if a = TF_SPEC_NONE then Some (s, True)
     else if tr_precedence (sp_trees s ! a) \<noteq> tr_precedence (sp_trees s ! b)
     then Some (s, tr_precedence (sp_trees s ! b) > tr_precedence (sp_trees s ! a))
     else
       let (s, ok) = tf_spec_reserve mem A_spec_scratch 2 s
       in if \<not> ok then Some (s, False) else prefer_loop mem materialize [(a, b)] s)"

section \<open>Parents\<close>

definition spec_children :: "TFSpec \<Rightarrow> nat \<Rightarrow> nat \<Rightarrow> TFSpecTree list" where
  "spec_children s first count = map (\<lambda>i. sp_trees s ! (sp_children s ! (first + i))) [0..<count]"

definition spec_parent :: "TSSymbol \<Rightarrow> u16 \<Rightarrow> u8 \<Rightarrow> nat \<Rightarrow> nat \<Rightarrow> TFSpecNode \<Rightarrow> TFSpecTree list \<Rightarrow> TFSpecTree" where
  "spec_parent symbol production structural_count first count base kids =
    (let empty = (kids = []);
         left = hd kids; right = last kids
     in \<lparr>tr_token = \<lparr>tok_symbol = symbol,
            tok_start_byte = (if empty then sn_byte base else tok_start_byte (tr_token left)),
            tok_end_byte = (if empty then sn_byte base else tok_end_byte (tr_token right)),
            tok_start_point = (if empty then sn_point base else tok_start_point (tr_token left)),
            tok_end_point = (if empty then sn_point base else tok_end_point (tr_token right))\<rparr>,
         tr_padding_start = (if empty then sn_byte base else tr_padding_start left),
         tr_first_child = first, tr_child_count = count, tr_production_id = production,
         tr_structural_count = structural_count, tr_leaf = False, tr_extra = False, tr_inherited = False,
         tr_opaque = False, tr_precedence = sum_list (map tr_precedence kids)\<rparr>)"

definition tf_spec_parent ::
  "allocator \<Rightarrow> TSSymbol \<Rightarrow> u16 \<Rightarrow> u8 \<Rightarrow> nat \<Rightarrow> nat \<Rightarrow> nat \<Rightarrow> TFSpec \<Rightarrow> TFSpec \<times> nat" where
  "tf_spec_parent mem symbol production structural_count first count base s =
     tf_spec_tree mem (spec_parent symbol production structural_count first count (sp_nodes s ! base)
       (spec_children s first count)) s"

section \<open>Popping\<close>

text \<open>
  The walk down a chain: the trees passed, deepest first, and the node reached; or a fork on
  the way, or no memory to unroll the prefix.
\<close>

datatype chain_end = Chain nat "nat list" | Forked | No_Memory

definition chain_done :: "nat \<Rightarrow> TFSpecNode \<Rightarrow> nat \<Rightarrow> bool" where
  "chain_done goal node count = (if goal = TF_SPEC_NONE then sn_link_count node = 0 else count = goal)"

partial_function (option) pop_chain ::
  "allocator \<Rightarrow> nat \<Rightarrow> nat \<Rightarrow> nat \<Rightarrow> nat list \<Rightarrow> TFSpec \<Rightarrow> (TFSpec \<times> chain_end) option" where
  "pop_chain mem goal node count walked s =
    (if chain_done goal (sp_nodes s ! node) count then Some (s, Chain node walked)
     else
       let (s, ok) = (if goal \<noteq> TF_SPEC_NONE then tf_spec_unroll mem node s else (s, True))
       in if \<not> ok then Some (s, No_Memory)
          else if sn_link_count (sp_nodes s ! node) \<noteq> 1 then Some (s, Forked)
          else
            let link = sp_links s ! sn_first_link (sp_nodes s ! node);
                count = (if tr_extra (sp_trees s ! lk_tree link) then count else count + 1)
            in pop_chain mem goal (lk_node link) count (lk_tree link # walked) s)"

declare pop_chain.simps [code]

definition pop_single :: "allocator \<Rightarrow> nat \<Rightarrow> nat list \<Rightarrow> TFSpec \<Rightarrow> TFSpec" where
  "pop_single mem node walked s =
    (let (s, ok) = tf_spec_reserve mem A_spec_children (length (sp_children s) + length walked) s
     in if \<not> ok then s
        else
          let (s, ok) = tf_spec_reserve mem A_spec_slices 1 s
          in if \<not> ok then s
             else
               let first = length (sp_children s);
                   s = s\<lparr>sp_children := sp_children s @ walked\<rparr>;
                   (s, v) = tf_spec_head mem node s
               in if sp_failed s then s
                  else s\<lparr>sp_slices := [\<lparr>sl_version = v, sl_first = first, sl_count = length walked\<rparr>]\<rparr>)"

text \<open>The trees of an edge chain, from its last edge back.\<close>

partial_function (option) edge_trees :: "TFSpecEdge list \<Rightarrow> nat \<Rightarrow> nat list option" where
  "edge_trees edges edge =
    (if edge = TF_SPEC_NONE then Some []
     else do {
       trees \<leftarrow> edge_trees edges (ed_previous (edges ! edge));
       Some (ed_tree (edges ! edge) # trees)
     })"

declare edge_trees.simps [code]

text \<open>Where a path that reaches \<open>node\<close> goes: behind the last slice that reached it, or at the end.\<close>

definition slice_slot :: "TFSpec \<Rightarrow> nat \<Rightarrow> nat option" where
  "slice_slot s node =
     (case filter (\<lambda>j. hd_node (sp_heads s ! sl_version (sp_slices s ! j)) = node) [0..<length (sp_slices s)] of
        [] \<Rightarrow> None | js \<Rightarrow> Some (last js))"

definition pop_slice :: "allocator \<Rightarrow> TFSpecIterator \<Rightarrow> TFSpec \<Rightarrow> TFSpec option" where
  "pop_slice mem current s =
    (let (s, ok) = tf_spec_reserve mem A_spec_children (length (sp_children s) + it_length current) s
     in if \<not> ok then Some s
        else
          let (s, ok) = tf_spec_reserve mem A_spec_slices (length (sp_slices s) + 1) s
          in if \<not> ok then Some s
             else do {
               trees \<leftarrow> edge_trees (sp_edges s) (it_edge current);
               let first = length (sp_children s);
                   s = s\<lparr>sp_children := sp_children s @ trees\<rparr>;
                   (s, v, slot) = (case slice_slot s (it_node current) of
                      Some j \<Rightarrow> (s, sl_version (sp_slices s ! j), j + 1)
                    | None \<Rightarrow> (let (s, v) = tf_spec_head mem (it_node current) s in (s, v, length (sp_slices s))))
               in Some (if sp_failed s then s
                        else s\<lparr>sp_slices := take slot (sp_slices s) @
                               \<lparr>sl_version = v, sl_first = first, sl_count = it_length current\<rparr> #
                               drop slot (sp_slices s)\<rparr>)
             })"

text \<open>
  The links of an iterator's node: those from the second on become new iterators while there is
  room for them, the first takes the iterator on. \<open>j\<close> counts them as the source does.
\<close>

definition iterate_link ::
  "allocator \<Rightarrow> nat \<Rightarrow> TFSpecIterator \<Rightarrow> TFSpecNode \<Rightarrow> nat \<Rightarrow> TFSpecIterator list \<times> TFSpec
     \<Rightarrow> TFSpecIterator list \<times> TFSpec" where
  "iterate_link mem i current node j = (\<lambda>(it, s).
    if sp_failed s then (it, s)
    else if j < sn_link_count node \<and> length it = TF_SPEC_ITERATORS then (it, s)
    else
      let link = sp_links s ! (if j = sn_link_count node then sn_first_link node else sn_first_link node + j);
          (s, ok) = tf_spec_reserve mem A_spec_edges (length (sp_edges s) + 1) s
      in if \<not> ok then (it, s)
         else
           let next = \<lparr>it_node = lk_node link, it_edge = length (sp_edges s),
                  it_count = (if tr_extra (sp_trees s ! lk_tree link) then it_count current else it_count current + 1),
                  it_length = it_length current + 1\<rparr>
           in (if j = sn_link_count node then it[i := next] else it @ [next],
               s\<lparr>sp_edges := sp_edges s @ [\<lparr>ed_tree = lk_tree link, ed_previous = it_edge current\<rparr>]\<rparr>))"

text \<open>One round over the iterators that were there when it began, from the \<open>i\<close>-th of \<open>bound\<close> on.\<close>

partial_function (option) pop_round ::
  "allocator \<Rightarrow> nat \<Rightarrow> nat \<Rightarrow> nat \<Rightarrow> TFSpecIterator list \<Rightarrow> TFSpec \<Rightarrow> (TFSpecIterator list \<times> TFSpec) option" where
  "pop_round mem goal i bound it s =
    (if \<not> i < bound then Some (it, s)
     else
       let current = it ! i;
           (s, ok) = (if goal \<noteq> TF_SPEC_NONE \<and> it_count current \<noteq> goal then tf_spec_unroll mem (it_node current) s
                      else (s, True))
       in if \<not> ok then Some (it, s)
          else
            let node = sp_nodes s ! it_node current;
                pop = chain_done goal node (it_count current)
            in do {
              s \<leftarrow> (if pop then pop_slice mem current s else Some s);
              if pop \<and> sp_failed s then Some (it, s)
              else if pop \<or> sn_link_count node = 0
              then pop_round mem goal i (bound - 1) (take i it @ drop (i + 1) it) s
              else
                let (it, s) = fold (iterate_link mem i current node) [1..<sn_link_count node + 1] (it, s)
                in if sp_failed s then Some (it, s) else pop_round mem goal (i + 1) bound it s
            })"

declare pop_round.simps [code]

partial_function (option) pop_rounds ::
  "allocator \<Rightarrow> nat \<Rightarrow> TFSpecIterator list \<Rightarrow> TFSpec \<Rightarrow> TFSpec option" where
  "pop_rounds mem goal it s =
    (if it = [] \<or> sp_failed s then Some s
     else do {
       (it, s) \<leftarrow> pop_round mem goal 0 (length it) it s;
       pop_rounds mem goal it s
     })"

declare pop_rounds.simps [code]

definition tf_spec_pop :: "allocator \<Rightarrow> nat \<Rightarrow> nat \<Rightarrow> TFSpec \<Rightarrow> TFSpec option" where
  "tf_spec_pop mem version goal s =
    (let s = s\<lparr>sp_slices := [], sp_edges := []\<rparr>
     in do {
       (s, chain) \<leftarrow> pop_chain mem goal (hd_node (sp_heads s ! version)) 0 [] s;
       (case chain of
          Chain node walked \<Rightarrow> Some (pop_single mem node walked s)
        | No_Memory \<Rightarrow> Some s
        | Forked \<Rightarrow> pop_rounds mem goal
            [\<lparr>it_node = hd_node (sp_heads s ! version), it_edge = TF_SPEC_NONE, it_count = 0, it_length = 0\<rparr>] s)
     })"

section \<open>Reducing\<close>

text \<open>The slices of each version together.\<close>

fun slice_groups :: "TFSpecSlice list \<Rightarrow> TFSpecSlice list list" where
  "slice_groups [] = []"
| "slice_groups (sl # slices) =
    (case slice_groups slices of
       (other # others) # groups \<Rightarrow>
         if sl_version other = sl_version sl then (sl # other # others) # groups
         else [sl] # (other # others) # groups
     | _ \<Rightarrow> [[sl]])"

text \<open>The children a slice proposes: what is left of it without the extras at its end.\<close>

definition slice_kids :: "TFSpec \<Rightarrow> TFSpecSlice \<Rightarrow> nat" where
  "slice_kids s sl =
     length (dropWhile (\<lambda>t. tr_extra t) (rev (spec_children s (sl_first sl) (sl_count sl))))"

text \<open>The parent proposed by each slice against the best so far, with the extras behind it.\<close>

definition propose ::
  "allocator \<Rightarrow> materializer \<Rightarrow> TSSymbol \<Rightarrow> u16 \<Rightarrow> u8 \<Rightarrow> nat \<Rightarrow> TFSpecSlice \<Rightarrow> nat \<times> nat \<times> nat \<times> TFSpec
     \<Rightarrow> (nat \<times> nat \<times> nat \<times> TFSpec) option" where
  "propose mem materialize symbol production structural_count base sl = (\<lambda>(parent, trailing_first, trailing_count, s).
    if sp_failed s then Some (parent, trailing_first, trailing_count, s)
    else
      let count = slice_kids s sl;
          (s, candidate) = tf_spec_parent mem symbol production structural_count (sl_first sl) count base s
      in if sp_failed s then Some (parent, trailing_first, trailing_count, s)
         else do {
           (s, better) \<leftarrow> tf_spec_prefer mem materialize parent candidate s;
           Some (if better then (candidate, sl_first sl + count, sl_count sl - count, s)
                 else (parent, trailing_first, trailing_count, s))
         })"

text \<open>The first version below \<open>v\<close>, \<open>version\<close> aside, that takes \<open>v\<close> in: whether there is one.\<close>

fun merge_first ::
  "allocator \<Rightarrow> materializer \<Rightarrow> nat \<Rightarrow> nat \<Rightarrow> nat list \<Rightarrow> TFSpec \<Rightarrow> (TFSpec \<times> bool) option" where
  "merge_first mem materialize version v [] s = Some (s, False)"
| "merge_first mem materialize version v (j # js) s =
    (if j = version then merge_first mem materialize version v js s
     else do {
       (s, merged) \<leftarrow> tf_spec_merge mem materialize j v s;
       if merged then Some (s, True) else merge_first mem materialize version v js s
     })"

definition reduce_group ::
  "allocator \<Rightarrow> materializer \<Rightarrow> TFLanguage \<Rightarrow> nat \<Rightarrow> nat \<Rightarrow> u8 \<Rightarrow> TSSymbol \<Rightarrow> 16 word \<Rightarrow> u16
     \<Rightarrow> TFSpecSlice list \<Rightarrow> nat \<times> TFSpec \<Rightarrow> (nat \<times> TFSpec) option" where
  "reduce_group mem materialize lang version halted child_count symbol dynamic_precedence production paths = (\<lambda>(removed, s).
    if sp_failed s then Some (removed, s)
    else
      let v = sl_version (hd paths) - removed
      in if v > TF_SPEC_VERSIONS + 4 + halted then Some (removed + 1, tf_spec_remove_head v s)
         else
           let base = hd_node (sp_heads s ! v)
           in do {
             (parent, trailing_first, trailing_count, s) \<leftarrow>
               fold_opt (propose mem materialize symbol production child_count base) paths (TF_SPEC_NONE, 0, 0, s);
             if sp_failed s then Some (removed, s)
             else
               let s = s\<lparr>sp_trees := (sp_trees s)[parent := (sp_trees s ! parent)
                         \<lparr>tr_precedence := tr_precedence (sp_trees s ! parent) + sint dynamic_precedence\<rparr>]\<rparr>;
                   next = tf_next_state lang (sn_state (sp_nodes s ! base)) symbol;
                   (s, top) = tf_spec_push mem base parent next s;
                   (s, top) = fold (\<lambda>j (s, top). if sp_failed s then (s, top)
                                      else tf_spec_push mem top (sp_children s ! (trailing_first + j)) next s)
                                [0..<trailing_count] (s, top)
               in if sp_failed s then Some (removed, s)
                  else
                    let s = s\<lparr>sp_heads := (sp_heads s)[v := (sp_heads s ! v)\<lparr>hd_node := top\<rparr>]\<rparr>
                    in do {
                      (s, merged) \<leftarrow> merge_first mem materialize version v [0..<v] s;
                      Some (if merged then removed + 1 else removed, s)
                    }
           })"

definition tf_spec_reduce ::
  "allocator \<Rightarrow> materializer \<Rightarrow> TFLanguage \<Rightarrow> nat \<Rightarrow> u8 \<Rightarrow> TSSymbol \<Rightarrow> 16 word \<Rightarrow> u16 \<Rightarrow> TFSpec
     \<Rightarrow> (TFSpec \<times> nat) option" where
  "tf_spec_reduce mem materialize lang version child_count symbol dynamic_precedence production s =
    (let initial = length (sp_heads s);
         halted = length (filter (\<lambda>h. hd_halted h \<and> \<not> hd_errored h) (sp_heads s))
     in do {
       s \<leftarrow> tf_spec_pop mem version (unat child_count) s;
       (removed, s) \<leftarrow> fold_opt (reduce_group mem materialize lang version halted child_count symbol dynamic_precedence production)
         (slice_groups (sp_slices s)) (0, s);
       Some (s, if sp_failed s then TF_SPEC_NONE else if length (sp_heads s) > initial then initial else TF_SPEC_NONE)
     })"

end
