(* ===== verification/Spec_Run.thy ===== *)
theory Spec_Run
  imports Spec
begin

text \<open>
  Running the versions of a speculation: lexing for one, accepting, advancing one by a token,
  condensing them, replaying the outcome on the real stack, and the resolution of a conflict as
  a whole (\<^verbatim>\<open>tf_parser__split\<close>), with the private replay that recovers the prefix.
\<close>

section \<open>Errors and lexing\<close>

definition tf_spec_error ::
  "u32 \<Rightarrow> TFPoint \<Rightarrow> TSStateId \<Rightarrow> TSSymbol \<Rightarrow> bool \<Rightarrow> TFSpec \<Rightarrow> TFSpec" where
  "tf_spec_error byte point state symbol is_lex s =
    (if sp_has_error s \<and> byte \<le> sp_error_byte s then s
     else s\<lparr>sp_has_error := True, sp_error_byte := byte, sp_error_point := point, sp_error_state := state,
            sp_error_symbol := symbol, sp_error_is_lex := is_lex\<rparr>)"

text \<open>The token cached from an earlier version, or from the fork, serves in a state that reads it alike.\<close>

definition cache_reusable :: "TFLanguage \<Rightarrow> TSStateId \<Rightarrow> TFSpec \<Rightarrow> bool" where
  "cache_reusable lang state s =
    (let symbol = tok_symbol (sp_cached s);
         reusable = (tf_actions lang state symbol \<noteq> [] \<and> tf_lex_mode lang state = tf_lex_mode lang (sp_cached_state s) \<and>
           (symbol \<noteq> keyword_capture_token (ts lang) \<or> \<not> sp_cached_keyword s \<and> sp_cached_state s = state))
     in if \<not> reusable \<and> (tok_end_byte (sp_cached s) > tok_start_byte (sp_cached s) \<or> symbol = 0)
        then pa_reusable (parse_actions (ts lang) (unat (tf_lookup lang state symbol)))
        else reusable)"

text \<open>The token and whether it is a keyword; \<open>None\<close> in the result when there is none.\<close>

definition tf_spec_lex ::
  "nat \<Rightarrow> TFSpec \<Rightarrow> ('p, 'v, 's) TFParser \<Rightarrow> (TFSpec \<times> ('p, 'v, 's) TFParser \<times> (TFToken \<times> bool) option) option" where
  "tf_spec_lex node s p =
    (let n = sp_nodes s ! node
     in if sp_has_cache s \<and> sp_cached_byte s = sn_byte n \<and> cache_reusable (ps_lang p) (sn_state n) s
        then Some (s, p, Some (sp_cached s, sp_cached_keyword s))
        else do {
          (lexer, lexed) \<leftarrow> tf_lexer_next (sn_state n) (tf_lexer_seek (sn_byte n) (sn_point n) (ps_lexer p));
          let p = p\<lparr>ps_lexer := lexer\<rparr>
          in case lexed of
               None \<Rightarrow> Some (tf_spec_error (lx_byte lexer) (lx_point lexer) (sn_state n) 0 True s, p, None)
             | Some token \<Rightarrow>
                 Some (s\<lparr>sp_cached := token, sp_cached_byte := sn_byte n, sp_cached_state := sn_state n,
                         sp_cached_keyword := token_is_keyword lexer, sp_has_cache := True\<rparr>,
                       p, Some (token, token_is_keyword lexer))
        })"

section \<open>Accepting\<close>

text \<open>All of the prefix; as many steps as there are cells left.\<close>

fun extend_all :: "allocator \<Rightarrow> nat \<Rightarrow> TFSpec \<Rightarrow> TFSpec" where
  "extend_all mem 0 s = s"
| "extend_all mem (Suc n) s = (if sp_failed s then s else extend_all mem n (tf_spec_extend mem s))"

definition leaf_tree :: "TFToken \<Rightarrow> u32 \<Rightarrow> bool \<Rightarrow> TFSpecTree" where
  "leaf_tree token padding extra =
     \<lparr>tr_token = token, tr_padding_start = padding, tr_first_child = 0, tr_child_count = 0, tr_production_id = 0,
      tr_structural_count = 0, tr_leaf = True, tr_extra = extra, tr_inherited = False, tr_opaque = False,
      tr_precedence = 0\<rparr>"

text \<open>Where the root is in a slice: the last tree that is no extra.\<close>

definition root_index :: "TFSpec \<Rightarrow> TFSpecSlice \<Rightarrow> nat option" where
  "root_index s sl =
    (case filter (\<lambda>j. \<not> tr_extra (sp_trees s ! (sp_children s ! (sl_first sl + j)))) [0..<sl_count sl] of
       [] \<Rightarrow> None | js \<Rightarrow> Some (last js))"

text \<open>The trees of a slice with the root's own children in its place.\<close>

definition spliced :: "TFSpec \<Rightarrow> TFSpecSlice \<Rightarrow> nat \<Rightarrow> TFSpecTree \<Rightarrow> nat list" where
  "spliced s sl j root =
     concat (map (\<lambda>k. if k = j
                      then map (\<lambda>c. sp_children s ! (tr_first_child root + c)) [0..<tr_child_count root]
                      else [sp_children s ! (sl_first sl + k)])
               [0..<sl_count sl])"

definition accept_slice ::
  "allocator \<Rightarrow> materializer \<Rightarrow> TFSpecSlice \<Rightarrow> TFSpec \<Rightarrow> TFSpec option" where
  "accept_slice mem materialize sl s =
    (if sp_failed s then Some s
     else case root_index s sl of
       None \<Rightarrow> Some s
     | Some j \<Rightarrow>
       let tree = sp_children s ! (sl_first sl + j)
       in do {
         (s, ok) \<leftarrow> (if tr_opaque (sp_trees s ! tree) then materialize s else Some (s, True));
         if \<not> ok then Some s
         else
           let root = sp_trees s ! tree;
               count = sl_count sl - 1 + tr_child_count root;
               first = length (sp_children s);
               (s, ok) = tf_spec_reserve mem A_spec_children (length (sp_children s) + count) s
           in if \<not> ok then Some s
              else
                let s = s\<lparr>sp_children := sp_children s @ spliced s sl j root\<rparr>;
                    (s, candidate) = tf_spec_parent mem (tok_symbol (tr_token root)) (tr_production_id root)
                      (tr_structural_count root) first count 0 s
                in if sp_failed s then Some s
                   else do {
                     (s, better) \<leftarrow> tf_spec_prefer mem materialize (sp_finished s) candidate s;
                     Some (if better then s\<lparr>sp_finished := candidate\<rparr> else s)
                   }
       })"

definition halt_head :: "nat \<Rightarrow> bool \<Rightarrow> TFSpec \<Rightarrow> TFSpec" where
  "halt_head version errored s =
     s\<lparr>sp_heads := (sp_heads s)[version := (sp_heads s ! version)
         \<lparr>hd_halted := True, hd_errored := errored \<or> hd_errored (sp_heads s ! version)\<rparr>]\<rparr>"

definition move_head :: "nat \<Rightarrow> nat \<Rightarrow> TFSpec \<Rightarrow> TFSpec" where
  "move_head version node s = s\<lparr>sp_heads := (sp_heads s)[version := (sp_heads s ! version)\<lparr>hd_node := node\<rparr>]\<rparr>"

definition tf_spec_accept :: "allocator \<Rightarrow> materializer \<Rightarrow> nat \<Rightarrow> TFToken \<Rightarrow> TFSpec \<Rightarrow> TFSpec option" where
  "tf_spec_accept mem materialize version eof s =
    (let s = extend_all mem (sp_prefix_left s) s
     in if sp_failed s then Some s
        else
          let tip = hd_node (sp_heads s ! version);
              (s, leaf) = tf_spec_tree mem (leaf_tree eof (sn_byte (sp_nodes s ! tip)) True) s
          in if sp_failed s then Some s
             else
               let (s, node) = tf_spec_push mem tip leaf 1 s
               in if sp_failed s then Some s
                  else do {
                    s \<leftarrow> tf_spec_pop mem version TF_SPEC_NONE (move_head version node s);
                    if sp_failed s then Some s
                    else do {
                      s \<leftarrow> fold_opt (accept_slice mem materialize) (sp_slices s) s;
                      let s = (if sp_slices s \<noteq> [] then tf_spec_remove_head (sl_version (hd (sp_slices s))) s else s)
                      in Some (halt_head version False s)
                    }
                  })"

section \<open>Advancing a version\<close>

text \<open>The actions of a state in turn: done with the version, or whether one reduced and the last new version.\<close>

datatype acted = Left_Version | Went_On bool nat

fun spec_act ::
  "allocator \<Rightarrow> materializer \<Rightarrow> TFLanguage \<Rightarrow> nat \<Rightarrow> TSStateId \<Rightarrow> TFToken \<Rightarrow> TSParseAction list \<Rightarrow> bool \<Rightarrow> nat
     \<Rightarrow> TFSpec \<Rightarrow> (TFSpec \<times> acted) option" where
  "spec_act mem materialize lang version state token [] reduced final s = Some (s, Went_On reduced final)"
| "spec_act mem materialize lang version state token (action # actions) reduced final s =
    (case action of
       Shift next_state extra repetition \<Rightarrow>
         let tip = hd_node (sp_heads s ! version);
             (s, leaf) = tf_spec_tree mem (leaf_tree token (sn_byte (sp_nodes s ! tip)) extra) s
         in Some (if sp_failed s then s
                  else let (s, node) = tf_spec_push mem tip leaf (if extra then state else next_state) s
                       in move_head version node s, Left_Version)
     | Reduce child_count symbol dynamic_precedence production_id \<Rightarrow> do {
         (s, v) \<leftarrow> tf_spec_reduce mem materialize lang version child_count symbol dynamic_precedence production_id s;
         if sp_failed s then Some (s, Left_Version)
         else spec_act mem materialize lang version state token actions True (if v \<noteq> TF_SPEC_NONE then v else final) s
       }
     | Accept \<Rightarrow> do {
         s \<leftarrow> tf_spec_accept mem materialize version token s;
         Some (s, Left_Version)
       }
     | Recover \<Rightarrow> spec_act mem materialize lang version state token actions reduced final s)"

partial_function (option) advance_loop ::
  "allocator \<Rightarrow> materializer \<Rightarrow> TFLanguage \<Rightarrow> nat \<Rightarrow> bool \<Rightarrow> TFToken \<Rightarrow> TFSpec \<Rightarrow> TFSpec option" where
  "advance_loop mem materialize lang version keyword token s =
    (let state = sn_state (sp_nodes s ! hd_node (sp_heads s ! version))
     in do {
       (s, acted) \<leftarrow> spec_act mem materialize lang version state token (tf_actions lang state (tok_symbol token))
         False TF_SPEC_NONE s;
       (case acted of
          Left_Version \<Rightarrow> Some s
        | Went_On reduced final \<Rightarrow>
            if final \<noteq> TF_SPEC_NONE then
              advance_loop mem materialize lang version keyword token
                (tf_spec_remove_head final (s\<lparr>sp_heads := (sp_heads s)[version := sp_heads s ! final]\<rparr>))
            else if reduced then Some (halt_head version False s)
            else
              (case tf_parser_demote_keyword lang state token keyword of
                 Some token \<Rightarrow> advance_loop mem materialize lang version keyword token s
               | None \<Rightarrow> Some (halt_head version True
                   (tf_spec_error (tok_start_byte token) (tok_start_point token) state (tok_symbol token) False s))))
     })"

declare advance_loop.simps [code]

definition tf_spec_advance ::
  "allocator \<Rightarrow> materializer \<Rightarrow> nat \<Rightarrow> TFSpec \<Rightarrow> ('p, 'v, 's) TFParser \<Rightarrow> (TFSpec \<times> ('p, 'v, 's) TFParser) option" where
  "tf_spec_advance mem materialize version s p = do {
     (s, p, lexed) \<leftarrow> tf_spec_lex (hd_node (sp_heads s ! version)) s p;
     (case lexed of
        None \<Rightarrow> Some (halt_head version True s, p)
      | Some (token, keyword) \<Rightarrow> do {
          s \<leftarrow> advance_loop mem materialize (ps_lang p) version keyword token s;
          Some (s, p)
        })
   }"

section \<open>Condensing the versions\<close>

text \<open>
  Version \<open>i\<close>, of precedence \<open>precedence\<close> when its turn came, against those before it from \<open>j\<close> on:
  merged into one of them, or moved in front of those it is preferred to.
\<close>

fun condense_head :: "allocator \<Rightarrow> materializer \<Rightarrow> nat \<Rightarrow> int \<Rightarrow> nat list \<Rightarrow> TFSpec \<Rightarrow> (TFSpec \<times> bool) option" where
  "condense_head mem materialize i precedence [] s = Some (s, False)"
| "condense_head mem materialize i precedence (j # js) s =
    (let prefer = precedence > sn_precedence (sp_nodes s ! hd_node (sp_heads s ! j))
     in do {
       (s, merged) \<leftarrow> tf_spec_merge mem materialize j i s;
       if merged then Some (s, True)
       else condense_head mem materialize i precedence js
         (if prefer then s\<lparr>sp_heads := (sp_heads s)[i := sp_heads s ! j, j := sp_heads s ! i]\<rparr> else s)
     })"

partial_function (option) condense_loop :: "allocator \<Rightarrow> materializer \<Rightarrow> nat \<Rightarrow> TFSpec \<Rightarrow> TFSpec option" where
  "condense_loop mem materialize i s =
    (if \<not> i < length (sp_heads s) then Some s
     else if hd_halted (sp_heads s ! i) then condense_loop mem materialize i (tf_spec_remove_head i s)
     else do {
       (s, merged) \<leftarrow> condense_head mem materialize i (sn_precedence (sp_nodes s ! hd_node (sp_heads s ! i))) [0..<i] s;
       condense_loop mem materialize (if merged then i else i + 1) s
     })"

declare condense_loop.simps [code]

definition tf_spec_condense :: "allocator \<Rightarrow> materializer \<Rightarrow> TFSpec \<Rightarrow> TFSpec option" where
  "tf_spec_condense mem materialize s = do {
     s \<leftarrow> condense_loop mem materialize 0 s;
     Some (s\<lparr>sp_heads := take TF_SPEC_VERSIONS (sp_heads s)\<rparr>)
   }"

partial_function (option) tf_spec_unique :: "TFSpec \<Rightarrow> nat \<Rightarrow> bool option" where
  "tf_spec_unique s node =
    (if sn_link_count (sp_nodes s ! node) = 0 then Some True
     else if sn_link_count (sp_nodes s ! node) \<noteq> 1 then Some False
     else tf_spec_unique s (lk_node (sp_links s ! sn_first_link (sp_nodes s ! node))))"

declare tf_spec_unique.simps [code]

section \<open>The replay\<close>

text \<open>The items of the stack of \<^verbatim>\<open>tf_spec__replay\<close>: a tree to visit, or, with the high bit, one to reduce.\<close>

datatype replay_item = Visit nat | Close nat

partial_function (option) replay_loop ::
  "allocator \<Rightarrow> replay_item list \<Rightarrow> TFSpec \<Rightarrow> ('p, 'v, 's) TFParser
     \<Rightarrow> (TFSpec \<times> ('p, 'v, 's) TFParser \<times> op_end) option" where
  "replay_loop mem items s p =
    (case items of
       [] \<Rightarrow> Some (s, p, Op_Ok)
     | Close item # rest \<Rightarrow>
         let done = sp_trees s ! item;
             (p, ended) = tf_parser_reduce mem (tok_symbol (tr_token done)) (ucast (tr_structural_count done))
               (tr_production_id done) None p
         in if ended \<noteq> Op_Ok then Some (s, p, ended) else replay_loop mem rest s p
     | Visit item # rest \<Rightarrow>
         let tree = sp_trees s ! item
         in if tr_inherited tree then replay_loop mem rest s p
            else if tr_leaf tree then
              let (p, ended) = tf_parser_shift mem (tr_token tree) (tr_extra tree)
                    (if tr_extra tree then top_state p
                     else tf_next_state (ps_lang p) (top_state p) (tok_symbol (tr_token tree))) p
              in if ended \<noteq> Op_Ok then Some (s, p, ended) else replay_loop mem rest s p
            else if tr_child_count tree = 0 then replay_loop mem (Close item # rest) s p
            else
              let (s, ok) = tf_spec_reserve mem A_spec_scratch (length rest + tr_child_count tree) s
              in if \<not> ok then Some (s, p, Op_Oom)
                 else replay_loop mem
                   (map (\<lambda>i. Visit (sp_children s ! (tr_first_child tree + i))) [0..<tr_child_count tree] @ Close item # rest)
                   s p)"

declare replay_loop.simps [code]

definition tf_spec_replay ::
  "allocator \<Rightarrow> nat \<Rightarrow> nat \<Rightarrow> TFSpec \<Rightarrow> ('p, 'v, 's) TFParser \<Rightarrow> (TFSpec \<times> ('p, 'v, 's) TFParser \<times> op_end) option" where
  "tf_spec_replay mem first count s p =
    (let (s, ok) = tf_spec_reserve mem A_spec_scratch count s
     in if \<not> ok then Some (s, p, Op_Oom)
        else replay_loop mem (map (\<lambda>i. Visit (sp_children s ! (first + i))) [0..<count]) s p)"

section \<open>Resolving a conflict\<close>

text \<open>What the split does with the versions: every one advanced until it is ahead of the ones before.\<close>

partial_function (option) advance_version ::
  "allocator \<Rightarrow> materializer \<Rightarrow> nat \<Rightarrow> u32 \<Rightarrow> TFSpec \<Rightarrow> ('p, 'v, 's) TFParser
     \<Rightarrow> (u32 \<times> TFSpec \<times> ('p, 'v, 's) TFParser) option" where
  "advance_version mem materialize v last_position s p =
    (if hd_halted (sp_heads s ! v) then Some (last_position, s, p)
     else do {
       (s, p) \<leftarrow> tf_spec_advance mem materialize v s p;
       if sp_failed s then Some (last_position, s, p)
       else
         let pos = sn_byte (sp_nodes s ! hd_node (sp_heads s ! v))
         in if pos > last_position \<or> v > 0 \<and> pos = last_position then Some (pos, s, p)
            else advance_version mem materialize v last_position s p
     })"

declare advance_version.simps [code]

partial_function (option) advance_versions ::
  "allocator \<Rightarrow> materializer \<Rightarrow> nat \<Rightarrow> u32 \<Rightarrow> TFSpec \<Rightarrow> ('p, 'v, 's) TFParser
     \<Rightarrow> (u32 \<times> TFSpec \<times> ('p, 'v, 's) TFParser) option" where
  "advance_versions mem materialize v last_position s p =
    (if \<not> v < length (sp_heads s) then Some (last_position, s, p)
     else do {
       (last_position, s, p) \<leftarrow> advance_version mem materialize v last_position s p;
       if sp_failed s then Some (last_position, s, p)
       else advance_versions mem materialize (v + 1) last_position s p
     })"

declare advance_versions.simps [code]

text \<open>How the rounds end: the trees to replay, with the root accepted or the top to go on from; in vain; or without memory.\<close>

datatype rounds_end = Accepted nat nat | Settled nat nat nat | Defeated | Starved

partial_function (option) split_rounds ::
  "allocator \<Rightarrow> materializer \<Rightarrow> u32 \<Rightarrow> TFSpec \<Rightarrow> ('p, 'v, 's) TFParser
     \<Rightarrow> (TFSpec \<times> ('p, 'v, 's) TFParser \<times> rounds_end) option" where
  "split_rounds mem materialize last_position s p = do {
     (last_position, s, p) \<leftarrow> advance_versions mem materialize 0 last_position s p;
     if sp_failed s then Some (s, p, Starved)
     else do {
       s \<leftarrow> tf_spec_condense mem materialize s;
       if sp_finished s \<noteq> TF_SPEC_NONE \<and> sp_heads s = [] then
         let root = sp_trees s ! sp_finished s
         in Some (s, p, Accepted (tr_first_child root) (tr_child_count root - 1))
       else if sp_heads s = [] then Some (s, p, Defeated)
       else do {
         unique \<leftarrow> (if length (sp_heads s) = 1 \<and> sp_finished s = TF_SPEC_NONE
                    then tf_spec_unique s (hd_node (hd (sp_heads s))) else Some False);
         if unique then
           let tip = hd_node (hd (sp_heads s))
           in do {
             s \<leftarrow> tf_spec_pop mem 0 TF_SPEC_NONE s;
             Some (s, p, if sp_failed s then Starved
                         else Settled tip (sl_first (hd (sp_slices s))) (sl_count (hd (sp_slices s))))
           }
         else split_rounds mem materialize last_position s p
       }
     }
   }"

declare split_rounds.simps [code]

text \<open>
  The speculation at the start of a split, in the arrays of the last one. The fields of an error
  are not reset, only its flag.
\<close>

definition empty_capacity :: "alloc_site \<Rightarrow> u32" where
  "empty_capacity = (\<lambda>_. 0)"

definition snapshot :: "('p, 'v, 's) TFParser \<Rightarrow> (unit, unit, unit) TFParser" where
  "snapshot p = \<lparr>ps_lang = ps_lang p, ps_lexer = ps_lexer p, ps_sink = no_sink, ps_payload = (),
     ps_states = ps_states p,
     ps_nodes = map (\<lambda>n. \<lparr>nd_symbol = nd_symbol n, nd_extra = nd_extra n, nd_start_byte = nd_start_byte n,
        nd_end_byte = nd_end_byte n, nd_start_point = nd_start_point n, nd_end_point = nd_end_point n,
        nd_value = None\<rparr>) (ps_nodes p),
     ps_capacity = ps_capacity p, ps_leading = ps_leading p, ps_root_emitted = ps_root_emitted p,
     ps_error = None, ps_split_count = ps_split_count p, ps_spec = None\<rparr>"

definition start_spec :: "TFSpec option \<Rightarrow> TFToken \<Rightarrow> ('p, 'v, 's) TFParser \<Rightarrow> TFSpec" where
  "start_spec kept token p =
     \<lparr>sp_trees = [], sp_nodes = [], sp_links = [], sp_heads = [], sp_children = [], sp_edges = [], sp_slices = [],
      sp_prefix_tree = [], sp_capture_id = (case kept of Some s \<Rightarrow> sp_capture_id s | None \<Rightarrow> []),
      sp_capacity = (case kept of Some s \<Rightarrow> sp_capacity s | None \<Rightarrow> empty_capacity),
      sp_frontier = 0, sp_prefix_left = ps_depth p, sp_prefix_depth = ps_depth p,
      sp_failed = False, sp_materialized = False, sp_captured = False,
      sp_owner = snapshot p, sp_fork_byte = tok_start_byte token,
      sp_cached = token, sp_cached_byte = fst (cell_end (ps_nodes p) (ps_depth p)),
      sp_cached_state = token_lex_state (ps_lexer p), sp_has_cache = True,
      sp_cached_keyword = token_is_keyword (ps_lexer p), sp_finished = TF_SPEC_NONE,
      sp_error_byte = (case kept of Some s \<Rightarrow> sp_error_byte s | None \<Rightarrow> 0),
      sp_error_point = (case kept of Some s \<Rightarrow> sp_error_point s | None \<Rightarrow> zero_point),
      sp_error_state = (case kept of Some s \<Rightarrow> sp_error_state s | None \<Rightarrow> 0),
      sp_error_symbol = (case kept of Some s \<Rightarrow> sp_error_symbol s | None \<Rightarrow> 0),
      sp_has_error = False,
      sp_error_is_lex = (case kept of Some s \<Rightarrow> sp_error_is_lex s | None \<Rightarrow> False), sp_fault = None\<rparr>"

text \<open>One node for all of the real stack, and one version on it.\<close>

definition fork_graph :: "allocator \<Rightarrow> ('p, 'v, 's) TFParser \<Rightarrow> TFSpec \<Rightarrow> TFSpec" where
  "fork_graph mem p s =
    (let (s, ok) = tf_spec_reserve mem A_spec_nodes 1 s
     in if \<not> ok then s
        else let (byte, point) = cell_end (ps_nodes p) (ps_depth p)
             in fst (tf_spec_head mem 0 (s\<lparr>sp_nodes := [bare_node (top_state p) byte point]\<rparr>)))"

definition split_oom :: "TFToken \<Rightarrow> ('p, 'v, TFSpec) TFParser \<Rightarrow> ('p, 'v, TFSpec) TFParser" where
  "split_oom token p = tf_parser_fail (tok_start_byte token) (tok_start_point token) ''out of memory'' p"

text \<open>The report when every version has failed.\<close>

definition split_defeat :: "TFSpec \<Rightarrow> ('p, 'v, TFSpec) TFParser \<Rightarrow> ('p, 'v, TFSpec) TFParser \<times> split_end" where
  "split_defeat s p =
    (if sp_error_is_lex s
     then (tf_parser_fail (sp_error_byte s) (sp_error_point s) ''unexpected character'' p, Split_Failed)
     else
       let bad = zero_token\<lparr>tok_symbol := sp_error_symbol s, tok_start_byte := sp_error_byte s,
                            tok_start_point := sp_error_point s\<rparr>;
           (p, ended) = tf_parser_fail_unexpected (sp_error_state s) bad p
       in (p, case ended of Op_Fault f \<Rightarrow> Split_Fault f | _ \<Rightarrow> Split_Failed))"

text \<open>The end token of an accepted parse, at the end of the input.\<close>

definition accepted_token :: "TFSpec \<Rightarrow> u32 \<Rightarrow> TFToken" where
  "accepted_token s sz =
    (let point = tok_end_point (tr_token (sp_trees s ! sp_finished s))
     in \<lparr>tok_symbol = 0, tok_start_byte = sz, tok_end_byte = sz, tok_start_point = point, tok_end_point = point\<rparr>)"

definition failed_op :: "TFToken \<Rightarrow> op_end \<Rightarrow> ('p, 'v, TFSpec) TFParser \<Rightarrow> ('p, 'v, TFSpec) TFParser \<times> split_end" where
  "failed_op token ended p = (case ended of Op_Fault f \<Rightarrow> (p, Split_Fault f) | _ \<Rightarrow> (split_oom token p, Split_Failed))"

definition finish_accepted ::
  "allocator \<Rightarrow> TFToken \<Rightarrow> TFSpec \<Rightarrow> ('p, 'v, TFSpec) TFParser \<Rightarrow> ('p, 'v, TFSpec) TFParser \<times> split_end" where
  "finish_accepted mem token s p =
    (let next = accepted_token s (lx_size (ps_lexer p));
         root = sp_trees s ! sp_finished s;
         (p, ended) = tf_parser_reduce mem (tok_symbol (tr_token root)) (ucast (tr_structural_count root))
           (tr_production_id root) (Some next) p
     in if ended \<noteq> Op_Ok then failed_op token ended p
        else (p\<lparr>ps_lexer := tf_lexer_seek (tok_end_byte next) (tok_end_point next) (ps_lexer p)\<rparr>, Split_Ok next))"

definition finish_settled ::
  "nat \<Rightarrow> TFSpec \<Rightarrow> ('p, 'v, TFSpec) TFParser \<Rightarrow> (TFSpec \<times> ('p, 'v, TFSpec) TFParser \<times> split_end) option" where
  "finish_settled tip s p = do {
     (s, p, lexed) \<leftarrow> tf_spec_lex tip s p;
     Some (case lexed of
        None \<Rightarrow> (s, tf_parser_fail (sp_error_byte s) (sp_error_point s) ''unexpected character'' p, Split_Failed)
      | Some (next, keyword) \<Rightarrow>
          (s, p\<lparr>ps_lexer := (tf_lexer_seek (tok_end_byte next) (tok_end_point next) (ps_lexer p))
                 \<lparr>token_is_keyword := keyword, token_lex_state := sp_cached_state s\<rparr>\<rparr>, Split_Ok next))
   }"

text \<open>
  \<open>stop\<close> is the check of a private replay for the fork it was started from: the parser to stop
  with. The spec is kept in the parser whatever the outcome.
\<close>

definition tf_parser_split ::
  "allocator \<Rightarrow> materializer \<Rightarrow> (TFToken \<Rightarrow> ('p, 'v, TFSpec) TFParser \<Rightarrow> ('p, 'v, TFSpec) TFParser option)
     \<Rightarrow> ('p, 'v, TFSpec) splitter" where
  "tf_parser_split mem materialize stop token p =
    (let p = p\<lparr>ps_split_count := ps_split_count p + 1\<rparr>
     in case stop token p of
          Some p \<Rightarrow> Some (p, Split_Failed)
        | None \<Rightarrow>
          if ps_spec p = None \<and> \<not> mem A_spec 1 then Some (split_oom token p, Split_Failed)
          else
            let s = fork_graph mem p (start_spec (ps_spec p) token p);
                keep = (\<lambda>s (p, ended). (p\<lparr>ps_spec := Some s\<rparr>,
                          case sp_fault s of Some f \<Rightarrow> Split_Fault f | None \<Rightarrow> ended))
            in if sp_failed s then Some (keep s (split_oom token p, Split_Failed))
               else do {
                 (s, p, ended) \<leftarrow> split_rounds mem materialize 0 s p;
                 (case ended of
                    Starved \<Rightarrow> Some (keep s (split_oom token p, Split_Failed))
                  | Defeated \<Rightarrow> Some (keep s (split_defeat s p))
                  | Accepted first count \<Rightarrow> do {
                      (s, p, ended) \<leftarrow> tf_spec_replay mem first count s p;
                      Some (keep s (if ended \<noteq> Op_Ok then failed_op token ended p else finish_accepted mem token s p))
                    }
                  | Settled tip first count \<Rightarrow> do {
                      (s, p, ended) \<leftarrow> tf_spec_replay mem first count s p;
                      if ended \<noteq> Op_Ok then Some (keep s (failed_op token ended p))
                      else do {
                        (s, p, ended) \<leftarrow> finish_settled tip s p;
                        Some (keep s (p, ended))
                      }
                    })
               })"

section \<open>The private replay\<close>

text \<open>The collector: its payload is the speculation that asked, its values are tree ids plus one.\<close>

definition handle_id :: "nat option \<Rightarrow> nat" where
  "handle_id value = (case value of Some h \<Rightarrow> h - 1 | None \<Rightarrow> TF_SPEC_NONE)"

definition tf_capture_shift :: "allocator \<Rightarrow> TFSpec \<Rightarrow> TFToken \<Rightarrow> bool \<Rightarrow> TFSpec \<times> nat option" where
  "tf_capture_shift mem s token extra =
    (let (s, id) = tf_spec_tree mem (leaf_tree token 0 extra) s
     in (s, if sp_failed s then None else Some (id + 1)))"

definition tf_capture_reduce :: "allocator \<Rightarrow> TFSpec \<Rightarrow> nat TFReduction \<Rightarrow> TFSpec \<times> nat option" where
  "tf_capture_reduce mem s reduction =
    (let (s, ok) = tf_spec_reserve mem A_spec_children (length (sp_children s) + unat (rd_node_count reduction)) s
     in if \<not> ok then (s, None)
        else
          let first = length (sp_children s);
              s = s\<lparr>sp_children := sp_children s @ map (handle_id \<circ> nd_value) (rd_children reduction)\<rparr>;
              token = \<lparr>tok_symbol = rd_symbol reduction, tok_start_byte = rd_start_byte reduction,
                       tok_end_byte = rd_end_byte reduction, tok_start_point = rd_start_point reduction,
                       tok_end_point = rd_end_point reduction\<rparr>;
              (s, id) = tf_spec_tree mem ((leaf_tree token 0 False)\<lparr>tr_leaf := False, tr_first_child := first,
                          tr_child_count := unat (rd_node_count reduction)\<rparr>) s
          in (s, if sp_failed s then None else Some (id + 1)))"

definition capture_sink :: "allocator \<Rightarrow> (TFSpec, nat) TFSink" where
  "capture_sink mem = \<lparr>on_shift = Some (tf_capture_shift mem), on_reduce = Some (tf_capture_reduce mem), on_discard = None\<rparr>"

text \<open>Whether the replay stands at the owner's fork, and the collector then.\<close>

definition tf_spec_capture :: "allocator \<Rightarrow> TFSpec \<Rightarrow> TFToken \<Rightarrow> ('p, nat, 's) TFParser \<Rightarrow> TFSpec option" where
  "tf_spec_capture mem c token p =
    (let owner = sp_owner c
     in if ps_split_count p \<noteq> ps_split_count owner \<or> tok_start_byte token \<noteq> sp_fork_byte c \<or>
           ps_depth p \<noteq> ps_depth owner \<or>
           take (ps_depth p + 1) (ps_states p) \<noteq> take (ps_depth p + 1) (ps_states owner)
        then None
        else
          let (c, ok) = tf_spec_reserve mem A_spec_capture_id (ps_depth p) c
          in if \<not> ok then Some c
             else Some (fold tf_spec_resolve [0..<length (sp_prefix_tree c)]
                    (c\<lparr>sp_capture_id := map (handle_id \<circ> nd_value) (take (ps_depth p) (ps_nodes p)),
                       sp_captured := True\<rparr>)))"

definition capture_stop ::
  "allocator \<Rightarrow> TFToken \<Rightarrow> (TFSpec, nat, TFSpec) TFParser \<Rightarrow> (TFSpec, nat, TFSpec) TFParser option" where
  "capture_stop mem token p =
    (if sp_failed (ps_payload p) then Some p
     else map_option (\<lambda>c. p\<lparr>ps_payload := c\<rparr>) (tf_spec_capture mem (ps_payload p) token p))"

definition tf_spec_materialize :: "allocator \<Rightarrow> (TFSpec, nat, TFSpec) splitter \<Rightarrow> materializer" where
  "tf_spec_materialize mem split s =
    (if sp_materialized s then Some (s, \<not> sp_failed s)
     else do {
       (s, _, ended) \<leftarrow> tf_parser_run mem split (ps_lang (sp_owner s)) (lx_source (ps_lexer (sp_owner s)))
         (ucast (lx_size (ps_lexer (sp_owner s)))) (Some (capture_sink mem)) False (s\<lparr>sp_materialized := True\<rparr>);
       let s = (if \<not> sp_captured s then s\<lparr>sp_failed := True\<rparr> else s);
           s = (case ended of Fault f \<Rightarrow> s\<lparr>sp_failed := True, sp_fault := Some f\<rparr> | _ \<Rightarrow> s)
       in Some (s, \<not> sp_failed s)
     })"

text \<open>
  A private replay meets the conflicts before the fork, which may need private replays of their
  own: \<open>n\<close> bounds how many lie within each other. A replay stops at the fork that asked for it, so
  each only meets forks before that one.
\<close>

fun private_split :: "allocator \<Rightarrow> nat \<Rightarrow> (TFSpec, nat, TFSpec) splitter" where
  "private_split mem 0 = (\<lambda>_ _. None)"
| "private_split mem (Suc n) = tf_parser_split mem (tf_spec_materialize mem (private_split mem n)) (capture_stop mem)"

definition conflict_split :: "allocator \<Rightarrow> nat \<Rightarrow> ('p, 'v, TFSpec) splitter" where
  "conflict_split mem n = tf_parser_split mem (tf_spec_materialize mem (private_split mem n)) (\<lambda>_ _. None)"

definition tf_parse ::
  "allocator \<Rightarrow> nat \<Rightarrow> TFLanguage \<Rightarrow> u8 list \<Rightarrow> u64 \<Rightarrow> ('p, 'v) TFSink option \<Rightarrow> bool \<Rightarrow> 'p
     \<Rightarrow> ('p \<times> TFError option \<times> 'v run_end) option" where
  "tf_parse mem n lang source sz sink want_error payload =
     tf_parser_run mem (conflict_split mem n) lang source sz sink want_error payload"

end
