(* ===== verification/Spec_Graph.thy ===== *)
theory Spec_Graph
  imports Spec_Run Parser_Inv
begin

text \<open>
  What the graph of stacks holds while a conflict is worked out. Every tree on a link covers the
  input from the end of the stack below it to the end of the stack above it, counted from the
  fork; so each path down from a version spells the input up to where the version stands, and
  can be replayed on the real stack.
\<close>

section \<open>What a tree replays\<close>

definition kids_of :: "nat list \<Rightarrow> TFSpecTree \<Rightarrow> nat list" where
  "kids_of children t = take (tr_child_count t) (drop (tr_first_child t) children)"

text \<open>
  The tokens that the replay of a tree shifts follow each other from \<open>a\<close> to \<open>b\<close>. An inherited
  cell is on the real stack already.
\<close>

inductive visits and visits_all for lang :: TFLanguage and source :: "u8 list"
    and trees :: "TFSpecTree list" and children :: "nat list" where
  visits_inherited: "t < length trees \<Longrightarrow> tr_inherited (trees ! t) \<Longrightarrow> visits lang source trees children t a a"
| visits_leaf: "t < length trees \<Longrightarrow> \<not> tr_inherited (trees ! t) \<Longrightarrow> tr_leaf (trees ! t) \<Longrightarrow>
    token_at source a (tr_token (trees ! t)) \<Longrightarrow> is_token lang (tok_symbol (tr_token (trees ! t))) \<Longrightarrow>
    tok_symbol (tr_token (trees ! t)) \<noteq> 0 \<Longrightarrow>
    visits lang source trees children t a (tok_end_byte (tr_token (trees ! t)))"
| visits_parent: "t < length trees \<Longrightarrow> \<not> tr_inherited (trees ! t) \<Longrightarrow> \<not> tr_leaf (trees ! t) \<Longrightarrow>
    is_symbol lang (tok_symbol (tr_token (trees ! t))) \<Longrightarrow> tok_symbol (tr_token (trees ! t)) \<noteq> 0 \<Longrightarrow>
    tr_first_child (trees ! t) + tr_child_count (trees ! t) \<le> length children \<Longrightarrow>
    visits_all lang source trees children (kids_of children (trees ! t)) a b \<Longrightarrow>
    visits lang source trees children t a b"
| visits_none: "visits_all lang source trees children [] a a"
| visits_more: "visits lang source trees children t a b \<Longrightarrow> visits_all lang source trees children us b c \<Longrightarrow>
    visits_all lang source trees children (t # us) a c"

inductive_simps visits_all_simps [simp]:
  "visits_all lang source trees children [] a b"
  "visits_all lang source trees children (t # us) a c"

lemma visits_all_append [simp]:
  "visits_all lang source trees children (us @ vs) a c \<longleftrightarrow>
     (\<exists>b. visits_all lang source trees children us a b \<and> visits_all lang source trees children vs b c)"
  by (induction us arbitrary: a) auto

lemma visits_le:
  "visits lang source trees children t a b \<Longrightarrow> a \<le> b"
  "visits_all lang source trees children us a b \<Longrightarrow> a \<le> b"
  by (induction rule: visits_visits_all.inducts) (auto simp: token_at_def)

lemma visits_length: "visits lang source trees children t a b \<Longrightarrow> t < length trees"
  by (erule visits.cases) auto

text \<open>Trees and children are only added, precedences and the shapes of inherited cells aside.\<close>

definition same_tree :: "TFSpecTree \<Rightarrow> TFSpecTree \<Rightarrow> bool" where
  "same_tree t u \<longleftrightarrow> tr_token u = tr_token t \<and> tr_leaf u = tr_leaf t \<and> tr_extra u = tr_extra t \<and>
     tr_inherited u = tr_inherited t \<and>
     (\<not> tr_inherited t \<longrightarrow> tr_first_child u = tr_first_child t \<and> tr_child_count u = tr_child_count t \<and>
        tr_structural_count u = tr_structural_count t \<and> tr_production_id u = tr_production_id t)"

definition forest_grows :: "TFSpecTree list \<Rightarrow> nat list \<Rightarrow> TFSpecTree list \<Rightarrow> nat list \<Rightarrow> bool" where
  "forest_grows trees children trees' children' \<longleftrightarrow>
     length trees \<le> length trees' \<and> (\<forall>t < length trees. same_tree (trees ! t) (trees' ! t)) \<and>
     (\<exists>more. children' = children @ more)"

lemma same_tree_refl [simp]: "same_tree t t"
  by (simp add: same_tree_def)

lemma same_tree_trans: "same_tree t u \<Longrightarrow> same_tree u v \<Longrightarrow> same_tree t v"
  by (auto simp: same_tree_def)

lemma forest_grows_refl [simp]: "forest_grows trees children trees children"
  by (simp add: forest_grows_def)

lemma forest_grows_trans:
  "forest_grows us cs us' cs' \<Longrightarrow> forest_grows us' cs' us'' cs'' \<Longrightarrow> forest_grows us cs us'' cs''"
  unfolding forest_grows_def by (auto intro: same_tree_trans dest: less_le_trans)

lemma visits_grows:
  assumes "forest_grows trees children trees' children'"
  shows "visits lang source trees children t a b \<Longrightarrow> visits lang source trees' children' t a b"
    and "visits_all lang source trees children us a b \<Longrightarrow> visits_all lang source trees' children' us a b"
proof (induction rule: visits_visits_all.inducts)
  case (visits_inherited t a)
  then show ?case
    using assms by (intro visits_visits_all.visits_inherited) (auto simp: forest_grows_def same_tree_def)
next
  case (visits_leaf t a)
  then have "tr_token (trees' ! t) = tr_token (trees ! t)"
    using assms by (simp add: forest_grows_def same_tree_def)
  moreover have "visits lang source trees' children' t a (tok_end_byte (tr_token (trees' ! t)))"
    using visits_leaf assms
    by (intro visits_visits_all.visits_leaf) (auto simp: forest_grows_def same_tree_def)
  ultimately show ?case by simp
next
  case (visits_parent t a b)
  have same: "same_tree (trees ! t) (trees' ! t)" "t < length trees'"
    using visits_parent(1) assms by (auto simp: forest_grows_def)
  obtain more where more: "children' = children @ more"
    using assms by (auto simp: forest_grows_def)
  have kids: "kids_of children' (trees' ! t) = kids_of children (trees ! t)"
    using same visits_parent(2,6) by (simp add: kids_of_def same_tree_def more)
  show ?case
    using visits_parent same
    by (intro visits_visits_all.visits_parent) (auto simp: same_tree_def kids [unfolded more] more)
qed auto

section \<open>The links\<close>

text \<open>Each node has a run of link slots of its own.\<close>

abbreviation run_of :: "TFSpecNode \<Rightarrow> nat set" where
  "run_of n \<equiv> {sn_first_link n ..< sn_first_link n + sn_link_capacity n}"

definition arena_ok :: "TFSpec \<Rightarrow> bool" where
  "arena_ok s \<longleftrightarrow>
     (\<forall>i < length (sp_nodes s). sn_link_count (sp_nodes s ! i) \<le> sn_link_capacity (sp_nodes s ! i) \<and>
        sn_link_capacity (sp_nodes s ! i) \<le> TF_SPEC_LINKS \<and> run_of (sp_nodes s ! i) \<subseteq> {..< length (sp_links s)}) \<and>
     (\<forall>i < length (sp_nodes s). \<forall>j < length (sp_nodes s). i \<noteq> j \<longrightarrow>
        run_of (sp_nodes s ! i) \<inter> run_of (sp_nodes s ! j) = {})"

lemma arena_run:
  assumes "arena_ok s" and "i < length (sp_nodes s)"
  shows "sn_link_count (sp_nodes s ! i) \<le> sn_link_capacity (sp_nodes s ! i)"
    and "run_of (sp_nodes s ! i) \<subseteq> {..< length (sp_links s)}"
    and "sn_link_capacity (sp_nodes s ! i) \<le> TF_SPEC_LINKS"
  using assms by (simp_all add: arena_ok_def)

lemma arena_count:
  assumes "arena_ok s" and "i < length (sp_nodes s)"
  shows "sn_first_link (sp_nodes s ! i) + sn_link_count (sp_nodes s ! i) \<le> length (sp_links s) \<or>
    sn_link_count (sp_nodes s ! i) = 0"
proof (cases "sn_link_capacity (sp_nodes s ! i) = 0")
  case False
  have "sn_first_link (sp_nodes s ! i) + sn_link_capacity (sp_nodes s ! i) - 1 \<in> run_of (sp_nodes s ! i)"
    using False by simp
  then have "sn_first_link (sp_nodes s ! i) + sn_link_capacity (sp_nodes s ! i) - 1 < length (sp_links s)"
    using arena_run(2) [OF assms] by blast
  then show ?thesis using arena_run(1) [OF assms] False by linarith
qed (use arena_run(1) [OF assms] in simp)

lemma length_node_links:
  assumes "arena_ok s" and "i < length (sp_nodes s)"
  shows "length (node_links s i) = sn_link_count (sp_nodes s ! i)"
  using arena_count [OF assms] by (auto simp: node_links_def)

lemma nth_node_links:
  "j < length (node_links s i) \<Longrightarrow> node_links s i ! j = sp_links s ! (sn_first_link (sp_nodes s ! i) + j)"
  by (auto simp: node_links_def intro: nth_drop)

lemma links_in_run:
  assumes "arena_ok s" and "i < length (sp_nodes s)" and "j < length (node_links s i)"
  shows "sn_first_link (sp_nodes s ! i) + j \<in> run_of (sp_nodes s ! i)"
  using assms length_node_links [OF assms(1,2)] arena_run(1) [OF assms(1,2)] by simp

text \<open>Links of a node that keeps its run, where the slots of the run keep their contents.\<close>

lemma node_links_same:
  assumes "arena_ok s" and "i < length (sp_nodes s)"
    and "sn_first_link (sp_nodes s' ! i) = sn_first_link (sp_nodes s ! i)"
    and "sn_link_count (sp_nodes s' ! i) = sn_link_count (sp_nodes s ! i)"
    and "length (sp_links s) \<le> length (sp_links s')"
    and "\<And>k. k \<in> run_of (sp_nodes s ! i) \<Longrightarrow> sp_links s' ! k = sp_links s ! k"
  shows "node_links s' i = node_links s i"
proof (rule nth_equalityI)
  show len: "length (node_links s' i) = length (node_links s i)"
    using arena_count [OF assms(1,2)] assms(3-5) by (auto simp: node_links_def)
  fix j assume "j < length (node_links s' i)"
  then show "node_links s' i ! j = node_links s i ! j"
    using len links_in_run [OF assms(1,2)] assms(3,6) by (simp add: nth_node_links)
qed

section \<open>The invariant\<close>

definition accepting :: "TFLanguage \<Rightarrow> TSStateId \<Rightarrow> bool" where
  "accepting lang q \<longleftrightarrow> Accept \<in> set (tf_actions lang q 0)"

text \<open>Positions below the fork, which the real stack covers, count as the fork.\<close>

definition fork_end :: "TFSpec \<Rightarrow> u32" where
  "fork_end s = fst (cell_end (ps_nodes (sp_owner s)) (ps_depth (sp_owner s)))"

abbreviation from_fork :: "TFSpec \<Rightarrow> nat \<Rightarrow> u32" where
  "from_fork s n \<equiv> max (fork_end s) (sn_byte (sp_nodes s ! n))"

definition owner_ok :: "TFLanguage \<Rightarrow> u8 list \<Rightarrow> ('p, 'v, 's) TFParser \<Rightarrow> bool" where
  "owner_ok lang source p \<longleftrightarrow> length (ps_states p) = Suc (ps_depth p) \<and>
     list_all (\<lambda>q. is_state lang q \<and> \<not> accepting lang q) (ps_states p) \<and> spans_from source 0 (ps_nodes p)"

definition node_ok :: "TFLanguage \<Rightarrow> u8 list \<Rightarrow> TFSpecNode \<Rightarrow> bool" where
  "node_ok lang source n \<longleftrightarrow> is_state lang (sn_state n) \<and> unat (sn_byte n) \<le> length source \<and>
     sn_point n = point_at source (unat (sn_byte n))"

text \<open>
  A link into node \<open>n\<close>. No state of the real stack accepts the end of the input, and no shift goes
  to one that does; so in a stack that ends in an accepting state, the tree under the extras is
  the parent of a reduction. \<open>E\<close> holds
  the nodes above an accepted end token, which nothing else is built on.
\<close>

definition link_ok :: "TFLanguage \<Rightarrow> u8 list \<Rightarrow> nat set \<Rightarrow> TFSpec \<Rightarrow> nat \<Rightarrow> TFSpecLink \<Rightarrow> bool" where
  "link_ok lang source E s n l \<longleftrightarrow>
     (let node = sp_nodes s ! n; t = sp_trees s ! lk_tree l
      in lk_node l < length (sp_nodes s) \<and> lk_node l \<notin> E \<and>
         tok_end_byte (tr_token t) = sn_byte node \<and> tok_end_point (tr_token t) = sn_point node \<and>
         visits lang source (sp_trees s) (sp_children s) (lk_tree l) (from_fork s (lk_node l)) (from_fork s n) \<and>
         (accepting lang (sn_state node) \<longrightarrow>
            (if tr_extra t then sn_state (sp_nodes s ! lk_node l) = sn_state node else \<not> tr_inherited t \<and> \<not> tr_leaf t)))"

definition frontier_ok :: "nat set \<Rightarrow> TFSpec \<Rightarrow> bool" where
  "frontier_ok E s \<longleftrightarrow>
     (let p = sp_owner s; n = sp_nodes s ! sp_frontier s
      in sp_frontier s < length (sp_nodes s) \<and> sp_frontier s \<notin> E \<and> sp_prefix_left s \<le> ps_depth p \<and>
         sn_state n = ps_states p ! sp_prefix_left s \<and>
         (sn_byte n, sn_point n) = cell_end (ps_nodes p) (sp_prefix_left s) \<and>
         list_all (\<lambda>t. t < length (sp_trees s) \<and> tr_inherited (sp_trees s ! t)) (sp_prefix_tree s))"

definition spec_inv :: "TFLanguage \<Rightarrow> u8 list \<Rightarrow> nat set \<Rightarrow> TFSpec \<Rightarrow> bool" where
  "spec_inv lang source E s \<longleftrightarrow>
     owner_ok lang source (sp_owner s) \<and> arena_ok s \<and> frontier_ok E s \<and> E \<subseteq> {..< length (sp_nodes s)} \<and>
     (\<forall>n < length (sp_nodes s). node_ok lang source (sp_nodes s ! n) \<and>
        (sn_link_count (sp_nodes s ! n) = 0 \<longrightarrow> n = sp_frontier s) \<and>
        (n \<notin> E \<longrightarrow> (\<forall>l \<in> set (node_links s n). link_ok lang source E s n l)))"

text \<open>The graph only grows, links aside.\<close>

definition graph_grows :: "TFSpec \<Rightarrow> TFSpec \<Rightarrow> bool" where
  "graph_grows s s' \<longleftrightarrow> sp_owner s' = sp_owner s \<and>
     forest_grows (sp_trees s) (sp_children s) (sp_trees s') (sp_children s') \<and>
     length (sp_nodes s) \<le> length (sp_nodes s') \<and>
     (\<forall>n < length (sp_nodes s). sn_state (sp_nodes s' ! n) = sn_state (sp_nodes s ! n) \<and>
        sn_byte (sp_nodes s' ! n) = sn_byte (sp_nodes s ! n) \<and> sn_point (sp_nodes s' ! n) = sn_point (sp_nodes s ! n))"

lemma graph_grows_refl [simp]: "graph_grows s s"
  by (simp add: graph_grows_def)

lemma graph_grows_trans: "graph_grows s t \<Longrightarrow> graph_grows t u \<Longrightarrow> graph_grows s u"
  unfolding graph_grows_def by (auto intro: forest_grows_trans)

lemma fork_end_grows: "graph_grows s s' \<Longrightarrow> fork_end s' = fork_end s"
  by (simp add: graph_grows_def fork_end_def)

lemma node_grows:
  assumes "graph_grows s s'" and "n < length (sp_nodes s)"
  shows "n < length (sp_nodes s')" and "sn_state (sp_nodes s' ! n) = sn_state (sp_nodes s ! n)"
    and "sn_byte (sp_nodes s' ! n) = sn_byte (sp_nodes s ! n)" and "sn_point (sp_nodes s' ! n) = sn_point (sp_nodes s ! n)"
  using assms by (auto simp: graph_grows_def)

lemma tree_grows:
  assumes "graph_grows s s'" and "t < length (sp_trees s)"
  shows "t < length (sp_trees s')" and "same_tree (sp_trees s ! t) (sp_trees s' ! t)"
  using assms by (auto simp: graph_grows_def forest_grows_def)

lemma link_ok_length: "link_ok lang source E s n l \<Longrightarrow> lk_node l < length (sp_nodes s) \<and> lk_tree l < length (sp_trees s)"
  by (auto simp: link_ok_def Let_def dest: visits_length)

lemma link_ok_grows:
  assumes "graph_grows s s'" and "n < length (sp_nodes s)" and "link_ok lang source E s n l"
  shows "link_ok lang source E s' n l"
proof -
  note len = link_ok_length [OF assms(3)]
  have "forest_grows (sp_trees s) (sp_children s) (sp_trees s') (sp_children s')"
    using assms(1) by (simp add: graph_grows_def)
  from visits_grows(1) [OF this] show ?thesis
    using assms len tree_grows(2) [OF assms(1), of "lk_tree l"]
    by (auto simp: link_ok_def Let_def node_grows [OF assms(1)] fork_end_grows [OF assms(1)] same_tree_def)
qed

lemma node_ok_grows:
  assumes "graph_grows s s'" and "n < length (sp_nodes s)" and "node_ok lang source (sp_nodes s ! n)"
  shows "node_ok lang source (sp_nodes s' ! n)"
  using assms by (simp add: node_ok_def node_grows)

lemma spec_inv_node:
  assumes "spec_inv lang source E s" and "n < length (sp_nodes s)"
  shows "node_ok lang source (sp_nodes s ! n)"
    and "sn_link_count (sp_nodes s ! n) = 0 \<Longrightarrow> n = sp_frontier s"
    and "n \<notin> E \<Longrightarrow> l \<in> set (node_links s n) \<Longrightarrow> link_ok lang source E s n l"
  using assms by (auto simp: spec_inv_def)

text \<open>What the invariant does not read.\<close>

lemma spec_inv_other [simp]:
  "spec_inv lang source E (s\<lparr>sp_capacity := c\<rparr>) = spec_inv lang source E s"
  "spec_inv lang source E (s\<lparr>sp_heads := h\<rparr>) = spec_inv lang source E s"
  "spec_inv lang source E (s\<lparr>sp_edges := e\<rparr>) = spec_inv lang source E s"
  "spec_inv lang source E (s\<lparr>sp_slices := v\<rparr>) = spec_inv lang source E s"
  "spec_inv lang source E (s\<lparr>sp_finished := f\<rparr>) = spec_inv lang source E s"
  "graph_grows s (s\<lparr>sp_capacity := c\<rparr>)" "graph_grows s (s\<lparr>sp_heads := h\<rparr>)" "graph_grows s (s\<lparr>sp_edges := e\<rparr>)"
  "graph_grows s (s\<lparr>sp_slices := v\<rparr>)" "graph_grows s (s\<lparr>sp_finished := f\<rparr>)"
  by (simp_all add: spec_inv_def arena_ok_def frontier_ok_def link_ok_def node_links_def fork_end_def graph_grows_def
      cong: conj_cong)

section \<open>Growing\<close>

lemma reserve_bound:
  assumes "next < 2 ^ 32" and "0 < next"
  shows "while (\<lambda>next. next < needed \<and> \<not> next > unat UINT32_MAX div 2) (\<lambda>next. next * 2) next < (2 ^ 32 :: nat)"
  by (rule while_rule [where P = "\<lambda>n. n < 2 ^ 32 \<and> 0 < n" and r = "measure (\<lambda>n. 2 ^ 32 - n)"]) (use assms in auto)

text \<open>A reservation succeeds or fails for good; the number it is for is that of a 32-bit count.\<close>

lemma reserve_cases:
  assumes "tf_spec_reserve mem site needed s = (s', ok)"
  obtains (reserved) c where "ok" and "\<not> sp_failed s" and "needed < 2 ^ 32" and "s' = s\<lparr>sp_capacity := c\<rparr>"
    | (refused) "\<not> ok" and "s' = s\<lparr>sp_failed := True\<rparr>"
proof -
  have cap: "unat (sp_capacity s site) < 2 ^ 32"
    using unsigned_less [of "sp_capacity s site"] by simp
  define n where "n = while (\<lambda>next. next < needed \<and> \<not> next > unat UINT32_MAX div 2) (\<lambda>next. next * 2)
       (if sp_capacity s site \<noteq> 0 then unat (sp_capacity s site) else 64)"
  have bound: "n < 2 ^ 32"
    unfolding n_def by (rule reserve_bound) (use cap in \<open>simp_all add: unat_gt_0\<close>)
  have refused: ?thesis if "s' = s\<lparr>sp_failed := True\<rparr>" "\<not> ok" using refused that by blast
  show ?thesis
  proof (cases "sp_failed s")
    case True
    then show ?thesis using assms refused by (simp add: tf_spec_reserve_def)
  next
    case False
    show ?thesis
    proof (cases "needed \<le> unat (sp_capacity s site)")
      case True
      then have "ok" "s' = s\<lparr>sp_capacity := sp_capacity s\<rparr>"
        using assms False by (simp_all add: tf_spec_reserve_def)
      moreover have "needed < 2 ^ 32" using True cap by (rule le_less_trans)
      ultimately show ?thesis using reserved False by blast
    next
      case False
      then have eq: "(if n < needed then (s\<lparr>sp_failed := True\<rparr>, False)
          else if \<not> mem site n then (s\<lparr>sp_failed := True\<rparr>, False)
          else (s\<lparr>sp_capacity := (sp_capacity s)(site := of_nat n)\<rparr>, True)) = (s', ok)"
        using assms unfolding tf_spec_reserve_def Let_def n_def by (simp only: False \<open>\<not> sp_failed s\<close> if_False)
      show ?thesis
      proof (cases "n < needed \<or> \<not> mem site n")
        case True
        then have "(s\<lparr>sp_failed := True\<rparr>, False) = (s', ok)" using eq by (simp split: if_splits)
        then show ?thesis using refused by simp
      next
        case False
        then show ?thesis
          using eq bound reserved [of "(sp_capacity s)(site := of_nat n)"] \<open>\<not> sp_failed s\<close> by simp
      qed
    qed
  qed
qed

lemma reserve_True:
  assumes "tf_spec_reserve mem site needed s = (s', True)"
  obtains c where "\<not> sp_failed s" and "needed < 2 ^ 32" and "s' = s\<lparr>sp_capacity := c\<rparr>"
  using assms
proof (cases rule: reserve_cases)
  case (reserved c)
  then show ?thesis using that by blast
qed simp

lemma reserve_failed:
  assumes "tf_spec_reserve mem site needed s = (s', ok)"
  shows "sp_failed s' \<longleftrightarrow> \<not> ok" and "\<not> sp_failed s' \<Longrightarrow> \<not> sp_failed s"
  using assms by (cases rule: reserve_cases; simp)+

text \<open>New nodes and links.\<close>

lemma tree_Ok:
  assumes "tf_spec_tree mem tree s = (s', t)" and "\<not> sp_failed s'"
  obtains c where "\<not> sp_failed s" and "t = length (sp_trees s)" and "t < TF_SPEC_NONE"
    and "s' = s\<lparr>sp_trees := sp_trees s @ [tree], sp_capacity := c\<rparr>"
proof -
  obtain s1 ok where r: "tf_spec_reserve mem A_spec_trees (length (sp_trees s) + 1) s = (s1, ok)" by fastforce
  then have "ok" using assms reserve_failed(1) [OF r]
    by (auto simp: tf_spec_tree_def split: if_splits)
  with r show ?thesis
  proof (cases rule: reserve_cases)
    case (reserved c)
    then show ?thesis using assms r that [of c] by (auto simp: tf_spec_tree_def TF_SPEC_NONE_def split: if_splits)
  qed simp
qed

lemma head_Ok:
  assumes "tf_spec_head mem node s = (s', v)" and "\<not> sp_failed s'"
  obtains c where "\<not> sp_failed s" and "v = length (sp_heads s)" and "v < TF_SPEC_NONE"
    and "s' = s\<lparr>sp_heads := sp_heads s @ [\<lparr>hd_node = node, hd_halted = False, hd_errored = False\<rparr>], sp_capacity := c\<rparr>"
proof -
  obtain s1 ok where r: "tf_spec_reserve mem A_spec_heads (length (sp_heads s) + 1) s = (s1, ok)" by fastforce
  then have "ok" using assms reserve_failed(1) [OF r]
    by (auto simp: tf_spec_head_def split: if_splits)
  with r show ?thesis
  proof (cases rule: reserve_cases)
    case (reserved c)
    then show ?thesis using assms r that [of c] by (auto simp: tf_spec_head_def TF_SPEC_NONE_def)
  qed simp
qed

lemma links_Ok:
  assumes "tf_spec_links mem count s = (s', at)" and "\<not> sp_failed s'"
  obtains c where "\<not> sp_failed s" and "at = length (sp_links s)"
    and "s' = s\<lparr>sp_links := sp_links s @ replicate count \<lparr>lk_node = 0, lk_tree = 0\<rparr>, sp_capacity := c\<rparr>"
proof -
  obtain s1 ok where r: "tf_spec_reserve mem A_spec_links (length (sp_links s) + count) s = (s1, ok)" by fastforce
  then have "ok" using assms reserve_failed(1) [OF r]
    by (auto simp: tf_spec_links_def split: if_splits)
  with r show ?thesis
  proof (cases rule: reserve_cases)
    case (reserved c)
    then show ?thesis using assms r that [of c] by (auto simp: tf_spec_links_def)
  qed simp
qed

lemma push_Ok:
  assumes "tf_spec_push mem previous tree state s = (s', n)" and "\<not> sp_failed s'"
  obtains c where "\<not> sp_failed s" and "n = length (sp_nodes s)"
    and "s' = s\<lparr>sp_links := sp_links s @ [\<lparr>lk_node = previous, lk_tree = tree\<rparr>],
      sp_nodes := sp_nodes s @ [\<lparr>sn_state = state, sn_byte = tok_end_byte (tr_token (sp_trees s ! tree)),
        sn_point = tok_end_point (tr_token (sp_trees s ! tree)),
        sn_precedence = sn_precedence (sp_nodes s ! previous) + tr_precedence (sp_trees s ! tree),
        sn_first_link = length (sp_links s), sn_link_count = 1, sn_link_capacity = 1\<rparr>], sp_capacity := c\<rparr>"
proof -
  obtain s1 ok where r: "tf_spec_reserve mem A_spec_nodes (length (sp_nodes s) + 1) s = (s1, ok)" by fastforce
  then have "ok" using assms reserve_failed(1) [OF r]
    by (auto simp: tf_spec_push_def split: if_splits)
  with r have "tf_spec_reserve mem A_spec_nodes (length (sp_nodes s) + 1) s = (s1, True)" by simp
  then obtain c where c: "\<not> sp_failed s" "s1 = s\<lparr>sp_capacity := c\<rparr>" by (rule reserve_True)
  obtain s2 at where l: "tf_spec_links mem 1 s1 = (s2, at)" by fastforce
  have "\<not> sp_failed s2"
    using assms r l \<open>ok\<close> by (auto simp: tf_spec_push_def split: if_splits)
  with l obtain d where "at = length (sp_links s1)"
    "s2 = s1\<lparr>sp_links := sp_links s1 @ replicate 1 \<lparr>lk_node = 0, lk_tree = 0\<rparr>, sp_capacity := d\<rparr>"
    by (rule links_Ok)
  then show ?thesis
    using assms r l c \<open>ok\<close> that [of d] by (auto simp: tf_spec_push_def Let_def)
qed

section \<open>What keeps the invariant\<close>

text \<open>One node takes a run of new slots; the other new nodes have none.\<close>

lemma arena_fresh:
  assumes "arena_ok s" and "length (sp_links s) \<le> length (sp_links s')"
    and old: "\<And>i. i < length (sp_nodes s') \<Longrightarrow> i \<noteq> k \<Longrightarrow>
      i < length (sp_nodes s) \<and> run_of (sp_nodes s' ! i) = run_of (sp_nodes s ! i) \<and>
        sn_link_count (sp_nodes s' ! i) \<le> sn_link_capacity (sp_nodes s' ! i) \<or>
      sn_link_capacity (sp_nodes s' ! i) = 0 \<and> sn_link_count (sp_nodes s' ! i) = 0"
    and new: "run_of (sp_nodes s' ! k) \<subseteq> {length (sp_links s) ..< length (sp_links s')}"
      "sn_link_count (sp_nodes s' ! k) \<le> sn_link_capacity (sp_nodes s' ! k)"
    and bound: "\<And>i. i < length (sp_nodes s') \<Longrightarrow> sn_link_capacity (sp_nodes s' ! i) \<le> TF_SPEC_LINKS"
  shows "arena_ok s'"
proof -
  have run: "run_of (sp_nodes s' ! i) \<subseteq> {..< length (sp_links s)}" if "i < length (sp_nodes s')" "i \<noteq> k" for i
    using old [OF that] arena_run(2) [OF assms(1), of i] by auto
  have "run_of (sp_nodes s' ! i) \<inter> run_of (sp_nodes s' ! j) = {}"
    if "i < length (sp_nodes s')" "j < length (sp_nodes s')" "i \<noteq> j" for i j
  proof -
    have "run_of (sp_nodes s' ! i) = {}" if "i < length (sp_nodes s')" "i \<noteq> k" "sn_link_capacity (sp_nodes s' ! i) = 0" for i
      using that by simp
    moreover have "run_of (sp_nodes s ! i) \<inter> run_of (sp_nodes s ! j) = {}"
      if "i < length (sp_nodes s)" "j < length (sp_nodes s)"
      using that \<open>i \<noteq> j\<close> assms(1) by (auto simp: arena_ok_def)
    moreover have "run_of (sp_nodes s' ! k) \<inter> run_of (sp_nodes s' ! l) = {}" if "l < length (sp_nodes s')" "l \<noteq> k" for l
      using run [OF that] new(1) by (fastforce simp: subset_iff)
    ultimately show ?thesis
      using old [OF that(1)] old [OF that(2)] that by (metis inf_commute inf_bot_left)
  qed
  moreover have "sn_link_count (sp_nodes s' ! i) \<le> sn_link_capacity (sp_nodes s' ! i) \<and>
      run_of (sp_nodes s' ! i) \<subseteq> {..< length (sp_links s')}" if "i < length (sp_nodes s')" for i
  proof (cases "i = k")
    case True
    then show ?thesis using new by (auto simp: subset_iff)
  next
    case False
    then have "run_of (sp_nodes s' ! i) \<subseteq> {..< length (sp_links s')}"
      using run [OF that False] assms(2) by (auto simp: subset_iff dest: less_le_trans)
    then show ?thesis using old [OF that False] by auto
  qed
  ultimately show ?thesis using bound by (simp add: arena_ok_def)
qed

text \<open>Changes to the trees, the children and what the invariant does not read.\<close>

lemma spec_inv_forest:
  assumes "spec_inv lang source E s" and "graph_grows s s'" and "sp_nodes s' = sp_nodes s"
    and "sp_links s' = sp_links s" and "sp_frontier s' = sp_frontier s" and "sp_prefix_left s' = sp_prefix_left s"
    and "sp_prefix_tree s' = sp_prefix_tree s"
  shows "spec_inv lang source E s'"
proof -
  have owner: "sp_owner s' = sp_owner s" using assms(2) by (simp add: graph_grows_def)
  have links: "node_links s' n = node_links s n" for n using assms(3,4) by (simp add: node_links_def)
  have "arena_ok s'" using assms(1,3,4) by (simp add: spec_inv_def arena_ok_def)
  moreover have "frontier_ok E s'"
    using assms tree_grows [OF assms(2)] owner
    by (auto simp: spec_inv_def frontier_ok_def Let_def list_all_iff same_tree_def)
  moreover have "link_ok lang source E s' n l" if "n < length (sp_nodes s)" "n \<notin> E" "l \<in> set (node_links s n)" for n l
    using link_ok_grows [OF assms(2) that(1)] spec_inv_node(3) [OF assms(1) that] by blast
  ultimately show ?thesis
    using assms(1,3,5) owner links by (simp add: spec_inv_def)
qed

lemma forest_grows_append: "forest_grows us cs (us @ vs) (cs @ ds)"
  by (simp add: forest_grows_def nth_append)

lemma spec_inv_tree:
  assumes "tf_spec_tree mem tree s = (s', t)" and "\<not> sp_failed s'" and "spec_inv lang source E s"
  shows "spec_inv lang source E s'" and "graph_grows s s'" and "\<not> sp_failed s"
proof -
  obtain c where s': "s' = s\<lparr>sp_trees := sp_trees s @ [tree], sp_capacity := c\<rparr>" and "\<not> sp_failed s"
    using assms(1,2) by (rule tree_Ok) blast
  then show "graph_grows s s'" "\<not> sp_failed s"
    using forest_grows_append [of "sp_trees s" "sp_children s" "[tree]" "[]"] by (simp_all add: graph_grows_def)
  from spec_inv_forest [OF assms(3) this(1)] show "spec_inv lang source E s'"
    by (simp add: s')
qed

text \<open>Changes to one node's links that leave every node where it is.\<close>

lemma spec_inv_links:
  assumes inv: "spec_inv lang source E s" and arena: "arena_ok s'" and grows: "graph_grows s s'"
    and len: "length (sp_nodes s') = length (sp_nodes s)"
    and same: "sp_trees s' = sp_trees s" "sp_children s' = sp_children s" "sp_frontier s' = sp_frontier s"
      "sp_prefix_left s' = sp_prefix_left s" "sp_prefix_tree s' = sp_prefix_tree s"
    and links: "\<And>n l. n < length (sp_nodes s) \<Longrightarrow> n \<notin> E \<Longrightarrow> l \<in> set (node_links s' n) \<Longrightarrow>
      l \<in> set (node_links s n) \<or> link_ok lang source E s n l"
    and count: "\<And>n. n < length (sp_nodes s) \<Longrightarrow> sn_link_count (sp_nodes s' ! n) = 0 \<Longrightarrow> sn_link_count (sp_nodes s ! n) = 0"
  shows "spec_inv lang source E s'"
proof -
  have owner: "sp_owner s' = sp_owner s" using grows by (simp add: graph_grows_def)
  have "frontier_ok E s'"
    using inv same owner len node_grows [OF grows, of "sp_frontier s"]
    by (auto simp: spec_inv_def frontier_ok_def Let_def)
  moreover have "link_ok lang source E s' n l" if "n < length (sp_nodes s)" "n \<notin> E" "l \<in> set (node_links s' n)" for n l
    using links [OF that] spec_inv_node(3) [OF inv that(1,2)] link_ok_grows [OF grows that(1)] by blast
  moreover have "node_ok lang source (sp_nodes s' ! n)" if "n < length (sp_nodes s)" for n
    using node_ok_grows [OF grows that] spec_inv_node(1) [OF inv that] by blast
  ultimately show ?thesis
    using inv owner arena len same count by (simp add: spec_inv_def)
qed

end
