(* ===== verification/Spec_Prefix.thy ===== *)
theory Spec_Prefix
  imports Spec_Graph
begin

text \<open>
  Pushing a tree on a stack of the graph, and unrolling the next cell of the real stack where
  the graph reaches into it: both keep the invariant.
\<close>

section \<open>Pushing\<close>

lemma node_links_push:
  assumes "arena_ok s" and "sp_nodes s' = sp_nodes s @ [node]" and "sp_links s' = sp_links s @ [l]"
    and "sn_first_link node = length (sp_links s)" and "sn_link_count node = 1" and "sn_link_capacity node = 1"
  shows "node_links s' (length (sp_nodes s)) = [l]"
    and "\<And>i. i < length (sp_nodes s) \<Longrightarrow> node_links s' i = node_links s i"
    and "arena_ok s'"
proof -
  show "node_links s' (length (sp_nodes s)) = [l]"
    using assms by (simp add: node_links_def)
  show "node_links s' i = node_links s i" if "i < length (sp_nodes s)" for i
    using assms(2,3) that arena_run(2) [OF assms(1) that]
    by (intro node_links_same [OF assms(1) that]) (auto simp: nth_append subset_iff)
  show "arena_ok s'"
  proof (rule arena_fresh [OF assms(1), where k = "length (sp_nodes s)"])
    fix i assume "i < length (sp_nodes s')" and "i \<noteq> length (sp_nodes s)"
    then show "i < length (sp_nodes s) \<and> run_of (sp_nodes s' ! i) = run_of (sp_nodes s ! i) \<and>
        sn_link_count (sp_nodes s' ! i) \<le> sn_link_capacity (sp_nodes s' ! i) \<or>
      sn_link_capacity (sp_nodes s' ! i) = 0 \<and> sn_link_count (sp_nodes s' ! i) = 0"
      using assms(2) arena_run(1) [OF assms(1), of i] by (simp add: nth_append)
  next
    fix i assume "i < length (sp_nodes s')"
    then show "sn_link_capacity (sp_nodes s' ! i) \<le> TF_SPEC_LINKS"
      using assms(2,6) arena_run(3) [OF assms(1), of i] by (auto simp: nth_append TF_SPEC_LINKS_def)
  qed (use assms in simp_all)
qed

text \<open>
  Pushing \<open>tree\<close>. Where the new node is one of those nothing is built on (\<open>E'\<close>), its link is
  not looked at.
\<close>

lemma push_inv:
  assumes push: "tf_spec_push mem previous tree state s = (s', n)" "\<not> sp_failed s'"
    and inv: "spec_inv lang source E s" and prev: "previous < length (sp_nodes s)" "previous \<notin> E"
    and E': "E' = E \<or> E' = insert (length (sp_nodes s)) E"
    and node: "is_state lang state" "unat (tok_end_byte (tr_token (sp_trees s ! tree))) \<le> length source"
      "tok_end_point (tr_token (sp_trees s ! tree)) = point_at source (unat (tok_end_byte (tr_token (sp_trees s ! tree))))"
    and tree: "E' = E \<Longrightarrow> visits lang source (sp_trees s) (sp_children s) tree (from_fork s previous)
        (max (fork_end s) (tok_end_byte (tr_token (sp_trees s ! tree))))"
      "E' = E \<Longrightarrow> accepting lang state \<Longrightarrow> (if tr_extra (sp_trees s ! tree) then sn_state (sp_nodes s ! previous) = state
        else \<not> tr_inherited (sp_trees s ! tree) \<and> \<not> tr_leaf (sp_trees s ! tree))"
  shows "spec_inv lang source E' s'" and "graph_grows s s'" and "\<not> sp_failed s"
    and "n = length (sp_nodes s)" and "n < length (sp_nodes s')"
    and "sn_state (sp_nodes s' ! n) = state" and "sn_byte (sp_nodes s' ! n) = tok_end_byte (tr_token (sp_trees s ! tree))"
    and "node_links s' n = [\<lparr>lk_node = previous, lk_tree = tree\<rparr>]"
    and "sp_trees s' = sp_trees s" and "sp_children s' = sp_children s" and "sp_heads s' = sp_heads s"
    and "E' = E \<Longrightarrow> n \<notin> E"
proof -
  define node where "node = \<lparr>sn_state = state, sn_byte = tok_end_byte (tr_token (sp_trees s ! tree)),
        sn_point = tok_end_point (tr_token (sp_trees s ! tree)),
        sn_precedence = sn_precedence (sp_nodes s ! previous) + tr_precedence (sp_trees s ! tree),
        sn_first_link = length (sp_links s), sn_link_count = 1, sn_link_capacity = 1\<rparr>"
  obtain c where n: "n = length (sp_nodes s)" "\<not> sp_failed s"
    and s': "s' = s\<lparr>sp_links := sp_links s @ [\<lparr>lk_node = previous, lk_tree = tree\<rparr>],
      sp_nodes := sp_nodes s @ [node], sp_capacity := c\<rparr>"
    using push_Ok [OF push] unfolding node_def by metis
  have arena: "arena_ok s" using inv by (simp add: spec_inv_def)
  note links = node_links_push [OF arena, of s' node "\<lparr>lk_node = previous, lk_tree = tree\<rparr>"]
  have sel: "sp_nodes s' = sp_nodes s @ [node]" "sp_links s' = sp_links s @ [\<lparr>lk_node = previous, lk_tree = tree\<rparr>]"
    "sp_trees s' = sp_trees s" "sp_children s' = sp_children s" "sp_owner s' = sp_owner s" "sp_heads s' = sp_heads s"
    "sp_frontier s' = sp_frontier s" "sp_prefix_left s' = sp_prefix_left s" "sp_prefix_tree s' = sp_prefix_tree s"
    by (simp_all add: s')
  have fields: "sn_first_link node = length (sp_links s)" "sn_link_count node = 1" "sn_link_capacity node = 1"
    "sn_state node = state" "sn_byte node = tok_end_byte (tr_token (sp_trees s ! tree))"
    "sn_point node = tok_end_point (tr_token (sp_trees s ! tree))"
    by (simp_all add: node_def)
  note links = links [OF sel(1,2) fields(1-3)]
  show grows: "graph_grows s s'"
    using sel by (auto simp: graph_grows_def nth_append)
  have fresh: "length (sp_nodes s) \<notin> E" using inv by (auto simp: spec_inv_def)
  show "E' = E \<Longrightarrow> n \<notin> E" using fresh n by simp
  have new: "link_ok lang source E s' (length (sp_nodes s)) \<lparr>lk_node = previous, lk_tree = tree\<rparr>" if "E' = E"
    using tree [OF that] prev sel fields by (simp add: link_ok_def nth_append fork_end_def)
  have "frontier_ok E' s'"
    using inv sel E' by (auto simp: spec_inv_def frontier_ok_def Let_def nth_append)
  moreover have "node_ok lang source (sp_nodes s' ! i)" if "i < length (sp_nodes s')" for i
    using that spec_inv_node(1) [OF inv, of i] node fields sel(1)
    by (auto simp: nth_append node_ok_def less_Suc_eq)
  moreover have "link_ok lang source E' s' i l" if "i < length (sp_nodes s')" "i \<notin> E'" "l \<in> set (node_links s' i)" for i l
  proof (cases "i = length (sp_nodes s)")
    case True
    then have "E' = E" using that(2) E' by auto
    then show ?thesis using that True links(1) new by simp
  next
    case False
    then have i: "i < length (sp_nodes s)" using that(1) sel(1) by simp
    then have "link_ok lang source E s i l"
      using that E' links(2) spec_inv_node(3) [OF inv] by auto
    then have "link_ok lang source E s' i l" by (rule link_ok_grows [OF grows i])
    moreover have "lk_node l < length (sp_nodes s)"
      using link_ok_length \<open>link_ok lang source E s i l\<close> by blast
    ultimately show ?thesis using E' by (auto simp: link_ok_def Let_def)
  qed
  moreover have "sn_link_count (sp_nodes s' ! i) = 0 \<longrightarrow> i = sp_frontier s'" if "i < length (sp_nodes s')" for i
    using that spec_inv_node(2) [OF inv, of i] sel(1,7) fields(2) by (auto simp: nth_append less_Suc_eq)
  ultimately show "spec_inv lang source E' s'"
    using inv links(3) sel E' by (auto simp: spec_inv_def)
  show "\<not> sp_failed s" "n = length (sp_nodes s)" "n < length (sp_nodes s')"
    "sn_state (sp_nodes s' ! n) = state" "sn_byte (sp_nodes s' ! n) = tok_end_byte (tr_token (sp_trees s ! tree))"
    using n sel fields by simp_all
  show "node_links s' n = [\<lparr>lk_node = previous, lk_tree = tree\<rparr>]" using links(1) n by simp
  show "sp_trees s' = sp_trees s" "sp_children s' = sp_children s" "sp_heads s' = sp_heads s" by (simp_all add: sel)
qed

section \<open>Unrolling\<close>

lemma spans_end_le:
  "spans_from source lo nodes \<Longrightarrow> i \<le> length nodes \<Longrightarrow>
     end_from lo (take i nodes) \<le> end_from lo nodes \<and> lo \<le> end_from lo (take i nodes)"
proof (induction nodes arbitrary: lo i)
  case (Cons n nodes)
  have n: "lo \<le> nd_end_byte n" "spans_from source (nd_end_byte n) nodes"
    using Cons.prems(1) by (simp_all add: node_at_def)
  show ?case
  proof (cases i)
    case 0
    then show ?thesis
      using n Cons.IH [OF n(2), of "length nodes"] by (auto simp: end_from_def intro: order_trans)
  next
    case (Suc j)
    then show ?thesis
      using Cons.IH [OF n(2), of j] Cons.prems(2) n(1) by (auto intro: order_trans)
  qed
qed simp

lemma cell_end_from: "i \<le> length nodes \<Longrightarrow> fst (cell_end nodes i) = end_from 0 (take i nodes)"
  by (auto simp: cell_end_def end_from_def last_conv_nth take_eq_Nil)

lemma cell_end_at:
  assumes "spans_from source 0 nodes" and "i \<le> length nodes"
  shows "fst (cell_end nodes i) \<le> fst (cell_end nodes (length nodes))"
    and "unat (fst (cell_end nodes i)) \<le> length source"
    and "snd (cell_end nodes i) = point_at source (unat (fst (cell_end nodes i)))"
proof -
  show "fst (cell_end nodes i) \<le> fst (cell_end nodes (length nodes))"
    using spans_end_le [OF assms] assms(2) by (simp add: cell_end_from)
  have spans: "spans_from source 0 (take i nodes)"
    using assms(1) by (metis append_take_drop_id spans_from_append)
  have "unat (fst (cell_end nodes i)) \<le> length source \<and>
    snd (cell_end nodes i) = point_at source (unat (fst (cell_end nodes i)))"
  proof (cases "i = 0")
    case True
    then show ?thesis by (simp add: cell_end_def)
  next
    case False
    then have ne: "take i nodes \<noteq> []" using assms(2) by auto
    then have "last (take i nodes) = nodes ! (i - 1)"
      using False assms(2) by (simp add: last_conv_nth min_absorb2)
    then show ?thesis
      using spans_from_end [OF spans ne] ne False by (simp add: cell_end_def end_from_def)
  qed
  then show "unat (fst (cell_end nodes i)) \<le> length source"
    "snd (cell_end nodes i) = point_at source (unat (fst (cell_end nodes i)))"
    by simp_all
qed

text \<open>What \<^verbatim>\<open>tf_spec__extend\<close> does when it has the memory.\<close>

definition unrolled :: "TFSpec \<Rightarrow> TFSpec" where
  "unrolled s =
    (let p = sp_owner s; i = sp_prefix_left s - 1; byte = fst (cell_end (ps_nodes p) i);
         point = snd (cell_end (ps_nodes p) i); below = length (sp_nodes s); at = length (sp_links s);
         nodes = sp_nodes s @ [bare_node (ps_states p ! i) byte point]
     in s\<lparr>sp_trees := sp_trees s @ [prefix_cell (ps_nodes p ! i) byte],
          sp_prefix_tree := sp_prefix_tree s @ [length (sp_trees s)],
          sp_links := sp_links s @ [\<lparr>lk_node = below, lk_tree = length (sp_trees s)\<rparr>],
          sp_nodes := nodes[sp_frontier s := (nodes ! sp_frontier s)\<lparr>sn_first_link := at, sn_link_count := 1, sn_link_capacity := 1\<rparr>],
          sp_frontier := below, sp_prefix_left := i\<rparr>)"

lemma extend_Ok:
  assumes "\<not> sp_failed (tf_spec_extend mem s)"
  obtains c where "\<not> sp_failed s"
    and "tf_spec_extend mem s =
      (let s = (unrolled s)\<lparr>sp_capacity := c\<rparr>
       in if sp_materialized s \<and> sp_captured s then tf_spec_resolve (length (sp_prefix_tree s) - 1) s else s)"
proof -
  obtain byte point where cell: "cell_end (ps_nodes (sp_owner s)) (sp_prefix_left s - 1) = (byte, point)" by fastforce
  obtain s1 t where s1: "tf_spec_tree mem (prefix_cell (ps_nodes (sp_owner s) ! (sp_prefix_left s - 1)) byte) s = (s1, t)" by fastforce
  obtain s2 ok where s2: "tf_spec_reserve mem A_spec_prefix_tree (length (sp_prefix_tree s1) + 1) s1 = (s2, ok)" by fastforce
  obtain s3 ok' where s3: "tf_spec_reserve mem A_spec_nodes (length (sp_nodes s2) + 1) s2 = (s3, ok')" by fastforce
  define s4 where "s4 = s3\<lparr>sp_prefix_tree := sp_prefix_tree s3 @ [t]\<rparr>"
  obtain s5 at where s5: "tf_spec_links mem 1 s4 = (s5, at)" by fastforce
  note unf = tf_spec_extend_def Let_def cell s1 s2 s3 s4_def [symmetric] s5 prod.case
  have f1: "\<not> sp_failed s1" using assms unfolding unf by (auto split: if_splits)
  have f2: "ok" using assms f1 reserve_failed(1) [OF s2] unfolding unf by (auto split: if_splits)
  have f3: "ok'" using assms f1 f2 reserve_failed(1) [OF s3] unfolding unf by (auto split: if_splits)
  have f5: "\<not> sp_failed s5" using assms f1 f2 f3 unfolding unf by (auto split: if_splits)
  obtain c1 where t: "t = length (sp_trees s)" "\<not> sp_failed s"
    and e1: "s1 = s\<lparr>sp_trees := sp_trees s @ [prefix_cell (ps_nodes (sp_owner s) ! (sp_prefix_left s - 1)) byte], sp_capacity := c1\<rparr>"
    using tree_Ok [OF s1 f1] by metis
  obtain c2 where e2: "s2 = s1\<lparr>sp_capacity := c2\<rparr>" using s2 f2 by (metis reserve_True)
  obtain c3 where e3: "s3 = s2\<lparr>sp_capacity := c3\<rparr>" using s3 f3 by (metis reserve_True)
  obtain c5 where at: "at = length (sp_links s4)"
    and e5: "s5 = s4\<lparr>sp_links := sp_links s4 @ replicate 1 \<lparr>lk_node = 0, lk_tree = 0\<rparr>, sp_capacity := c5\<rparr>"
    using links_Ok [OF s5 f5] by metis
  let ?i = "sp_prefix_left s - 1"
  let ?below = "length (sp_nodes s5)"
  let ?nodes = "sp_nodes s5 @ [bare_node (ps_states (sp_owner s) ! ?i) byte point]"
  define s6 where "s6 = s5\<lparr>sp_links := (sp_links s5)[at := \<lparr>lk_node = ?below, lk_tree = t\<rparr>],
    sp_nodes := ?nodes[sp_frontier s5 := (?nodes ! sp_frontier s5)
      \<lparr>sn_first_link := at, sn_link_count := 1, sn_link_capacity := 1\<rparr>],
    sp_frontier := ?below, sp_prefix_left := ?i\<rparr>"
  have "s6 = (unrolled s)\<lparr>sp_capacity := c5\<rparr>"
    unfolding s6_def unrolled_def Let_def cell prod.sel
    by (rule TFSpec.equality) (simp_all add: at e5 s4_def e3 e2 e1 t)
  moreover have "tf_spec_extend mem s =
      (if sp_materialized s6 \<and> sp_captured s6 then tf_spec_resolve (length (sp_prefix_tree s6) - 1) s6 else s6)"
    using f1 f2 f3 f5 unfolding unf s6_def by simp
  ultimately have "tf_spec_extend mem s =
      (let s = (unrolled s)\<lparr>sp_capacity := c5\<rparr>
       in if sp_materialized s \<and> sp_captured s then tf_spec_resolve (length (sp_prefix_tree s) - 1) s else s)"
    unfolding Let_def by (simp only:)
  then show ?thesis using that t(2) by blast
qed

lemma unrolled_sel:
  "sp_owner (unrolled s) = sp_owner s" "sp_children (unrolled s) = sp_children s" "sp_heads (unrolled s) = sp_heads s"
  "sp_trees (unrolled s) = sp_trees s @ [prefix_cell (ps_nodes (sp_owner s) ! (sp_prefix_left s - 1))
     (fst (cell_end (ps_nodes (sp_owner s)) (sp_prefix_left s - 1)))]"
  "sp_prefix_tree (unrolled s) = sp_prefix_tree s @ [length (sp_trees s)]"
  "sp_links (unrolled s) = sp_links s @ [\<lparr>lk_node = length (sp_nodes s), lk_tree = length (sp_trees s)\<rparr>]"
  "sp_frontier (unrolled s) = length (sp_nodes s)" "sp_prefix_left (unrolled s) = sp_prefix_left s - 1"
  "length (sp_nodes (unrolled s)) = Suc (length (sp_nodes s))"
  by (simp_all add: unrolled_def Let_def)

lemma unrolled_node:
  assumes "sp_frontier s < length (sp_nodes s)" and "i \<le> length (sp_nodes s)"
  shows "sp_nodes (unrolled s) ! i =
    (if i = length (sp_nodes s) then bare_node (ps_states (sp_owner s) ! (sp_prefix_left s - 1))
         (fst (cell_end (ps_nodes (sp_owner s)) (sp_prefix_left s - 1)))
         (snd (cell_end (ps_nodes (sp_owner s)) (sp_prefix_left s - 1)))
     else if i = sp_frontier s then (sp_nodes s ! i)
       \<lparr>sn_first_link := length (sp_links s), sn_link_count := 1, sn_link_capacity := 1\<rparr>
     else sp_nodes s ! i)"
  using assms by (auto simp: unrolled_def Let_def nth_append nth_list_update)

lemma unrolled_inv:
  assumes inv: "spec_inv lang source E s" and left: "sp_prefix_left s \<noteq> 0"
  shows "spec_inv lang source E (unrolled s)" and "graph_grows s (unrolled s)"
proof -
  let ?s = "unrolled s"
  let ?i = "sp_prefix_left s - 1"
  let ?nodes = "ps_nodes (sp_owner s)"
  have owner: "owner_ok lang source (sp_owner s)" and arena: "arena_ok s" and front: "frontier_ok E s"
    and E: "E \<subseteq> {..< length (sp_nodes s)}"
    using inv by (simp_all add: spec_inv_def)
  have spans: "spans_from source 0 ?nodes" and states: "length (ps_states (sp_owner s)) = Suc (length ?nodes)"
    using owner by (simp_all add: owner_ok_def ps_depth_def)
  have f: "sp_frontier s < length (sp_nodes s)" "sp_frontier s \<notin> E" "sp_prefix_left s \<le> length ?nodes"
    "sn_state (sp_nodes s ! sp_frontier s) = ps_states (sp_owner s) ! sp_prefix_left s"
    "sn_byte (sp_nodes s ! sp_frontier s) = nd_end_byte (?nodes ! ?i)"
    "sn_point (sp_nodes s ! sp_frontier s) = nd_end_point (?nodes ! ?i)"
    "list_all (\<lambda>t. t < length (sp_trees s) \<and> tr_inherited (sp_trees s ! t)) (sp_prefix_tree s)"
    using front left by (simp_all add: frontier_ok_def Let_def ps_depth_def cell_end_def)
  note node = unrolled_node [OF f(1)]
  have state: "is_state lang (ps_states (sp_owner s) ! i) \<and> \<not> accepting lang (ps_states (sp_owner s) ! i)"
    if "i \<le> length ?nodes" for i
    using that states owner by (simp add: owner_ok_def list_all_length)
  show grows: "graph_grows s ?s"
    using forest_grows_append [of "sp_trees s" "sp_children s" _ "[]"]
    by (auto simp: graph_grows_def unrolled_sel node)
  have ends: "fst (cell_end ?nodes ?i) \<le> fork_end s" "nd_end_byte (?nodes ! ?i) \<le> fork_end s"
    using cell_end_at(1) [OF spans, of ?i] cell_end_at(1) [OF spans, of "sp_prefix_left s"] f(3) left
    by (simp_all add: fork_end_def ps_depth_def cell_end_def)
  have links: "node_links ?s i = (if i = sp_frontier s then [\<lparr>lk_node = length (sp_nodes s), lk_tree = length (sp_trees s)\<rparr>]
      else if i = length (sp_nodes s) then [] else node_links s i)" if "i \<le> length (sp_nodes s)" for i
  proof -
    have "node_links ?s i = node_links s i" if "i < length (sp_nodes s)" "i \<noteq> sp_frontier s"
      using that arena_run(2) [OF arena that(1)]
      by (intro node_links_same [OF arena that(1)]) (auto simp: unrolled_sel node nth_append subset_iff)
    then show ?thesis using that f(1) by (auto simp: node_links_def unrolled_sel node bare_node_def)
  qed
  have "arena_ok ?s"
  proof (rule arena_fresh [OF arena, where k = "sp_frontier s"])
    fix i assume "i < length (sp_nodes ?s)" and "i \<noteq> sp_frontier s"
    then show "i < length (sp_nodes s) \<and> run_of (sp_nodes ?s ! i) = run_of (sp_nodes s ! i) \<and>
        sn_link_count (sp_nodes ?s ! i) \<le> sn_link_capacity (sp_nodes ?s ! i) \<or>
      sn_link_capacity (sp_nodes ?s ! i) = 0 \<and> sn_link_count (sp_nodes ?s ! i) = 0"
      using arena_run(1) [OF arena, of i] by (auto simp: unrolled_sel node bare_node_def)
  next
    fix i assume "i < length (sp_nodes ?s)"
    then have "i \<le> length (sp_nodes s)" by (simp add: unrolled_sel)
    then show "sn_link_capacity (sp_nodes ?s ! i) \<le> TF_SPEC_LINKS"
      using arena_run(3) [OF arena, of i] by (auto simp: node bare_node_def TF_SPEC_LINKS_def)
  qed (use f(1) in \<open>simp_all add: unrolled_sel node\<close>)
  moreover have "frontier_ok E ?s"
    using E f(3,7) node [of "length (sp_nodes s)"]
    by (auto simp: frontier_ok_def Let_def unrolled_sel bare_node_def prefix_cell_def ps_depth_def list_all_iff nth_append)
  moreover have "node_ok lang source (sp_nodes ?s ! i)" if "i < length (sp_nodes ?s)" for i
  proof (cases "i = length (sp_nodes s)")
    case True
    then show ?thesis
      using state [of ?i] cell_end_at(2,3) [OF spans, of ?i] f(3) by (simp add: node bare_node_def node_ok_def)
  next
    case False
    then show ?thesis
      using that node_ok_grows [OF grows _ spec_inv_node(1) [OF inv]] by (simp add: unrolled_sel)
  qed
  moreover have "link_ok lang source E ?s i l" if "i < length (sp_nodes ?s)" "i \<notin> E" "l \<in> set (node_links ?s i)" for i l
  proof (cases "i = sp_frontier s")
    case True
    then have l: "l = \<lparr>lk_node = length (sp_nodes s), lk_tree = length (sp_trees s)\<rparr>"
      using that links [of i] f(1) by simp
    have "visits lang source (sp_trees ?s) (sp_children ?s) (length (sp_trees s)) (fork_end s) (fork_end s)"
      by (rule visits_inherited) (simp_all add: unrolled_sel prefix_cell_def)
    moreover have "sn_byte (sp_nodes ?s ! sp_frontier s) = nd_end_byte (?nodes ! ?i)"
      "sn_point (sp_nodes ?s ! sp_frontier s) = nd_end_point (?nodes ! ?i)"
      "sn_state (sp_nodes ?s ! sp_frontier s) = ps_states (sp_owner s) ! sp_prefix_left s"
      "sn_byte (sp_nodes ?s ! length (sp_nodes s)) = fst (cell_end ?nodes ?i)"
      "sp_trees ?s ! length (sp_trees s) = prefix_cell (?nodes ! ?i) (fst (cell_end ?nodes ?i))"
      using f(1,4-6) by (simp_all add: node unrolled_sel bare_node_def)
    moreover have "length (sp_nodes s) \<notin> E" using E by auto
    moreover have "max (fork_end s) (fst (cell_end ?nodes ?i)) = fork_end s" "max (fork_end s) (nd_end_byte (?nodes ! ?i)) = fork_end s"
      using max_absorb1 [OF ends(1)] max_absorb1 [OF ends(2)] by simp_all
    moreover note state [OF f(3)]
    ultimately show ?thesis
      unfolding link_ok_def Let_def True l fork_end_grows [OF grows] TFSpecLink.simps
      by (simp only: unrolled_sel(9) prefix_cell_def TFSpecTree.simps TFToken.simps lessI simp_thms)
  next
    case False
    then have "i < length (sp_nodes s)" "l \<in> set (node_links s i)"
      using that links [of i] by (auto simp: unrolled_sel split: if_splits)
    then show ?thesis using link_ok_grows [OF grows] spec_inv_node(3) [OF inv _ that(2)] by blast
  qed
  moreover have "sn_link_count (sp_nodes ?s ! i) = 0 \<longrightarrow> i = sp_frontier ?s" if "i < length (sp_nodes ?s)" for i
  proof (cases "i = length (sp_nodes s)")
    case False
    then have "i < length (sp_nodes s)" using that by (simp add: unrolled_sel)
    then show ?thesis using spec_inv_node(2) [OF inv, of i] False by (auto simp: node)
  qed (simp add: unrolled_sel)
  ultimately show "spec_inv lang source E ?s"
    using owner E by (auto simp: spec_inv_def unrolled_sel)
qed

lemma resolve_inv:
  assumes "spec_inv lang source E s" and "k < length (sp_prefix_tree s)"
  shows "spec_inv lang source E (tf_spec_resolve k s)" and "graph_grows s (tf_spec_resolve k s)"
proof -
  have "sp_prefix_tree s ! k < length (sp_trees s)" "tr_inherited (sp_trees s ! (sp_prefix_tree s ! k))"
    using assms by (simp_all add: spec_inv_def frontier_ok_def Let_def list_all_length)
  then show grows: "graph_grows s (tf_spec_resolve k s)"
    by (auto simp: tf_spec_resolve_def Let_def graph_grows_def forest_grows_def nth_list_update same_tree_def)
  show "spec_inv lang source E (tf_spec_resolve k s)"
    by (rule spec_inv_forest [OF assms(1) grows]) (simp_all add: tf_spec_resolve_def Let_def)
qed

lemma extend_inv:
  assumes "\<not> sp_failed (tf_spec_extend mem s)" and "spec_inv lang source E s" and "sp_prefix_left s \<noteq> 0"
  shows "spec_inv lang source E (tf_spec_extend mem s)" and "graph_grows s (tf_spec_extend mem s)"
    and "\<not> sp_failed s" and "sp_heads (tf_spec_extend mem s) = sp_heads s"
    and "sp_prefix_left (tf_spec_extend mem s) = sp_prefix_left s - 1"
proof -
  obtain c where ok: "\<not> sp_failed s" and eq: "tf_spec_extend mem s =
      (let s = (unrolled s)\<lparr>sp_capacity := c\<rparr>
       in if sp_materialized s \<and> sp_captured s then tf_spec_resolve (length (sp_prefix_tree s) - 1) s else s)"
    using assms(1) by (rule extend_Ok)
  let ?u = "(unrolled s)\<lparr>sp_capacity := c\<rparr>"
  have u: "spec_inv lang source E ?u" "graph_grows s ?u"
    using unrolled_inv [OF assms(2,3)] by (auto intro: graph_grows_trans)
  have "length (sp_prefix_tree ?u) - 1 < length (sp_prefix_tree ?u)" by (simp add: unrolled_sel)
  note r = resolve_inv [OF u(1) this]
  show "\<not> sp_failed s" by (rule ok)
  show "spec_inv lang source E (tf_spec_extend mem s)" "graph_grows s (tf_spec_extend mem s)"
    "sp_heads (tf_spec_extend mem s) = sp_heads s" "sp_prefix_left (tf_spec_extend mem s) = sp_prefix_left s - 1"
    using u r graph_grows_trans [OF u(2) r(2)] unfolding eq Let_def
    by (auto simp: tf_spec_resolve_def Let_def unrolled_sel)
qed

section \<open>Steps that grow the graph\<close>

text \<open>What the work on the graph leaves alone.\<close>

definition frame :: "TFSpec \<Rightarrow> TFSpec \<Rightarrow> bool" where
  "frame s s' \<longleftrightarrow> sp_heads s' = sp_heads s \<and> sp_slices s' = sp_slices s \<and> sp_edges s' = sp_edges s \<and> sp_finished s' = sp_finished s \<and>
     sp_cached s' = sp_cached s \<and> sp_cached_byte s' = sp_cached_byte s \<and> sp_has_cache s' = sp_has_cache s \<and>
     sp_cached_keyword s' = sp_cached_keyword s"

text \<open>
  A step that, unless it fails for lack of memory, keeps the invariant where \<open>Q\<close> holds of its
  arguments. A failure is for good.
\<close>

definition grown :: "TFLanguage \<Rightarrow> u8 list \<Rightarrow> nat set \<Rightarrow> bool \<Rightarrow> TFSpec \<Rightarrow> TFSpec \<Rightarrow> bool" where
  "grown lang source E Q s s' \<longleftrightarrow>
     (\<not> sp_failed s' \<longrightarrow> \<not> sp_failed s \<and> frame s s' \<and>
        (spec_inv lang source E s \<and> Q \<longrightarrow> spec_inv lang source E s' \<and> graph_grows s s'))"

lemma frame_refl [simp]: "frame s s"
  by (simp add: frame_def)

lemma frame_trans: "frame s t \<Longrightarrow> frame t u \<Longrightarrow> frame s u"
  by (simp add: frame_def)

lemma grown_refl [simp]: "grown lang source E Q s s"
  by (simp add: grown_def)

lemma grown_failed [simp]: "sp_failed s' \<Longrightarrow> grown lang source E Q s s'"
  by (simp add: grown_def)

lemma grown_trans:
  assumes "grown lang source E Q s t" and "grown lang source E R t u"
    and "\<not> sp_failed t \<Longrightarrow> spec_inv lang source E s \<Longrightarrow> Q \<Longrightarrow> spec_inv lang source E t \<Longrightarrow> graph_grows s t \<Longrightarrow> R"
  shows "grown lang source E Q s u"
  unfolding grown_def
proof (intro impI)
  assume u: "\<not> sp_failed u"
  have t: "\<not> sp_failed t" "frame t u" using assms(2) u by (auto simp: grown_def)
  have s: "\<not> sp_failed s" "frame s t" using assms(1) t(1) by (auto simp: grown_def)
  have "spec_inv lang source E u \<and> graph_grows s u" if "spec_inv lang source E s" "Q"
  proof -
    have m: "spec_inv lang source E t" "graph_grows s t" using assms(1) t(1) that by (auto simp: grown_def)
    have "R" by (rule assms(3) [OF t(1) that m])
    then have "spec_inv lang source E u" "graph_grows t u" using assms(2) u m by (auto simp: grown_def)
    then show ?thesis using graph_grows_trans [OF m(2)] by blast
  qed
  then show "\<not> sp_failed s \<and> frame s u \<and>
      (spec_inv lang source E s \<and> Q \<longrightarrow> spec_inv lang source E u \<and> graph_grows s u)"
    using s frame_trans [OF s(2) t(2)] by blast
qed

lemma grown_weaken: "grown lang source E Q s t \<Longrightarrow> (R \<Longrightarrow> Q) \<Longrightarrow> grown lang source E R s t"
  by (auto simp: grown_def)

lemma grownD:
  assumes "grown lang source E Q s s'" and "\<not> sp_failed s'"
  shows "\<not> sp_failed s" and "frame s s'"
    and "spec_inv lang source E s \<Longrightarrow> Q \<Longrightarrow> spec_inv lang source E s'"
    and "spec_inv lang source E s \<Longrightarrow> Q \<Longrightarrow> graph_grows s s'"
  using assms by (auto simp: grown_def)

lemma fold_opt_grown:
  assumes "fold_opt f xs s = Some s'"
    and "\<And>x s s'. x \<in> set xs \<Longrightarrow> f x s = Some s' \<Longrightarrow> grown lang source E (Q x s) s s'"
    and "\<And>x s s'. x \<in> set xs \<Longrightarrow> Q x s \<Longrightarrow> graph_grows s s' \<Longrightarrow> Q x s'"
  shows "grown lang source E (\<forall>x \<in> set xs. Q x s) s s'"
  using assms
proof (induction xs arbitrary: s)
  case (Cons x xs)
  obtain t where t: "f x s = Some t" "fold_opt f xs t = Some s'"
    using Cons.prems(1) by (auto simp: bind_eq_Some_conv)
  have "grown lang source E (\<forall>y \<in> set (x # xs). Q y s) s t"
    by (rule grown_weaken [OF Cons.prems(2) [OF _ t(1)]]) simp_all
  moreover have "grown lang source E (\<forall>y \<in> set xs. Q y t) t s'"
  proof (rule Cons.IH [OF t(2)])
    show "grown lang source E (Q y a) a b" if "y \<in> set xs" "f y a = Some b" for y a b
      by (rule Cons.prems(2)) (use that in simp_all)
    show "Q y b" if "y \<in> set xs" "Q y a" "graph_grows a b" for y a b
      by (rule Cons.prems(3) [OF _ that(2,3)]) (use that(1) in simp)
  qed
  ultimately show ?case
  proof (rule grown_trans)
    assume "\<forall>y \<in> set (x # xs). Q y s" and "graph_grows s t"
    then show "\<forall>y \<in> set xs. Q y t" using Cons.prems(3) [of _ s t] by simp
  qed
qed simp

lemma reserve_grown:
  assumes "tf_spec_reserve mem site needed s = (s', ok)"
  shows "grown lang source E Q s s'" and "ok \<longleftrightarrow> \<not> sp_failed s'"
  using assms by (cases rule: reserve_cases; simp add: grown_def frame_def)+

lemma unroll_grown:
  assumes "tf_spec_unroll mem node s = (s', ok)"
  shows "grown lang source E Q s s'" and "ok \<longleftrightarrow> \<not> sp_failed s'"
proof -
  have eq: "s' = (if node = sp_frontier s \<and> sp_prefix_left s \<noteq> 0 then tf_spec_extend mem s else s)" "ok \<longleftrightarrow> \<not> sp_failed s'"
    using assms by (auto simp: tf_spec_unroll_def Let_def)
  show "ok \<longleftrightarrow> \<not> sp_failed s'" by (rule eq(2))
  show "grown lang source E Q s s'"
  proof (cases "node = sp_frontier s \<and> sp_prefix_left s \<noteq> 0 \<and> \<not> sp_failed s'")
    case True
    then have s': "s' = tf_spec_extend mem s" "\<not> sp_failed (tf_spec_extend mem s)" using eq(1) by auto
    from s'(2) obtain c where c: "\<not> sp_failed s" "tf_spec_extend mem s =
      (let s = (unrolled s)\<lparr>sp_capacity := c\<rparr>
       in if sp_materialized s \<and> sp_captured s then tf_spec_resolve (length (sp_prefix_tree s) - 1) s else s)"
      by (rule extend_Ok)
    have "frame s s'"
      unfolding s'(1) c(2) by (simp add: frame_def unrolled_def tf_spec_resolve_def Let_def)
    then show ?thesis
      using extend_inv(1,2) [OF s'(2)] c(1) True unfolding grown_def s'(1) by blast
  qed (use eq in \<open>auto simp: grown_def\<close>)
qed

end
