(* ===== verification/Spec_Links.thy ===== *)
theory Spec_Links
  imports Spec_Prefix
begin

text \<open>
  The links of a node: writing one, moving the run when it is full, and raising precedences keep
  the invariant.
\<close>

section \<open>Writing links\<close>

abbreviation no_link :: TFSpecLink where
  "no_link \<equiv> \<lparr>lk_node = 0, lk_tree = 0\<rparr>"

lemma update_node_sel [simp]:
  "sp_trees (update_node i f s) = sp_trees s" "sp_children (update_node i f s) = sp_children s"
  "sp_links (update_node i f s) = sp_links s" "sp_owner (update_node i f s) = sp_owner s"
  "sp_frontier (update_node i f s) = sp_frontier s" "sp_prefix_left (update_node i f s) = sp_prefix_left s"
  "sp_prefix_tree (update_node i f s) = sp_prefix_tree s" "sp_failed (update_node i f s) = sp_failed s"
  "sp_heads (update_node i f s) = sp_heads s" "length (sp_nodes (update_node i f s)) = length (sp_nodes s)"
  "frame u (update_node i f s) = frame u s" "frame u (s\<lparr>sp_links := ls\<rparr>) = frame u s"
  "frame u (s\<lparr>sp_capacity := c\<rparr>) = frame u s"
  "j < length (sp_nodes s) \<Longrightarrow> sp_nodes (update_node i f s) ! j = (if j = i then f (sp_nodes s ! i) else sp_nodes s ! j)"
  by (auto simp: update_node_def frame_def nth_list_update)

text \<open>A node's links and precedence may change; where it stands and its state do not.\<close>

definition keeps_place :: "(TFSpecNode \<Rightarrow> TFSpecNode) \<Rightarrow> bool" where
  "keeps_place f \<longleftrightarrow> (\<forall>n. sn_state (f n) = sn_state n \<and> sn_byte (f n) = sn_byte n \<and> sn_point (f n) = sn_point n)"

lemma update_node_grows: "keeps_place f \<Longrightarrow> graph_grows s (update_node i f s)"
  by (auto simp: graph_grows_def keeps_place_def)

lemma precedence_inv:
  assumes "spec_inv lang source E s"
  shows "spec_inv lang source E (update_node i (\<lambda>n. n\<lparr>sn_precedence := p\<rparr>) s)"
    and "graph_grows s (update_node i (\<lambda>n. n\<lparr>sn_precedence := p\<rparr>) s)"
proof -
  let ?s = "update_node i (\<lambda>n. n\<lparr>sn_precedence := p\<rparr>) s"
  show g: "graph_grows s ?s" by (rule update_node_grows) (simp add: keeps_place_def)
  have same: "sn_first_link (sp_nodes ?s ! j) = sn_first_link (sp_nodes s ! j) \<and>
      sn_link_count (sp_nodes ?s ! j) = sn_link_count (sp_nodes s ! j) \<and>
      sn_link_capacity (sp_nodes ?s ! j) = sn_link_capacity (sp_nodes s ! j)" if "j < length (sp_nodes s)" for j
    using that by simp
  show "spec_inv lang source E ?s"
  proof (rule spec_inv_links [OF assms _ g])
    show "arena_ok ?s" using assms same by (simp add: spec_inv_def arena_ok_def)
  qed (use same in \<open>auto simp: node_links_def\<close>)
qed

lemma raise_grown: "grown lang source E Q s (raise_precedence target link s)"
  using precedence_inv by (auto simp: grown_def raise_precedence_def Let_def)

lemma raise_failed [simp]: "sp_failed (raise_precedence target link s) = sp_failed s"
  by (simp add: raise_precedence_def Let_def)

text \<open>Writing a link behind the last one of a run with room for it.\<close>

lemma write_slot_inv:
  assumes inv: "spec_inv lang source E s" and target: "target < length (sp_nodes s)"
    and link: "target \<notin> E \<Longrightarrow> link_ok lang source E s target link"
    and room: "sn_link_count (sp_nodes s ! target) < sn_link_capacity (sp_nodes s ! target)"
  defines "s' \<equiv> update_node target (\<lambda>n. n\<lparr>sn_link_count := sn_link_count n + 1\<rparr>)
      (s\<lparr>sp_links := (sp_links s)[sn_first_link (sp_nodes s ! target) + sn_link_count (sp_nodes s ! target) := link]\<rparr>)"
  shows "spec_inv lang source E s'" and "graph_grows s s'"
proof -
  let ?at = "sn_first_link (sp_nodes s ! target) + sn_link_count (sp_nodes s ! target)"
  have arena: "arena_ok s" using inv by (simp add: spec_inv_def)
  have "graph_grows (s\<lparr>sp_links := (sp_links s)[?at := link]\<rparr>) s'"
    unfolding s'_def by (rule update_node_grows) (simp add: keeps_place_def)
  then show g: "graph_grows s s'" by (simp add: graph_grows_def)
  have runs: "run_of (sp_nodes s' ! j) = run_of (sp_nodes s ! j)"
    "sn_link_count (sp_nodes s' ! j) \<le> sn_link_capacity (sp_nodes s' ! j)" if "j < length (sp_nodes s)" for j
    using that room arena_run(1) [OF arena that] by (auto simp: s'_def)
  have at: "?at \<in> run_of (sp_nodes s ! target)" using room by simp
  then have at: "?at \<in> run_of (sp_nodes s ! target)" "?at < length (sp_links s)"
    using arena_run(2) [OF arena target] by blast+
  have links: "node_links s' j = (if j = target then node_links s j @ [link] else node_links s j)" if "j < length (sp_nodes s)" for j
  proof (cases "j = target")
    case True
    have "take (Suc c) (drop f (xs[f + c := l])) = take c (drop f xs) @ [l]" if "f + c < length xs"
      for f c and xs :: "TFSpecLink list" and l
      using that by (simp add: take_Suc_conv_app_nth drop_update_swap take_update_swap list_update_append)
    then show ?thesis using True target at(2) by (simp add: node_links_def s'_def)
  next
    case False
    then have "run_of (sp_nodes s ! j) \<inter> run_of (sp_nodes s ! target) = {}"
      using arena that target by (simp add: arena_ok_def)
    then have "node_links s' j = node_links s j"
      using False that at(1) by (intro node_links_same [OF arena that]) (auto simp: s'_def nth_list_update)
    then show ?thesis using False by simp
  qed
  show "spec_inv lang source E s'"
  proof (rule spec_inv_links [OF inv _ g])
    have "sn_link_capacity (sp_nodes s' ! j) = sn_link_capacity (sp_nodes s ! j)" if "j < length (sp_nodes s)" for j
      using that by (simp add: s'_def)
    then show "arena_ok s'" using arena runs by (simp add: arena_ok_def s'_def)
  qed (use links link target in \<open>auto simp: s'_def split: if_splits\<close>)
qed

text \<open>A longer run with the same links.\<close>

lemma new_run_inv:
  assumes inv: "spec_inv lang source E s" and target: "target < length (sp_nodes s)"
    and want: "sn_link_count (sp_nodes s ! target) \<le> want" and bound: "want \<le> TF_SPEC_LINKS"
    and old: "old = node_links s target" and at: "at = length (sp_links s)"
  defines "s' \<equiv> update_node target (\<lambda>n. n\<lparr>sn_first_link := at, sn_link_capacity := want\<rparr>)
      (s\<lparr>sp_links := take at (sp_links s @ replicate want no_link) @ old @ drop (at + length old) (sp_links s @ replicate want no_link)\<rparr>)"
  shows "spec_inv lang source E s'" and "graph_grows s s'"
    and "sn_link_count (sp_nodes s' ! target) = sn_link_count (sp_nodes s ! target)"
    and "sn_link_capacity (sp_nodes s' ! target) = want" and "length (sp_nodes s') = length (sp_nodes s)"
proof -
  have arena: "arena_ok s" using inv by (simp add: spec_inv_def)
  note len = length_node_links [OF arena target]
  have "graph_grows s (s\<lparr>sp_links := ls\<rparr>)" for ls by (simp add: graph_grows_def)
  moreover have "graph_grows (s\<lparr>sp_links := ls\<rparr>) (update_node target (\<lambda>n. n\<lparr>sn_first_link := at, sn_link_capacity := want\<rparr>) (s\<lparr>sp_links := ls\<rparr>))" for ls
    by (rule update_node_grows) (simp add: keeps_place_def)
  ultimately show g: "graph_grows s s'" unfolding s'_def by (rule graph_grows_trans)
  have sel: "sp_links s' = sp_links s @ old @ replicate (want - length old) no_link"
    by (simp add: s'_def at)
  have node: "sp_nodes s' ! j = (if j = target then (sp_nodes s ! j)\<lparr>sn_first_link := at, sn_link_capacity := want\<rparr>
      else sp_nodes s ! j)" if "j < length (sp_nodes s)" for j
    using that by (simp add: s'_def)
  show lens: "length (sp_nodes s') = length (sp_nodes s)" by (simp add: s'_def)
  have fit: "length old \<le> want" using old len want by simp
  have links: "node_links s' j = node_links s j" if "j < length (sp_nodes s)" for j
  proof (cases "j = target")
    case True
    then show ?thesis using that len old by (simp add: node_links_def node sel at)
  next
    case False
    then show ?thesis
      using that arena_run(2) [OF arena that]
      by (intro node_links_same [OF arena that]) (auto simp: node sel nth_append subset_iff)
  qed
  show "spec_inv lang source E s'"
  proof (rule spec_inv_links [OF inv _ g lens])
    show "arena_ok s'"
    proof (rule arena_fresh [OF arena, where k = target])
      fix i assume "i < length (sp_nodes s')" and "i \<noteq> target"
      then show "i < length (sp_nodes s) \<and> run_of (sp_nodes s' ! i) = run_of (sp_nodes s ! i) \<and>
          sn_link_count (sp_nodes s' ! i) \<le> sn_link_capacity (sp_nodes s' ! i) \<or>
        sn_link_capacity (sp_nodes s' ! i) = 0 \<and> sn_link_count (sp_nodes s' ! i) = 0"
        using arena_run(1) [OF arena, of i] by (simp add: lens node)
    next
      fix i assume "i < length (sp_nodes s')"
      then show "sn_link_capacity (sp_nodes s' ! i) \<le> TF_SPEC_LINKS"
        using arena_run(3) [OF arena, of i] bound by (simp add: lens node)
    qed (use target want at fit in \<open>simp_all add: node sel\<close>)
    show "sp_trees s' = sp_trees s" "sp_children s' = sp_children s" "sp_frontier s' = sp_frontier s"
      "sp_prefix_left s' = sp_prefix_left s" "sp_prefix_tree s' = sp_prefix_tree s" by (simp_all add: s'_def)
  qed (use links node in \<open>auto split: if_splits\<close>)
  show "sn_link_count (sp_nodes s' ! target) = sn_link_count (sp_nodes s ! target)"
    "sn_link_capacity (sp_nodes s' ! target) = want"
    using target by (simp_all add: node)
qed

text \<open>Giving a link to a node.\<close>

lemma append_link_grown:
  "grown lang source E (target < length (sp_nodes s) \<and> target \<notin> E \<and> link_ok lang source E s target link)
     s (append_link mem target link s)"
proof (cases "sn_link_count (sp_nodes s ! target) = TF_SPEC_LINKS")
  case True
  then show ?thesis by (simp add: append_link_def)
next
  case False
  have written: "grown lang source E (target < length (sp_nodes t) \<and> target \<notin> E \<and> link_ok lang source E t target link \<and>
      sn_link_count (sp_nodes t ! target) < sn_link_capacity (sp_nodes t ! target)) t (write_link target link t)" for t
  proof -
    let ?t = "update_node target (\<lambda>n. n\<lparr>sn_link_count := sn_link_count n + 1\<rparr>)
      (t\<lparr>sp_links := (sp_links t)[sn_first_link (sp_nodes t ! target) + sn_link_count (sp_nodes t ! target) := link]\<rparr>)"
    have "grown lang source E (target < length (sp_nodes t) \<and> target \<notin> E \<and> link_ok lang source E t target link \<and>
      sn_link_count (sp_nodes t ! target) < sn_link_capacity (sp_nodes t ! target)) t ?t"
      using write_slot_inv [of lang source E t target link] by (auto simp: grown_def)
    then have "grown lang source E (target < length (sp_nodes t) \<and> target \<notin> E \<and> link_ok lang source E t target link \<and>
      sn_link_count (sp_nodes t ! target) < sn_link_capacity (sp_nodes t ! target)) t (raise_precedence target link ?t)"
      by (rule grown_trans [OF _ raise_grown]) simp
    then show ?thesis by (simp add: write_link_def Let_def)
  qed
  let ?node = "sp_nodes s ! target"
  show ?thesis
  proof (cases "sn_link_count ?node = sn_link_capacity ?node")
    case full: False
    have eq: "append_link mem target link s = write_link target link s"
      using \<open>sn_link_count ?node \<noteq> TF_SPEC_LINKS\<close> full by (simp add: append_link_def)
    show ?thesis
      unfolding grown_def
    proof (intro impI)
      assume "\<not> sp_failed (append_link mem target link s)"
      note w = grownD [OF written [of s], unfolded eq [symmetric], OF this]
      show "\<not> sp_failed s \<and> frame s (append_link mem target link s) \<and> (spec_inv lang source E s \<and>
          target < length (sp_nodes s) \<and> target \<notin> E \<and> link_ok lang source E s target link \<longrightarrow>
          spec_inv lang source E (append_link mem target link s) \<and> graph_grows s (append_link mem target link s))"
        using w full arena_run(1) [of s target] by (auto simp: spec_inv_def [of lang source E s])
    qed
  next
    case full: True
    define want where "want = min TF_SPEC_LINKS (if sn_link_capacity ?node \<noteq> 0 then sn_link_capacity ?node * 2 else 1)"
    obtain t at where t: "tf_spec_links mem want s = (t, at)" by fastforce
    let ?t = "update_node target (\<lambda>n. n\<lparr>sn_first_link := at, sn_link_capacity := want\<rparr>)
      (t\<lparr>sp_links := take at (sp_links t) @ node_links s target @ drop (at + length (node_links s target)) (sp_links t)\<rparr>)"
    have eq: "append_link mem target link s = (if sp_failed t then t else write_link target link ?t)"
    proof -
      have "(let want = (if sn_link_capacity ?node \<noteq> 0 then sn_link_capacity ?node * 2 else 1)
          in if want > TF_SPEC_LINKS then TF_SPEC_LINKS else want) = want"
        by (simp add: want_def min_def Let_def)
      then show ?thesis
        using \<open>sn_link_count ?node \<noteq> TF_SPEC_LINKS\<close> full t unfolding append_link_def Let_def by simp
    qed
    show ?thesis
    proof (cases "sp_failed t")
      case True
      then show ?thesis using eq by simp
    next
      case False
      then obtain c where c: "\<not> sp_failed s" "at = length (sp_links s)"
        "t = s\<lparr>sp_links := sp_links s @ replicate want \<lparr>lk_node = 0, lk_tree = 0\<rparr>, sp_capacity := c\<rparr>"
        by (rule links_Ok [OF t])
      let ?s = "update_node target (\<lambda>n. n\<lparr>sn_first_link := at, sn_link_capacity := want\<rparr>)
        (s\<lparr>sp_links := take at (sp_links s @ replicate want no_link) @ node_links s target @
          drop (at + length (node_links s target)) (sp_links s @ replicate want no_link)\<rparr>)"
      have t_eq: "?t = ?s\<lparr>sp_capacity := c\<rparr>"
        unfolding c(3) by (rule TFSpec.equality) (simp_all add: update_node_def)
      have room: "sn_link_count ?node < want" if "arena_ok s" "target < length (sp_nodes s)"
        using arena_run(3) [OF that] full \<open>sn_link_count ?node \<noteq> TF_SPEC_LINKS\<close>
        by (auto simp: want_def TF_SPEC_LINKS_def)
      have "want \<le> TF_SPEC_LINKS" by (simp add: want_def)
      have run: "spec_inv lang source E ?t \<and> graph_grows s ?t \<and> target < length (sp_nodes ?t) \<and>
          sn_link_count (sp_nodes ?t ! target) < sn_link_capacity (sp_nodes ?t ! target)"
        if "spec_inv lang source E s" "target < length (sp_nodes s)"
      proof -
        have "arena_ok s" using that(1) by (simp add: spec_inv_def)
        note room = room [OF this that(2)]
        note n = new_run_inv [OF that less_imp_le [OF room] \<open>want \<le> TF_SPEC_LINKS\<close> refl c(2)]
        show ?thesis
          unfolding t_eq using n room that(2) graph_grows_trans [OF n(2)] by simp
      qed
      have "grown lang source E (target < length (sp_nodes s) \<and> target \<notin> E \<and> link_ok lang source E s target link) s ?t"
        using run c(1) by (simp add: grown_def t_eq)
      then have "grown lang source E (target < length (sp_nodes s) \<and> target \<notin> E \<and> link_ok lang source E s target link) s
          (write_link target link ?t)"
      proof (rule grown_trans [OF _ written])
        assume *: "spec_inv lang source E s" "graph_grows s ?t"
          "target < length (sp_nodes s) \<and> target \<notin> E \<and> link_ok lang source E s target link"
        then show "target < length (sp_nodes ?t) \<and> target \<notin> E \<and> link_ok lang source E ?t target link \<and>
            sn_link_count (sp_nodes ?t ! target) < sn_link_capacity (sp_nodes ?t ! target)"
          using run link_ok_grows [OF *(2)] by blast
      qed
      then show ?thesis using eq False by simp
    qed
  qed
qed

end
