(* ===== verification/Spec_Merge.thy ===== *)
theory Spec_Merge
  imports Spec_Links
begin

text \<open>
  Merging stacks of the graph and comparing trees keep the invariant, for any way to recover
  the shapes of inherited cells that only fills in shapes (the locale \<open>shape_recovery\<close>).
\<close>

section \<open>Recovering shapes\<close>

text \<open>A change to the trees and the children only, that keeps what a tree replays.\<close>

definition shapes_only :: "TFSpec \<Rightarrow> TFSpec \<Rightarrow> bool" where
  "shapes_only s s' \<longleftrightarrow> frame s s' \<and> graph_grows s s' \<and> sp_nodes s' = sp_nodes s \<and> sp_links s' = sp_links s \<and>
     sp_frontier s' = sp_frontier s \<and> sp_prefix_left s' = sp_prefix_left s \<and> sp_prefix_tree s' = sp_prefix_tree s"

abbreviation prefix_inherited :: "TFSpec \<Rightarrow> bool" where
  "prefix_inherited s \<equiv> list_all (\<lambda>t. t < length (sp_trees s) \<and> tr_inherited (sp_trees s ! t)) (sp_prefix_tree s)"

lemma spec_inv_prefix: "spec_inv lang source E s \<Longrightarrow> prefix_inherited s"
  by (simp add: spec_inv_def frontier_ok_def Let_def)

lemma link_ok_below: "link_ok lang source E s n l \<Longrightarrow> lk_node l < length (sp_nodes s) \<and> lk_node l \<notin> E"
  by (simp add: link_ok_def Let_def)

text \<open>A link of one node may be given to another in the same place.\<close>

lemma link_ok_place:
  assumes "spec_inv lang source E s" and "link_ok lang source E s k l" and "k < length (sp_nodes s)" and "e < length (sp_nodes s)"
    and "sn_state (sp_nodes s ! e) = sn_state (sp_nodes s ! k)" and "sn_byte (sp_nodes s ! e) = sn_byte (sp_nodes s ! k)"
  shows "link_ok lang source E s e l"
proof -
  have "sn_point (sp_nodes s ! e) = sn_point (sp_nodes s ! k)"
    using spec_inv_node(1) [OF assms(1,3)] spec_inv_node(1) [OF assms(1,4)] assms(6) by (simp add: node_ok_def)
  then show ?thesis using assms(2,5,6) by (simp add: link_ok_def Let_def)
qed

text \<open>Another tree between the same nodes.\<close>

lemma replace_link_inv:
  assumes inv: "spec_inv lang source E s" and target: "target < length (sp_nodes s)" "target \<notin> E"
    and i: "i < sn_link_count (sp_nodes s ! target)" "lk_node (node_links s target ! i) = lk_node link"
    and link: "link_ok lang source E s target link"
  defines "s' \<equiv> s\<lparr>sp_links := (sp_links s)[sn_first_link (sp_nodes s ! target) + i :=
      (sp_links s ! (sn_first_link (sp_nodes s ! target) + i))\<lparr>lk_tree := lk_tree link\<rparr>]\<rparr>"
  shows "spec_inv lang source E s'" and "graph_grows s s'"
proof -
  let ?at = "sn_first_link (sp_nodes s ! target) + i"
  have arena: "arena_ok s" using inv by (simp add: spec_inv_def)
  show g: "graph_grows s s'" by (simp add: graph_grows_def s'_def)
  have at: "?at \<in> run_of (sp_nodes s ! target)" using i(1) arena_run(1) [OF arena target(1)] by simp
  have len: "i < length (node_links s target)" using i(1) length_node_links [OF arena target(1)] by simp
  have new: "(sp_links s ! ?at)\<lparr>lk_tree := lk_tree link\<rparr> = link"
    using i(2) nth_node_links [OF len] by (intro TFSpecLink.equality) simp_all
  have links: "node_links s' j = (if j = target then (node_links s j)[i := link] else node_links s j)" if "j < length (sp_nodes s)" for j
  proof (cases "j = target")
    case True
    then show ?thesis using new by (simp add: node_links_def s'_def drop_update_swap take_update_swap)
  next
    case False
    then have "run_of (sp_nodes s ! j) \<inter> run_of (sp_nodes s ! target) = {}"
      using arena that target by (simp add: arena_ok_def)
    then have "node_links s' j = node_links s j"
      using False that at(1) by (intro node_links_same [OF arena that]) (auto simp: s'_def nth_list_update)
    then show ?thesis using False by simp
  qed
  show "spec_inv lang source E s'"
  proof (rule spec_inv_links [OF inv _ g])
    show "arena_ok s'" using arena by (simp add: arena_ok_def s'_def)
    fix n l assume "n < length (sp_nodes s)" and "n \<notin> E" and "l \<in> set (node_links s' n)"
    then show "l \<in> set (node_links s n) \<or> link_ok lang source E s n l"
      using links [of n] link set_update_subset_insert [of "node_links s target" i link] by (auto split: if_splits)
  qed (simp_all add: s'_def)
qed

text \<open>Nodes that may be merged: in the same state, at the same byte.\<close>

definition same_place :: "nat set \<Rightarrow> TFSpec \<Rightarrow> nat \<Rightarrow> nat \<Rightarrow> bool" where
  "same_place E s e k \<longleftrightarrow> e < length (sp_nodes s) \<and> e \<notin> E \<and> k < length (sp_nodes s) \<and> k \<notin> E \<and>
     sn_state (sp_nodes s ! e) = sn_state (sp_nodes s ! k) \<and> sn_byte (sp_nodes s ! e) = sn_byte (sp_nodes s ! k)"

locale shape_recovery =
  fixes materialize :: materializer
  assumes recovers: "materialize s = Some (s', ok) \<Longrightarrow> ok \<longleftrightarrow> \<not> sp_failed s'"
    and keeps_failed: "materialize s = Some (s', ok) \<Longrightarrow> sp_failed s \<Longrightarrow> sp_failed s'"
    and keeps_frame: "materialize s = Some (s', ok) \<Longrightarrow> \<not> sp_failed s' \<Longrightarrow> frame s s'"
    and shapes: "materialize s = Some (s', ok) \<Longrightarrow> \<not> sp_failed s' \<Longrightarrow> prefix_inherited s \<Longrightarrow> shapes_only s s'"
begin

lemma materialize_grown: "materialize s = Some (s', ok) \<Longrightarrow> grown lang source E Q s s'"
  unfolding grown_def using keeps_failed [of s s' ok] keeps_frame [of s s' ok] shapes [of s s' ok]
  by (auto simp: shapes_only_def dest: spec_inv_prefix intro: spec_inv_forest)

lemma materialize_if_grown:
  assumes "(if b then materialize s else Some (s, True)) = Some (s', ok)"
  shows "grown lang source E Q s s'" and "ok \<longleftrightarrow> \<not> sp_failed s' \<or> \<not> b"
  using assms materialize_grown [of s s' ok] recovers [of s s' ok] by (auto split: if_splits)

lemma equivalent_grown:
  assumes "tf_spec_equivalent materialize a b s = Some (s', r)"
  shows "grown lang source E Q s s'"
  using assms
  by (auto simp: tf_spec_equivalent_def Let_def bind_eq_Some_conv intro: materialize_grown split: if_splits)

lemma equivalent_links:
  assumes "tf_spec_equivalent materialize a b s = Some (s', r)" and "\<not> sp_failed s'" and "spec_inv lang source E s"
  shows "sp_nodes s' = sp_nodes s \<and> sp_links s' = sp_links s"
  using assms(1,2) shapes [OF _ assms(2) spec_inv_prefix [OF assms(3)]]
  by (auto simp: tf_spec_equivalent_def Let_def bind_eq_Some_conv shapes_only_def split: if_splits)

text \<open>Where a link is placed: the links it is compared with are those given.\<close>

lemma place_link_grown:
  assumes "place_link materialize link links s = Some (s', place)"
  shows "grown lang source E Q s s'"
    and "place = Replace i \<Longrightarrow> \<exists>l. (i, l) \<in> set links \<and> lk_node l = lk_node link"
    and "place = Below e \<Longrightarrow> \<exists>i l. (i, l) \<in> set links \<and> lk_node l = e \<and>
      sn_state (sp_nodes s' ! e) = sn_state (sp_nodes s' ! lk_node link) \<and>
      sn_byte (sp_nodes s' ! e) = sn_byte (sp_nodes s' ! lk_node link)"
proof -
  have "grown lang source E Q s s' \<and>
    (\<forall>i. place = Replace i \<longrightarrow> (\<exists>l. (i, l) \<in> set links \<and> lk_node l = lk_node link)) \<and>
    (\<forall>e. place = Below e \<longrightarrow> (\<exists>i l. (i, l) \<in> set links \<and> lk_node l = e \<and>
      sn_state (sp_nodes s' ! e) = sn_state (sp_nodes s' ! lk_node link) \<and>
      sn_byte (sp_nodes s' ! e) = sn_byte (sp_nodes s' ! lk_node link)))"
    using assms
  proof (induction links arbitrary: s)
    case (Cons x rest)
    obtain i l where x: "x = (i, l)" by (cases x)
    obtain t same where t: "tf_spec_equivalent materialize (lk_tree l) (lk_tree link) s = Some (t, same)"
      using Cons.prems by (auto simp: x bind_eq_Some_conv)
    have g: "grown lang source E Q s t" by (rule equivalent_grown [OF t])
    show ?case
    proof (cases "place_link materialize link rest t = Some (s', place)")
      case True
      then show ?thesis using Cons.IH [OF True] grown_trans [OF g, of Q s'] by fastforce
    next
      case False
      then show ?thesis
        using Cons.prems t g by (auto simp: x Let_def split: if_splits)
    qed
  qed simp
  then show "grown lang source E Q s s'"
    and "place = Replace i \<Longrightarrow> \<exists>l. (i, l) \<in> set links \<and> lk_node l = lk_node link"
    and "place = Below e \<Longrightarrow> \<exists>i l. (i, l) \<in> set links \<and> lk_node l = e \<and>
      sn_state (sp_nodes s' ! e) = sn_state (sp_nodes s' ! lk_node link) \<and>
      sn_byte (sp_nodes s' ! e) = sn_byte (sp_nodes s' ! lk_node link)"
    by blast+
qed

lemma place_link_links:
  assumes "place_link materialize link links s = Some (s', place)" and "\<not> sp_failed s'" and "spec_inv lang source E s"
  shows "sp_nodes s' = sp_nodes s \<and> sp_links s' = sp_links s"
  using assms
proof (induction links arbitrary: s)
  case (Cons x rest)
  obtain i l where x: "x = (i, l)" by (cases x)
  obtain t same where t: "tf_spec_equivalent materialize (lk_tree l) (lk_tree link) s = Some (t, same)"
    using Cons.prems(1) by (auto simp: x bind_eq_Some_conv)
  show ?case
  proof (cases "place_link materialize link rest t = Some (s', place)")
    case True
    note g = grownD [OF place_link_grown(1) [OF True, where Q = True] Cons.prems(2)]
    have "spec_inv lang source E t"
      by (rule grownD(3) [OF equivalent_grown [OF t, where Q = True] g(1) Cons.prems(3)]) simp
    then show ?thesis
      using Cons.IH [OF True Cons.prems(2)] equivalent_links [OF t g(1) Cons.prems(3)] by simp
  next
    case False
    then have "t = s'" using Cons.prems(1) t by (auto simp: x Let_def split: if_splits)
    then show ?thesis using equivalent_links [OF t _ Cons.prems(3)] Cons.prems(2) by simp
  qed
qed simp

lemma add_link_grown:
  assumes "tf_spec_add_link mem materialize target link s = Some s'"
  shows "grown lang source E (target < length (sp_nodes s) \<and> target \<notin> E \<and> link_ok lang source E s target link) s s'"
proof -
  let ?pre = "\<lambda>target link s. target < length (sp_nodes s) \<and> target \<notin> E \<and> link_ok lang source E s target link"
  have "materialize = materialize \<longrightarrow> grown lang source E (?pre target link s) s s'"
  proof (rule tf_spec_add_link.raw_induct [where P = "\<lambda>mem mat target link s s'. mat = materialize \<longrightarrow>
      grown lang source E (?pre target link s) s s'", OF _ assms], intro impI)
    fix add mem mat target link s s'
    assume IH: "\<And>mem mat target link s s'. add mem mat target link s = Some s' \<Longrightarrow> mat = materialize \<longrightarrow>
        grown lang source E (?pre target link s) s s'"
      and eq: "(if lk_node link = target then Some s
        else let (s, ok) = tf_spec_unroll mem target s
          in if \<not> ok then Some s
             else do {
               (s, place) \<leftarrow> place_link mat link (zip [0..<sn_link_count (sp_nodes s ! target)] (node_links s target)) s;
               (case place of
                  Drop \<Rightarrow> Some s
                | Replace i \<Rightarrow>
                    let at = sn_first_link (sp_nodes s ! target) + i;
                        s = s\<lparr>sp_links := (sp_links s)[at := (sp_links s ! at)\<lparr>lk_tree := lk_tree link\<rparr>]\<rparr>
                    in Some (update_node target (\<lambda>n. n\<lparr>sn_precedence := link_precedence s link\<rparr>) s)
                | Below existing \<Rightarrow> do {
                    s \<leftarrow> fold_opt (add mem mat existing) (node_links s (lk_node link)) s;
                    Some (if sp_failed s then s else raise_precedence target link s)
                  }
                | Append \<Rightarrow> Some (append_link mem target link s))
             }) = Some s'"
      and mat: "mat = materialize"
    show "grown lang source E (?pre target link s) s s'"
    proof (cases "lk_node link = target")
      case True
      then show ?thesis using eq by simp
    next
      case False
      obtain t ok where t: "tf_spec_unroll mem target s = (t, ok)" by fastforce
      have gt: "grown lang source E (?pre target link s) s t" by (rule unroll_grown(1) [OF t])
      show ?thesis
      proof (cases ok)
        case False
        then show ?thesis using eq \<open>lk_node link \<noteq> target\<close> t gt by simp
      next
        case True
        let ?links = "zip [0..<sn_link_count (sp_nodes t ! target)] (node_links t target)"
        obtain u place where u: "place_link materialize link ?links t = Some (u, place)"
          using eq \<open>lk_node link \<noteq> target\<close> t True mat by (cases "place_link materialize link ?links t") auto
        have rest: "(case place of
                  Drop \<Rightarrow> Some u
                | Replace i \<Rightarrow>
                    let at = sn_first_link (sp_nodes u ! target) + i;
                        s = u\<lparr>sp_links := (sp_links u)[at := (sp_links u ! at)\<lparr>lk_tree := lk_tree link\<rparr>]\<rparr>
                    in Some (update_node target (\<lambda>n. n\<lparr>sn_precedence := link_precedence s link\<rparr>) s)
                | Below existing \<Rightarrow> do {
                    s \<leftarrow> fold_opt (add mem materialize existing) (node_links u (lk_node link)) u;
                    Some (if sp_failed s then s else raise_precedence target link s)
                  }
                | Append \<Rightarrow> Some (append_link mem target link u)) = Some s'"
          using eq \<open>lk_node link \<noteq> target\<close> t True mat u by simp
        have gu: "grown lang source E (?pre target link s) s u"
          by (rule grown_trans [OF gt place_link_grown(1) [OF u, where Q = True]]) simp
        have lk: "link_ok lang source E u target link \<and> target < length (sp_nodes u)"
          if "?pre target link s" "graph_grows s u"
          using that link_ok_grows [OF that(2)] node_grows(1) [OF that(2)] by blast
        show ?thesis
        proof (cases place)
          case Drop
          then show ?thesis using rest gu by simp
        next
          case Append
          then have "s' = append_link mem target link u" using rest by simp
          then show ?thesis
            using grown_trans [OF gu append_link_grown [of lang source E target u link mem]] lk by blast
        next
          case (Replace i)
          let ?u = "u\<lparr>sp_links := (sp_links u)[sn_first_link (sp_nodes u ! target) + i :=
            (sp_links u ! (sn_first_link (sp_nodes u ! target) + i))\<lparr>lk_tree := lk_tree link\<rparr>]\<rparr>"
          obtain l where l: "(i, l) \<in> set ?links" "lk_node l = lk_node link"
            using place_link_grown(2) [OF u Replace] by blast
          have "grown lang source E (?pre target link s) s ?u"
            unfolding grown_def
          proof (intro impI conjI)
            assume "\<not> sp_failed ?u"
            then have nf: "\<not> sp_failed u" by simp
            note g = grownD [OF gu nf]
            show "\<not> sp_failed s" "frame s ?u" using g by simp_all
            assume *: "spec_inv lang source E s \<and> ?pre target link s"
            have nt: "\<not> sp_failed t"
              by (rule grownD(1) [OF place_link_grown(1) [OF u, where Q = True] nf])
            have inv_t: "spec_inv lang source E t" using grownD(3) [OF gt nt] * by blast
            have inv_u: "spec_inv lang source E u" "graph_grows s u" using g(3,4) * by blast+
            have same: "sp_nodes u = sp_nodes t \<and> sp_links u = sp_links t" by (rule place_link_links [OF u nf inv_t])
            then have "node_links u target = node_links t target" by (simp add: node_links_def)
            then have "i < sn_link_count (sp_nodes u ! target)" "lk_node (node_links u target ! i) = lk_node link"
              using l same by (auto simp: in_set_zip)
            then show "spec_inv lang source E ?u" "graph_grows s ?u"
              using replace_link_inv [OF inv_u(1)] lk * inv_u(2) graph_grows_trans by blast+
          qed
          moreover have "s' = update_node target (\<lambda>n. n\<lparr>sn_precedence := link_precedence ?u link\<rparr>) ?u"
            using rest Replace by (simp add: Let_def)
          moreover have "grown lang source E True ?u (update_node target (\<lambda>n. n\<lparr>sn_precedence := link_precedence ?u link\<rparr>) ?u)"
            using precedence_inv by (auto simp: grown_def)
          ultimately show ?thesis using grown_trans by blast
        next
          case (Below e)
          obtain v where v: "fold_opt (add mem materialize e) (node_links u (lk_node link)) u = Some v"
            and s': "s' = (if sp_failed v then v else raise_precedence target link v)"
            using rest Below by (auto simp: bind_eq_Some_conv)
          obtain i l where l: "(i, l) \<in> set ?links" "lk_node l = e"
            and place: "sn_state (sp_nodes u ! e) = sn_state (sp_nodes u ! lk_node link)"
              "sn_byte (sp_nodes u ! e) = sn_byte (sp_nodes u ! lk_node link)"
            using place_link_grown(3) [OF u Below] by blast
          have "grown lang source E (\<forall>l \<in> set (node_links u (lk_node link)). ?pre e l u) u v"
          proof (rule fold_opt_grown [OF v])
            show "grown lang source E (?pre e x a) a b" if "add mem materialize e x a = Some b" for x a b
              using IH [OF that] by simp
            show "?pre e x b" if "?pre e x a" "graph_grows a b" for x a b
              using that link_ok_grows [OF that(2)] node_grows(1) [OF that(2)] by blast
          qed
          then have "grown lang source E (?pre target link s) s v"
          proof (rule grown_trans [OF gu])
            assume nf: "\<not> sp_failed u" and *: "spec_inv lang source E s" "?pre target link s"
              and inv_u: "spec_inv lang source E u" "graph_grows s u"
            have nt: "\<not> sp_failed t"
              by (rule grownD(1) [OF place_link_grown(1) [OF u, where Q = True] nf])
            have inv_t: "spec_inv lang source E t" using grownD(3) [OF gt nt *(1)] *(2) by blast
            have same: "sp_nodes u = sp_nodes t \<and> sp_links u = sp_links t" by (rule place_link_links [OF u nf inv_t])
            have "l \<in> set (node_links u target)"
              using l(1) same by (auto simp: node_links_def dest: set_zip_rightD)
            then have "link_ok lang source E u target l"
              using spec_inv_node(3) [OF inv_u(1)] lk [OF *(2) inv_u(2)] *(2) by blast
            then have e: "e < length (sp_nodes u)" "e \<notin> E" using link_ok_below [of lang source E u target l] l(2) by simp_all
            have k: "lk_node link < length (sp_nodes u)" "lk_node link \<notin> E"
              using link_ok_below [of lang source E u target link] lk [OF *(2) inv_u(2)] by simp_all
            show "\<forall>l \<in> set (node_links u (lk_node link)). ?pre e l u"
              using e link_ok_place [OF inv_u(1) spec_inv_node(3) [OF inv_u(1) k] k(1) e(1) place] by blast
          qed
          then have "grown lang source E (?pre target link s) s (raise_precedence target link v)"
            by (rule grown_trans [OF _ raise_grown [where Q = True]]) simp
          then show ?thesis using s' \<open>grown lang source E (?pre target link s) s v\<close> by simp
        qed
      qed
    qed
  qed
  then show ?thesis by simp
qed

lemma absorb_grown:
  assumes "tf_spec_absorb mem materialize e k s = Some s'"
  shows "grown lang source E (same_place E s e k) s s'"
proof -
  have "grown lang source E (\<forall>l \<in> set (node_links s k). e < length (sp_nodes s) \<and> e \<notin> E \<and> link_ok lang source E s e l) s s'"
  proof (rule fold_opt_grown)
    show "fold_opt (tf_spec_add_link mem materialize e) (node_links s k) s = Some s'"
      using assms by (simp add: tf_spec_absorb_def)
    show "grown lang source E (e < length (sp_nodes a) \<and> e \<notin> E \<and> link_ok lang source E a e x) a b"
      if "tf_spec_add_link mem materialize e x a = Some b" for x a b
      by (rule add_link_grown [OF that])
    show "e < length (sp_nodes b) \<and> e \<notin> E \<and> link_ok lang source E b e x"
      if "e < length (sp_nodes a) \<and> e \<notin> E \<and> link_ok lang source E a e x" "graph_grows a b" for x a b
      using that link_ok_grows [OF that(2)] node_grows(1) [OF that(2)] by blast
  qed
  then show ?thesis
    unfolding grown_def same_place_def
    using link_ok_place [OF _ spec_inv_node(3)] by blast
qed

lemma merge_cases:
  assumes "tf_spec_merge mem materialize a b s = Some (s', merged)"
  obtains (apart) "\<not> merged" and "s' = s"
    | (merged) t where "merged" and "\<not> hd_halted (sp_heads s ! a)" and "\<not> hd_halted (sp_heads s ! b)"
      and "sn_state (sp_nodes s ! hd_node (sp_heads s ! a)) = sn_state (sp_nodes s ! hd_node (sp_heads s ! b))"
      and "sn_byte (sp_nodes s ! hd_node (sp_heads s ! a)) = sn_byte (sp_nodes s ! hd_node (sp_heads s ! b))"
      and "\<And>lang source E. grown lang source E (same_place E s (hd_node (sp_heads s ! a)) (hd_node (sp_heads s ! b))) s t"
      and "s' = tf_spec_remove_head b t"
proof (cases "merged")
  case True
  with assms obtain t where t: "tf_spec_absorb mem materialize (hd_node (sp_heads s ! a)) (hd_node (sp_heads s ! b)) s = Some t"
    "s' = tf_spec_remove_head b t"
    and "\<not> hd_halted (sp_heads s ! a)" "\<not> hd_halted (sp_heads s ! b)"
      "sn_state (sp_nodes s ! hd_node (sp_heads s ! a)) = sn_state (sp_nodes s ! hd_node (sp_heads s ! b))"
      "sn_byte (sp_nodes s ! hd_node (sp_heads s ! a)) = sn_byte (sp_nodes s ! hd_node (sp_heads s ! b))"
    by (auto simp: tf_spec_merge_def Let_def bind_eq_Some_conv split: if_splits)
  with merged [OF True, of t] absorb_grown [OF t(1)] show ?thesis by blast
next
  case False
  then show ?thesis
    using assms apart by (auto simp: tf_spec_merge_def Let_def bind_eq_Some_conv split: if_splits)
qed

lemma prefer_loop_grown:
  assumes "prefer_loop mem materialize pairs s = Some (s', r)"
  shows "grown lang source E Q s s'"
proof -
  have "materialize = materialize \<longrightarrow> grown lang source E Q s (fst (s', r))"
  proof (rule prefer_loop.raw_induct [where P = "\<lambda>mem mat pairs s r. mat = materialize \<longrightarrow>
      grown lang source E Q s (fst r)", OF _ assms], intro impI)
    fix loop mem mat pairs s r
    assume IH: "\<And>mem mat pairs s r. loop mem mat pairs s = Some r \<Longrightarrow> mat = materialize \<longrightarrow> grown lang source E Q s (fst r)"
      and eq: "(case pairs of
         [] \<Rightarrow> Some (s, False)
       | (left, right) # rest \<Rightarrow>
         if left = right then loop mem mat rest s
         else
           let x = sp_trees s ! left; y = sp_trees s ! right
           in if tok_symbol (tr_token x) \<noteq> tok_symbol (tr_token y)
              then Some (s, tok_symbol (tr_token y) < tok_symbol (tr_token x))
              else do {
                (s, ok) \<leftarrow> (if tr_opaque x \<or> tr_opaque y then mat s else Some (s, True));
                if \<not> ok then Some (s, False)
                else
                  let x = sp_trees s ! left; y = sp_trees s ! right
                  in if tr_child_count x \<noteq> tr_child_count y then Some (s, tr_child_count y < tr_child_count x)
                     else
                       let (s, ok) = tf_spec_reserve mem A_spec_scratch (2 * length rest + 2 * tr_child_count x) s
                       in if \<not> ok then Some (s, False)
                          else loop mem mat
                                 (map (\<lambda>i. (sp_children s ! (tr_first_child x + i), sp_children s ! (tr_first_child y + i)))
                                    [0..<tr_child_count x] @ rest) s
              }) = Some r"
      and mat: "mat = materialize"
    note IH = IH [where mat = materialize, simplified]
    show "grown lang source E Q s (fst r)"
    proof (cases pairs)
      case Nil
      then show ?thesis using eq by auto
    next
      case (Cons p rest)
      obtain left right where p: "p = (left, right)" by (cases p)
      show ?thesis
      proof (cases "left = right \<or> tok_symbol (tr_token (sp_trees s ! left)) \<noteq> tok_symbol (tr_token (sp_trees s ! right))")
        case True
        then show ?thesis using eq Cons p mat IH by (auto simp: Let_def split: if_splits)
      next
        case False
        let ?b = "tr_opaque (sp_trees s ! left) \<or> tr_opaque (sp_trees s ! right)"
        obtain t ok where t: "(if ?b then materialize s else Some (s, True)) = Some (t, ok)"
          using eq Cons p mat False by (cases "if ?b then materialize s else Some (s, True)") auto
        note g = materialize_if_grown(1) [OF t, where lang = lang and source = source and E = E and Q = Q]
        obtain u ok' where u: "tf_spec_reserve mem A_spec_scratch (2 * length rest + 2 * tr_child_count (sp_trees t ! left)) t = (u, ok')"
          by fastforce
        have "grown lang source E Q s u"
          by (rule grown_trans [OF g reserve_grown(1) [OF u, where Q = True]]) simp
        moreover have "r = (t, False) \<or> fst r = t \<or> r = (u, False) \<or> (\<exists>ps. loop mem materialize ps u = Some r)"
        proof (cases "\<not> ok \<or> tr_child_count (sp_trees t ! left) \<noteq> tr_child_count (sp_trees t ! right)")
          case True
          then show ?thesis using eq Cons p mat False t by (auto split: if_splits)
        next
          case same: False
          then show ?thesis using eq Cons p mat False t u by (cases ok') (auto simp: Let_def)
        qed
        ultimately show ?thesis
          using g IH grown_trans [where R = Q and Q = Q and s = s and t = u] by fastforce
      qed
    qed
  qed
  then show ?thesis by simp
qed

lemma prefer_grown:
  assumes "tf_spec_prefer mem materialize a b s = Some (s', r)"
  shows "grown lang source E Q s s'"
proof -
  obtain t ok where t: "tf_spec_reserve mem A_spec_scratch 2 s = (t, ok)" by fastforce
  then have "s' = s \<or> s' = t \<or> prefer_loop mem materialize [(a, b)] t = Some (s', r)"
    using assms by (auto simp: tf_spec_prefer_def split: if_splits)
  then show ?thesis
    using reserve_grown(1) [OF t, where Q = Q and lang = lang and source = source and E = E] prefer_loop_grown
      grown_trans [where R = Q and Q = Q and s = s and t = t] by (metis grown_refl)
qed

end

end
