(* ===== verification/Spec_Pop.thy ===== *)
theory Spec_Pop
  imports Spec_Merge
begin

text \<open>
  Popping: every slice is the run of trees along a path down from the version, and the slices of
  one predecessor stand together. What is known of a path is an argument: anything that is kept
  by a step down a link.
\<close>

section \<open>Paths\<close>

definition walks :: "TFLanguage \<Rightarrow> u8 list \<Rightarrow> nat set \<Rightarrow> nat \<Rightarrow> (TFSpec \<Rightarrow> nat \<Rightarrow> nat list \<Rightarrow> bool) \<Rightarrow> bool" where
  "walks lang source E goal P \<longleftrightarrow>
     (\<forall>s n path l. spec_inv lang source E s \<longrightarrow> P s n path \<longrightarrow> l \<in> set (node_links s n) \<longrightarrow> P s (lk_node l) (lk_tree l # path)) \<and>
     (\<forall>s s' n path. P s n path \<longrightarrow> graph_grows s s' \<longrightarrow>
        (goal = TF_SPEC_NONE \<longrightarrow> sp_nodes s' = sp_nodes s \<and> sp_links s' = sp_links s) \<longrightarrow> P s' n path) \<and>
     (\<forall>s n path. P s n path \<longrightarrow> n < length (sp_nodes s))"

lemma walks_step: "walks lang source E goal P \<Longrightarrow> spec_inv lang source E s \<Longrightarrow> P s n path \<Longrightarrow> l \<in> set (node_links s n) \<Longrightarrow>
    P s (lk_node l) (lk_tree l # path)"
  by (simp add: walks_def)

lemma walks_node: "walks lang source E goal P \<Longrightarrow> P s n path \<Longrightarrow> n < length (sp_nodes s)"
  unfolding walks_def by blast

text \<open>A step of a pop: the graph grows, and when all of the stack is popped its nodes stay.\<close>

abbreviation pop_view :: "TFSpec \<Rightarrow> TFSpec" where
  "pop_view s \<equiv> s\<lparr>sp_heads := [], sp_slices := [], sp_edges := []\<rparr>"

definition pop_step :: "TFLanguage \<Rightarrow> u8 list \<Rightarrow> nat set \<Rightarrow> nat \<Rightarrow> TFSpec \<Rightarrow> TFSpec \<Rightarrow> bool" where
  "pop_step lang source E goal s s' \<longleftrightarrow> \<not> sp_failed s \<and> spec_inv lang source E s \<and> spec_inv lang source E s' \<and>
     frame (pop_view s) (pop_view s') \<and> graph_grows s s' \<and>
     (goal = TF_SPEC_NONE \<longrightarrow> sp_nodes s' = sp_nodes s \<and> sp_links s' = sp_links s)"

lemma walks_grow: "walks lang source E goal P \<Longrightarrow> P s n path \<Longrightarrow> pop_step lang source E goal s s' \<Longrightarrow> P s' n path"
  unfolding walks_def pop_step_def by blast

lemma pop_step_refl: "\<not> sp_failed s \<Longrightarrow> spec_inv lang source E s \<Longrightarrow> pop_step lang source E goal s s"
  by (simp add: pop_step_def)

lemma pop_step_trans: "pop_step lang source E goal s t \<Longrightarrow> pop_step lang source E goal t u \<Longrightarrow> pop_step lang source E goal s u"
  unfolding pop_step_def by (auto intro: frame_trans graph_grows_trans)

lemma pop_step_inv: "pop_step lang source E goal s s' \<Longrightarrow> spec_inv lang source E s'"
  by (simp add: pop_step_def)

lemma pop_step_capacity: "\<not> sp_failed s \<Longrightarrow> spec_inv lang source E s \<Longrightarrow> pop_step lang source E goal s (s\<lparr>sp_capacity := c\<rparr>)"
  by (simp add: pop_step_def frame_def)

text \<open>Unrolling on the way, which only a pop of a number of trees does.\<close>

lemma unroll_children: "tf_spec_unroll mem node s = (s', ok) \<Longrightarrow> ok \<Longrightarrow> sp_children s' = sp_children s"
proof -
  assume u: "tf_spec_unroll mem node s = (s', ok)" and ok
  have eq: "s' = (if node = sp_frontier s \<and> sp_prefix_left s \<noteq> 0 then tf_spec_extend mem s else s)" "\<not> sp_failed s'"
    using u \<open>ok\<close> by (auto simp: tf_spec_unroll_def Let_def)
  show ?thesis
  proof (cases "node = sp_frontier s \<and> sp_prefix_left s \<noteq> 0")
    case True
    then have s': "s' = tf_spec_extend mem s" "\<not> sp_failed (tf_spec_extend mem s)" using eq by simp_all
    from s'(2) obtain c where "tf_spec_extend mem s =
      (let s = (unrolled s)\<lparr>sp_capacity := c\<rparr>
       in if sp_materialized s \<and> sp_captured s then tf_spec_resolve (length (sp_prefix_tree s) - 1) s else s)"
      by (rule extend_Ok)
    then show ?thesis unfolding s'(1) by (simp add: tf_spec_resolve_def Let_def unrolled_sel)
  qed (use eq in auto)
qed

lemma pop_unroll:
  assumes "(if b then tf_spec_unroll mem node s else (s, True)) = (s', True)"
    and "spec_inv lang source E s" and "\<not> sp_failed s" and "b \<Longrightarrow> goal \<noteq> TF_SPEC_NONE"
  shows "pop_step lang source E goal s s'" and "sp_heads s' = sp_heads s" and "sp_slices s' = sp_slices s"
    and "sp_edges s' = sp_edges s" and "sp_children s' = sp_children s" and "\<not> sp_failed s'"
proof -
  have "grown lang source E True s s' \<and> \<not> sp_failed s' \<and> sp_children s' = sp_children s \<and> (goal = TF_SPEC_NONE \<longrightarrow> s' = s)"
    using assms unroll_grown [of mem node s s' True] unroll_children [of mem node s s' True] by (auto split: if_splits)
  then show "pop_step lang source E goal s s'" "sp_heads s' = sp_heads s" "sp_slices s' = sp_slices s"
    "sp_edges s' = sp_edges s" "sp_children s' = sp_children s" "\<not> sp_failed s'"
    using assms(2,3) by (auto simp: grown_def pop_step_def frame_def)
qed

section \<open>One path\<close>

lemma pop_chain_ok:
  assumes "pop_chain mem goal node count walked s = Some (s', r)" and "walks lang source E goal P"
    and "spec_inv lang source E s" and "\<not> sp_failed s" and "P s node walked" and "\<not> sp_failed s'"
  shows "pop_step lang source E goal s s' \<and> sp_heads s' = sp_heads s \<and> sp_slices s' = sp_slices s \<and>
    sp_children s' = sp_children s \<and> sp_edges s' = sp_edges s \<and>
    (case r of Chain n path \<Rightarrow> P s' n path \<and> (goal = TF_SPEC_NONE \<longrightarrow> sn_link_count (sp_nodes s' ! n) = 0)
     | Forked \<Rightarrow> True | No_Memory \<Rightarrow> False)"
proof -
  have "spec_inv lang source E s \<longrightarrow> \<not> sp_failed s \<longrightarrow> P s node walked \<longrightarrow> \<not> sp_failed (fst (s', r)) \<longrightarrow> goal = goal \<longrightarrow>
    pop_step lang source E goal s (fst (s', r)) \<and> sp_heads (fst (s', r)) = sp_heads s \<and> sp_slices (fst (s', r)) = sp_slices s \<and>
    sp_children (fst (s', r)) = sp_children s \<and> sp_edges (fst (s', r)) = sp_edges s \<and>
    (case snd (s', r) of Chain n path \<Rightarrow> P (fst (s', r)) n path \<and> (goal = TF_SPEC_NONE \<longrightarrow> sn_link_count (sp_nodes (fst (s', r)) ! n) = 0)
     | Forked \<Rightarrow> True | No_Memory \<Rightarrow> False)"
  proof (rule pop_chain.raw_induct [where P = "\<lambda>mem g node count walked s r.
      spec_inv lang source E s \<longrightarrow> \<not> sp_failed s \<longrightarrow> P s node walked \<longrightarrow> \<not> sp_failed (fst r) \<longrightarrow> g = goal \<longrightarrow>
      pop_step lang source E goal s (fst r) \<and> sp_heads (fst r) = sp_heads s \<and> sp_slices (fst r) = sp_slices s \<and>
      sp_children (fst r) = sp_children s \<and> sp_edges (fst r) = sp_edges s \<and>
      (case snd r of Chain n path \<Rightarrow> P (fst r) n path \<and> (goal = TF_SPEC_NONE \<longrightarrow> sn_link_count (sp_nodes (fst r) ! n) = 0)
       | Forked \<Rightarrow> True | No_Memory \<Rightarrow> False)", OF _ assms(1)], intro impI)
    fix chain mem g node count walked s and r :: "TFSpec \<times> chain_end"
    let ?concl = "\<lambda>s r. pop_step lang source E goal s (fst r) \<and> sp_heads (fst r) = sp_heads s \<and> sp_slices (fst r) = sp_slices s \<and>
      sp_children (fst r) = sp_children s \<and> sp_edges (fst r) = sp_edges s \<and>
      (case snd r of Chain n path \<Rightarrow> P (fst r) n path \<and> (goal = TF_SPEC_NONE \<longrightarrow> sn_link_count (sp_nodes (fst r) ! n) = 0)
       | Forked \<Rightarrow> True | No_Memory \<Rightarrow> False)"
    assume IH: "\<And>mem g node count walked s r. chain mem g node count walked s = Some r \<Longrightarrow>
        spec_inv lang source E s \<longrightarrow> \<not> sp_failed s \<longrightarrow> P s node walked \<longrightarrow> \<not> sp_failed (fst r) \<longrightarrow> g = goal \<longrightarrow> ?concl s r"
      and eq: "(if chain_done g (sp_nodes s ! node) count then Some (s, Chain node walked)
        else let (s, ok) = (if g \<noteq> TF_SPEC_NONE then tf_spec_unroll mem node s else (s, True))
          in if \<not> ok then Some (s, No_Memory)
             else if sn_link_count (sp_nodes s ! node) \<noteq> 1 then Some (s, Forked)
             else
               let link = sp_links s ! sn_first_link (sp_nodes s ! node);
                   count = (if tr_extra (sp_trees s ! lk_tree link) then count else count + 1)
               in chain mem g (lk_node link) count (lk_tree link # walked) s) = Some r"
      and pre: "spec_inv lang source E s" "\<not> sp_failed s" "P s node walked" "\<not> sp_failed (fst r)" "g = goal"
    show "?concl s r"
    proof (cases "chain_done g (sp_nodes s ! node) count")
      case True
      then show ?thesis
        using eq pre by (auto simp: pop_step_refl chain_done_def split: if_splits)
    next
      case False
      obtain t ok where t: "(if goal \<noteq> TF_SPEC_NONE then tf_spec_unroll mem node s else (s, True)) = (t, ok)" by fastforce
      show ?thesis
      proof (cases ok)
        case no: False
        then have "r = (t, No_Memory)" using eq False t pre(5) by simp
        moreover have "sp_failed t"
          using t no unroll_grown(2) [of mem node s t ok] by (auto split: if_splits)
        ultimately show ?thesis using pre(4) by simp
      next
        case True
        note u = pop_unroll [OF t [unfolded True [THEN eqTrueI]] pre(1,2)]
        have Pt: "P t node walked" by (rule walks_grow [OF assms(2) pre(3) u(1)])
        show ?thesis
        proof (cases "sn_link_count (sp_nodes t ! node) = 1")
          case fork: False
          then have "r = (t, Forked)" using eq False t True pre(5) by simp
          then show ?thesis using u by simp
        next
          case one: True
          let ?link = "sp_links t ! sn_first_link (sp_nodes t ! node)"
          have inv_t: "spec_inv lang source E t" using u(1) by (rule pop_step_inv)
          then have "arena_ok t" by (simp add: spec_inv_def)
          from length_node_links [OF this walks_node [OF assms(2) Pt]]
          have len: "0 < length (node_links t node)" using one by simp
          have link: "?link \<in> set (node_links t node)"
            using nth_node_links [OF len] nth_mem [OF len] by simp
          have onward: "chain mem goal (lk_node ?link) (if tr_extra (sp_trees t ! lk_tree ?link) then count else count + 1)
              (lk_tree ?link # walked) t = Some r"
            using eq False t True one pre(5) by (simp add: Let_def)
          have "?concl t r"
            using IH [OF onward] inv_t u(6) walks_step [OF assms(2) inv_t Pt link] pre(4) by simp
          then show ?thesis using u pop_step_trans [OF u(1)] by auto
        qed
      qed
    qed
  qed
  then show ?thesis using assms(3-6) unfolding fst_conv snd_conv by blast
qed

end
