(* ===== verification/Spec_Slices.thy ===== *)
theory Spec_Slices
  imports Spec_Pop
begin

text \<open>
  The slices a pop leaves: one new version for each predecessor reached, and the paths that
  reach it in a row.
\<close>

section \<open>Slices by predecessor\<close>

abbreviation new_head :: "nat \<Rightarrow> TFSpecHead" where
  "new_head node \<equiv> \<lparr>hd_node = node, hd_halted = False, hd_errored = False\<rparr>"

definition slice_ok :: "(TFSpec \<Rightarrow> nat \<Rightarrow> nat list \<Rightarrow> bool) \<Rightarrow> TFSpec \<Rightarrow> nat \<Rightarrow> TFSpecSlice \<Rightarrow> bool" where
  "slice_ok P s base sl \<longleftrightarrow> sl_first sl + sl_count sl \<le> length (sp_children s) \<and>
     P s base (take (sl_count sl) (drop (sl_first sl) (sp_children s)))"

definition sliced :: "(TFSpec \<Rightarrow> nat \<Rightarrow> nat list \<Rightarrow> bool) \<Rightarrow> nat \<Rightarrow> TFSpecHead list \<Rightarrow> nat list \<Rightarrow> TFSpecSlice list list \<Rightarrow> TFSpec \<Rightarrow> bool" where
  "sliced P goal heads bases paths s \<longleftrightarrow>
     sp_heads s = heads @ map new_head bases \<and> sp_slices s = concat paths \<and> length paths = length bases \<and> distinct bases \<and>
     (\<forall>i < length bases. paths ! i \<noteq> [] \<and> (\<forall>sl \<in> set (paths ! i). sl_version sl = length heads + i \<and> slice_ok P s (bases ! i) sl)) \<and>
     (goal = TF_SPEC_NONE \<longrightarrow> (\<forall>b \<in> set bases. sn_link_count (sp_nodes s ! b) = 0))"

lemma slice_ok_grow:
  assumes "walks lang source E goal P" and "pop_step lang source E goal s s'" and "sp_children s' = sp_children s @ added"
    and "slice_ok P s base sl"
  shows "slice_ok P s' base sl"
  using assms walks_grow [OF assms(1) _ assms(2)] by (auto simp: slice_ok_def)

lemma sliced_grow:
  assumes "sliced P goal heads bases paths s" and "walks lang source E goal P" and "pop_step lang source E goal s s'"
    and "sp_children s' = sp_children s @ added" and "sp_heads s' = sp_heads s" and "sp_slices s' = sp_slices s"
  shows "sliced P goal heads bases paths s'"
  using assms(1,3,5,6) slice_ok_grow [OF assms(2-4)] by (auto simp: sliced_def pop_step_def)

text \<open>Where an index of the slices lies.\<close>

lemma concat_index:
  assumes "j < length (concat xss)"
  obtains i k where "i < length xss" and "k < length (xss ! i)" and "concat xss ! j = xss ! i ! k"
    and "j = length (concat (take i xss)) + k"
  using assms
proof (induction xss arbitrary: j thesis)
  case (Cons xs xss)
  show ?case
  proof (cases "j < length xs")
    case True
    then show ?thesis using Cons.prems(1) [of 0 j] by (simp add: nth_append)
  next
    case False
    show ?thesis
    proof (rule Cons.IH [of "j - length xs"])
      fix i k assume "i < length xss" "k < length (xss ! i)" "concat xss ! (j - length xs) = xss ! i ! k"
        "j - length xs = length (concat (take i xss)) + k"
      then show thesis using Cons.prems(1) [of "Suc i" k] False by (simp add: nth_append)
    qed (use Cons.prems(2) False in auto)
  qed
qed simp

lemma concat_take_less:
  "i < length xss \<Longrightarrow> length (concat (take (Suc i) xss)) = length (concat (take i xss)) + length (xss ! i)"
  by (simp add: take_Suc_conv_app_nth)

lemma concat_at:
  assumes "i < length xss" and "k < length (xss ! i)"
  shows "length (concat (take i xss)) + k < length (concat xss)"
    and "concat xss ! (length (concat (take i xss)) + k) = xss ! i ! k"
proof -
  have "concat xss = concat (take i xss) @ xss ! i @ concat (drop (Suc i) xss)"
    using id_take_nth_drop [OF assms(1)] by (metis concat.simps(2) concat_append)
  then show "length (concat (take i xss)) + k < length (concat xss)"
    "concat xss ! (length (concat (take i xss)) + k) = xss ! i ! k"
    using assms(2) by (simp_all add: nth_append)
qed

lemma concat_insert:
  assumes "i < length xss"
  shows "take (length (concat (take (Suc i) xss))) (concat xss) @ x # drop (length (concat (take (Suc i) xss))) (concat xss)
    = concat (xss[i := xss ! i @ [x]])"
proof -
  have split: "concat xss = concat (take (Suc i) xss) @ concat (drop (Suc i) xss)"
    by (metis append_take_drop_id concat_append)
  have "xss[i := xss ! i @ [x]] = take i xss @ (xss ! i @ [x]) # drop (Suc i) xss"
    using assms by (rule upd_conv_take_nth_drop)
  moreover have "concat (take (Suc i) xss) = concat (take i xss) @ xss ! i"
    using assms by (simp add: take_Suc_conv_app_nth)
  ultimately show ?thesis by (simp add: split)
qed

lemma filter_last:
  assumes "filter Q [0..<n] = js" and "js \<noteq> []"
  shows "last js < n" and "Q (last js)" and "\<And>j. last js < j \<Longrightarrow> j < n \<Longrightarrow> \<not> Q j"
proof -
  have "last js \<in> set (filter Q [0..<n])" using assms by simp
  then show "last js < n" "Q (last js)" by auto
  fix j assume j: "last js < j" "j < n"
  show "\<not> Q j"
  proof
    assume "Q j"
    then have "j \<in> set js" using j assms(1) by auto
    moreover have "sorted js" using assms(1) by (metis sorted_filter sorted_upt map_ident)
    ultimately have "j \<le> last js"
      using assms(2) by (metis append_butlast_last_id sorted_append in_set_conv_decomp list.set_intros(1) Un_iff set_append empty_iff set_ConsD empty_set order.refl)
    then show False using j by simp
  qed
qed

text \<open>The place of a path: behind those that reached the same predecessor.\<close>

lemma slice_slot_cases:
  assumes "sliced P goal heads bases paths s"
  obtains (fresh) "slice_slot s node = None" and "node \<notin> set bases"
    | (again) i where "i < length bases" and "bases ! i = node"
      and "slice_slot s node = Some (length (concat (take (Suc i) paths)) - 1)"
      and "sl_version (concat paths ! (length (concat (take (Suc i) paths)) - 1)) = length heads + i"
      and "0 < length (concat (take (Suc i) paths))"
proof -
  let ?Q = "\<lambda>j. hd_node (sp_heads s ! sl_version (sp_slices s ! j)) = node"
  have len: "length paths = length bases" and slices: "sp_slices s = concat paths"
    using assms by (simp_all add: sliced_def)
  have at: "hd_node (sp_heads s ! sl_version sl) = bases ! i \<and> sl_version sl = length heads + i"
    if "i < length bases" "sl \<in> set (paths ! i)" for i sl
    using assms that by (auto simp: sliced_def nth_append)
  show ?thesis
  proof (cases "filter ?Q [0..<length (sp_slices s)]")
    case Nil
    have "node \<notin> set bases"
    proof
      assume "node \<in> set bases"
      then obtain i where i: "i < length bases" "bases ! i = node" by (auto simp: in_set_conv_nth)
      then have ne: "0 < length (paths ! i)" using assms by (simp add: sliced_def)
      have "?Q (length (concat (take i paths)) + 0)"
        using concat_at(2) [of i paths 0] i ne len conjunct1 [OF at [OF i(1), of "paths ! i ! 0"]] by (simp add: slices)
      moreover have "length (concat (take i paths)) + 0 < length (sp_slices s)"
        using concat_at(1) [of i paths 0] i ne len by (simp add: slices)
      ultimately show False using Nil by (auto simp: filter_empty_conv)
    qed
    then show ?thesis using fresh Nil by (simp add: slice_slot_def)
  next
    case (Cons a as)
    define j where "j = last (a # as)"
    have j: "j < length (concat paths)" "?Q j" "\<And>m. j < m \<Longrightarrow> m < length (concat paths) \<Longrightarrow> \<not> ?Q m"
      using filter_last [OF Cons] by (auto simp: j_def slices)
    obtain i k where ik: "i < length paths" "k < length (paths ! i)" "concat paths ! j = paths ! i ! k"
      "j = length (concat (take i paths)) + k"
      using concat_index [OF j(1)] by metis
    have i: "i < length bases" using ik(1) len by simp
    have base: "bases ! i = node" using j(2) conjunct1 [OF at [OF i, of "paths ! i ! k"]] ik(2,3) by (simp add: slices)
    have "Suc k = length (paths ! i)"
    proof (rule ccontr)
      assume "Suc k \<noteq> length (paths ! i)"
      then have k: "Suc k < length (paths ! i)" using ik(2) by simp
      note n = concat_at [OF ik(1) k]
      have "?Q (length (concat (take i paths)) + Suc k)"
        using n(2) conjunct1 [OF at [OF i, of "paths ! i ! Suc k"]] k base by (simp add: slices)
      then show False using j(3) [OF _ n(1)] ik(4) by simp
    qed
    then have "length (concat (take (Suc i) paths)) = Suc j"
      using ik(4) concat_take_less [OF ik(1)] by simp
    then have "j = length (concat (take (Suc i) paths)) - 1" "0 < length (concat (take (Suc i) paths))"
      by (simp_all only: diff_Suc_1 zero_less_Suc)
    then show ?thesis
      using again [OF i base] Cons at [OF i, of "paths ! i ! k"] ik(2,3) j_def by (simp add: slice_slot_def)
  qed
qed

section \<open>Adding a slice\<close>

lemma sliced_again:
  assumes s: "sliced P goal heads bases paths s" and i: "i < length bases" and ok: "slice_ok P s (bases ! i) sl"
    and sl: "sl_version sl = length heads + i"
    and s': "s' = s\<lparr>sp_slices := take (length (concat (take (Suc i) paths))) (sp_slices s) @ sl #
      drop (length (concat (take (Suc i) paths))) (sp_slices s)\<rparr>" and P: "\<And>base sl. slice_ok P s' base sl = slice_ok P s base sl"
  shows "sliced P goal heads bases (paths[i := paths ! i @ [sl]]) s'"
proof -
  have "sp_slices s' = concat (paths[i := paths ! i @ [sl]])"
    using concat_insert [of i paths sl] i s by (simp add: s' sliced_def)
  then show ?thesis
    using s i ok sl P by (auto simp: sliced_def s' nth_list_update)
qed

lemma sliced_fresh:
  assumes s: "sliced P goal heads bases paths s" and base: "base \<notin> set bases" and ok: "slice_ok P s base sl"
    and goal: "goal = TF_SPEC_NONE \<Longrightarrow> sn_link_count (sp_nodes s ! base) = 0"
    and sl: "sl_version sl = length heads + length bases"
    and s': "s' = s\<lparr>sp_heads := sp_heads s @ [new_head base], sp_slices := sp_slices s @ [sl]\<rparr>"
    and P: "\<And>base sl. slice_ok P s' base sl = slice_ok P s base sl"
  shows "sliced P goal heads (bases @ [base]) (paths @ [[sl]]) s'"
  using assms by (auto simp: sliced_def nth_append less_Suc_eq)

text \<open>What is known of a path does not depend on the versions and slices.\<close>

definition graph_only :: "(TFSpec \<Rightarrow> nat \<Rightarrow> nat list \<Rightarrow> bool) \<Rightarrow> bool" where
  "graph_only P \<longleftrightarrow> (\<forall>s s' n path. sp_nodes s' = sp_nodes s \<longrightarrow> sp_links s' = sp_links s \<longrightarrow> sp_trees s' = sp_trees s \<longrightarrow>
     sp_children s' = sp_children s \<longrightarrow> sp_owner s' = sp_owner s \<longrightarrow> P s' n path = P s n path)"

lemma graph_only_slice:
  assumes "graph_only P" and "sp_nodes s' = sp_nodes s" and "sp_links s' = sp_links s" and "sp_trees s' = sp_trees s"
    and "sp_children s' = sp_children s" and "sp_owner s' = sp_owner s"
  shows "P s' n path = P s n path" and "slice_ok P s' base sl = slice_ok P s base sl"
  using assms unfolding graph_only_def slice_ok_def by metis+

lemma sliced_same:
  assumes "sliced P goal heads bases paths s" and "graph_only P" and "sp_nodes s' = sp_nodes s" and "sp_links s' = sp_links s"
    and "sp_trees s' = sp_trees s" and "sp_children s' = sp_children s" and "sp_owner s' = sp_owner s"
    and "sp_heads s' = sp_heads s" and "sp_slices s' = sp_slices s"
  shows "sliced P goal heads bases paths s'"
  using assms(1,3,8,9) unfolding sliced_def graph_only_slice(2) [OF assms(2-7)] by simp

text \<open>A chain of edges, from its last one.\<close>

inductive edge_path :: "TFSpecEdge list \<Rightarrow> nat \<Rightarrow> nat list \<Rightarrow> bool" for edges where
  path_none: "edge_path edges TF_SPEC_NONE []"
| path_edge: "edge < length edges \<Longrightarrow> edge \<noteq> TF_SPEC_NONE \<Longrightarrow> edge_path edges (ed_previous (edges ! edge)) path \<Longrightarrow>
    edge_path edges edge (ed_tree (edges ! edge) # path)"

lemma edge_path_trees: "edge_path edges edge path \<Longrightarrow> edge_trees edges edge = Some path"
  by (induction rule: edge_path.induct) (simp_all add: edge_trees.simps)

lemma edge_path_append: "edge_path edges edge path \<Longrightarrow> edge_path (edges @ new) edge path"
proof (induction rule: edge_path.induct)
  case (path_edge edge path)
  then show ?case using edge_path.path_edge [of edge "edges @ new" path] by (simp add: nth_append)
qed (rule path_none)

definition iterator_ok :: "(TFSpec \<Rightarrow> nat \<Rightarrow> nat list \<Rightarrow> bool) \<Rightarrow> TFSpec \<Rightarrow> TFSpecIterator \<Rightarrow> bool" where
  "iterator_ok P s it \<longleftrightarrow> (\<exists>path. edge_path (sp_edges s) (it_edge it) path \<and> P s (it_node it) path \<and> it_length it = length path)"

text \<open>The state of a pop: the slices so far, for some predecessors.\<close>

definition popping :: "(TFSpec \<Rightarrow> nat \<Rightarrow> nat list \<Rightarrow> bool) \<Rightarrow> nat \<Rightarrow> TFSpecHead list \<Rightarrow> TFSpec \<Rightarrow> bool" where
  "popping P goal heads s \<longleftrightarrow> (\<exists>bases paths. sliced P goal heads bases paths s)"

lemma pop_slice_ok:
  assumes run: "pop_slice mem current s = Some s'" "\<not> sp_failed s'" "\<not> sp_failed s" and inv: "spec_inv lang source E s"
    and walks: "walks lang source E goal P" "graph_only P"
    and pop: "popping P goal heads s" and it: "iterator_ok P s current"
    and goal: "goal = TF_SPEC_NONE \<Longrightarrow> sn_link_count (sp_nodes s ! it_node current) = 0"
  shows "pop_step lang source E goal s s'" and "popping P goal heads s'" and "sp_edges s' = sp_edges s"
    and "\<exists>added. sp_children s' = sp_children s @ added"
proof -
  obtain path where path: "edge_path (sp_edges s) (it_edge current) path" "P s (it_node current) path"
    "it_length current = length path"
    using it by (auto simp: iterator_ok_def)
  obtain bases paths where sl: "sliced P goal heads bases paths s" using pop by (auto simp: popping_def)
  obtain t ok where t: "tf_spec_reserve mem A_spec_children (length (sp_children s) + it_length current) s = (t, ok)" by fastforce
  have ok: ok using run t reserve_failed(1) [OF t] by (auto simp: pop_slice_def)
  obtain c where c: "t = s\<lparr>sp_capacity := c\<rparr>" using t ok by (metis reserve_True)
  obtain u ok' where u: "tf_spec_reserve mem A_spec_slices (length (sp_slices t) + 1) t = (u, ok')" by fastforce
  have ok': ok' using run t u ok reserve_failed(1) [OF u] by (auto simp: pop_slice_def)
  obtain d where d: "u = t\<lparr>sp_capacity := d\<rparr>" using u ok' by (metis reserve_True)
  define v where "v = s\<lparr>sp_capacity := d, sp_children := sp_children s @ path\<rparr>"
  have edges: "edge_trees (sp_edges u) (it_edge current) = Some path"
    using edge_path_trees [OF path(1)] by (simp add: d c)
  have v: "pop_step lang source E goal s v"
  proof -
    have g: "graph_grows s v"
      using forest_grows_append [of "sp_trees s" "sp_children s" "[]" path] by (simp add: graph_grows_def v_def)
    show ?thesis
      using spec_inv_forest [OF inv g] g run(3) inv by (simp add: pop_step_def v_def frame_def)
  qed
  have sl_v: "sliced P goal heads bases paths v"
    by (rule sliced_grow [OF sl walks(1) v, where added = path]) (simp_all add: v_def)
  have P_v: "P v (it_node current) path" by (rule walks_grow [OF walks(1) path(2) v])
  define new where "new version = \<lparr>sl_version = version, sl_first = length (sp_children s), sl_count = length path\<rparr>" for version
  have new_ok: "slice_ok P v (it_node current) (new version)" for version
    using P_v by (simp add: slice_ok_def new_def v_def)
  have nodes: "sp_nodes v = sp_nodes s" by (simp add: v_def)
  have v_eq: "u\<lparr>sp_children := sp_children s @ path\<rparr> = v" "sp_slices v = sp_slices s" by (simp_all add: v_def d c)
  have u_children: "sp_children u = sp_children s" by (simp add: d c)
  have body: "(case (case slice_slot v (it_node current) of
          Some j \<Rightarrow> (v, sl_version (sp_slices v ! j), j + 1)
        | None \<Rightarrow> (case tf_spec_head mem (it_node current) v of (s, w) \<Rightarrow> (s, w, length (sp_slices s)))) of
       (s, w, slot) \<Rightarrow> Some (if sp_failed s then s
                        else s\<lparr>sp_slices := take slot (sp_slices s) @ new w # drop slot (sp_slices s)\<rparr>)) = Some s'"
    using run(1) unfolding pop_slice_def Let_def t u prod.case
    by (simp only: ok ok' not_True_eq_False if_False edges Option.bind.simps prod.case v_eq u_children path(3) new_def)
  have failed: "\<not> sp_failed v" using run(3) by (simp add: v_def)
  have inv_v: "spec_inv lang source E v" using v by (rule pop_step_inv)
  have "pop_step lang source E goal v s' \<and> popping P goal heads s' \<and> sp_edges s' = sp_edges v \<and> sp_children s' = sp_children v"
    using sl_v
  proof (cases rule: slice_slot_cases [where node = "it_node current"])
    case fresh
    obtain w n where w: "tf_spec_head mem (it_node current) v = (w, n)" by fastforce
    have nf: "\<not> sp_failed w" using body fresh(1) w run(2) by auto
    obtain e where n: "n = length (sp_heads v)"
      and e: "w = v\<lparr>sp_heads := sp_heads v @ [new_head (it_node current)], sp_capacity := e\<rparr>"
      using head_Ok [OF w nf] by metis
    have s': "s' = v\<lparr>sp_heads := sp_heads v @ [new_head (it_node current)], sp_capacity := e, sp_slices := sp_slices v @ [new n]\<rparr>"
      using body fresh(1) w nf by (simp add: e)
    have "sliced P goal heads (bases @ [it_node current]) (paths @ [[new n]])
        (v\<lparr>sp_heads := sp_heads v @ [new_head (it_node current)], sp_slices := sp_slices v @ [new n]\<rparr>)"
    proof (rule sliced_fresh [OF sl_v fresh(2) new_ok])
      show "sl_version (new n) = length heads + length bases" using sl_v by (simp add: new_def n sliced_def)
    qed (use goal nodes graph_only_slice [OF walks(2)] in \<open>simp_all\<close>)
    then have "sliced P goal heads (bases @ [it_node current]) (paths @ [[new n]]) s'"
      by (rule sliced_same [OF _ walks(2)]) (simp_all add: s')
    then show ?thesis
      using failed inv_v by (auto simp: popping_def s' pop_step_def frame_def graph_grows_def)
  next
    case (again i)
    let ?n = "length (concat (take (Suc i) paths))"
    have slices: "sp_slices v = concat paths" using sl_v by (simp add: sliced_def)
    have s': "s' = v\<lparr>sp_slices := take ?n (sp_slices v) @ new (length heads + i) # drop ?n (sp_slices v)\<rparr>"
      using body again(3-5) failed by (simp add: slices del: take_Suc_conv_app_nth)
    have "sliced P goal heads bases (paths[i := paths ! i @ [new (length heads + i)]]) s'"
      using sliced_again [OF sl_v again(1) _ _ s'] new_ok again(2) graph_only_slice [OF walks(2), of s' v]
      by (simp add: new_def s')
    then show ?thesis
      using failed inv_v by (auto simp: popping_def s' pop_step_def frame_def graph_grows_def)
  qed
  then show "pop_step lang source E goal s s'" "popping P goal heads s'" "sp_edges s' = sp_edges s"
    "\<exists>added. sp_children s' = sp_children s @ added"
    using pop_step_trans [OF v] by (auto simp: v_def)
qed

end
