(* ===== verification/Spec_Walk.thy ===== *)
theory Spec_Walk
  imports Spec_Slices
begin

text \<open>
  The breadth-first walk of a pop and the pop as a whole: the slices it leaves are the paths
  down from the version.
\<close>

section \<open>Iterators\<close>

lemma iterator_grow:
  assumes "iterator_ok P s i" and "walks lang source E goal P" and "pop_step lang source E goal s s'"
    and "sp_edges s' = sp_edges s @ new"
  shows "iterator_ok P s' i"
  using assms walks_grow [OF assms(2) _ assms(3)] edge_path_append [of "sp_edges s" _ _ new]
  unfolding iterator_ok_def by metis

text \<open>The walk so far: the slices found and the iterators still on their way.\<close>

definition walking :: "TFLanguage \<Rightarrow> u8 list \<Rightarrow> nat set \<Rightarrow> (TFSpec \<Rightarrow> nat \<Rightarrow> nat list \<Rightarrow> bool) \<Rightarrow> nat \<Rightarrow> TFSpecHead list
    \<Rightarrow> TFSpec \<Rightarrow> TFSpecIterator list \<Rightarrow> TFSpec \<Rightarrow> bool" where
  "walking lang source E P goal heads s0 its s \<longleftrightarrow> \<not> sp_failed s \<and> pop_step lang source E goal s0 s \<and> popping P goal heads s \<and>
     (\<forall>i \<in> set its. iterator_ok P s i)"

lemma walking_step:
  assumes "walking lang source E P goal heads s0 its s" and "walks lang source E goal P" and "pop_step lang source E goal s s'"
    and "\<not> sp_failed s'" and "sp_edges s' = sp_edges s" and "popping P goal heads s'"
  shows "walking lang source E P goal heads s0 its s'"
  using assms(1,4,6) pop_step_trans [OF _ assms(3)] iterator_grow [OF _ assms(2,3), where new = "[]"] assms(5)
  by (auto simp: walking_def)

lemma popping_same:
  assumes "popping P goal heads s" and "walks lang source E goal P" and "pop_step lang source E goal s s'"
    and "sp_children s' = sp_children s" and "sp_heads s' = sp_heads s" and "sp_slices s' = sp_slices s"
  shows "popping P goal heads s'"
proof -
  obtain bases paths where "sliced P goal heads bases paths s" using assms(1) by (auto simp: popping_def)
  then have "sliced P goal heads bases paths s'"
    by (rule sliced_grow [OF _ assms(2,3), where added = "[]"]) (use assms(4-6) in simp_all)
  then show ?thesis by (auto simp: popping_def)
qed

lemma iterate_link_ok:
  assumes w: "walking lang source E P goal heads s0 its s" and walks: "walks lang source E goal P"
    and i: "i < length its" and cur: "iterator_ok P s current" and node: "node = sp_nodes s ! it_node current"
    and j: "1 \<le> j" "j \<le> sn_link_count node"
    and run: "iterate_link mem i current node j (its, s) = (its', s')" and nf: "\<not> sp_failed s'"
  shows "walking lang source E P goal heads s0 its' s'" and "length its \<le> length its'" and "iterator_ok P s' current"
    and "sp_nodes s' = sp_nodes s"
proof -
  have inv: "spec_inv lang source E s" and ok: "\<not> sp_failed s" using w by (auto simp: walking_def dest: pop_step_inv)
  obtain path where path: "edge_path (sp_edges s) (it_edge current) path" "P s (it_node current) path" "it_length current = length path"
    using cur by (auto simp: iterator_ok_def)
  note unf = iterate_link_def prod.case if_not_P [OF ok]
  have "walking lang source E P goal heads s0 its' s' \<and> length its \<le> length its' \<and> iterator_ok P s' current \<and> sp_nodes s' = sp_nodes s"
  proof (cases "j < sn_link_count node \<and> length its = TF_SPEC_ITERATORS")
    case True
    then show "walking lang source E P goal heads s0 its' s' \<and> length its \<le> length its' \<and> iterator_ok P s' current \<and> sp_nodes s' = sp_nodes s"
      using run w cur unfolding unf by simp
  next
    case False
    let ?k = "if j = sn_link_count node then 0 else j"
    define link where "link = sp_links s ! (sn_first_link node + ?k)"
    have arena: "arena_ok s" using inv by (simp add: spec_inv_def)
    have len: "?k < length (node_links s (it_node current))"
      using length_node_links [OF arena walks_node [OF walks path(2)]] j node by simp
    have link: "link \<in> set (node_links s (it_node current))"
      using nth_node_links [OF len] nth_mem [OF len] node by (simp add: link_def)
    have link_eq: "sp_links s ! (if j = sn_link_count node then sn_first_link node else sn_first_link node + j) = link"
      by (simp add: link_def)
    obtain t ok' where t: "tf_spec_reserve mem A_spec_edges (length (sp_edges s) + 1) s = (t, ok')" by fastforce
    let ?count = "if tr_extra (sp_trees t ! lk_tree link) then it_count current else it_count current + 1"
    let ?next = "\<lparr>it_node = lk_node link, it_edge = length (sp_edges t), it_count = ?count, it_length = it_length current + 1\<rparr>"
    let ?edge = "\<lparr>ed_tree = lk_tree link, ed_previous = it_edge current\<rparr>"
    have body: "(if \<not> ok' then (its, t) else (if j = sn_link_count node then its[i := ?next] else its @ [?next],
        t\<lparr>sp_edges := sp_edges t @ [?edge]\<rparr>)) = (its', s')"
      using run unfolding unf if_not_P [OF False] Let_def link_eq t prod.case .
    have ok': ok' using body nf reserve_failed(1) [OF t] by (auto split: if_splits)
    then obtain c where c: "t = s\<lparr>sp_capacity := c\<rparr>" "length (sp_edges s) + 1 < 2 ^ 32"
      using t by (metis reserve_True)
    let ?s = "s\<lparr>sp_edges := sp_edges s @ [?edge], sp_capacity := c\<rparr>"
    have s': "s' = ?s" and its': "its' = (if j = sn_link_count node then its[i := ?next] else its @ [?next])"
      using body ok' c(1) by auto
    have step: "pop_step lang source E goal s ?s"
      using ok inv by (simp add: pop_step_def frame_def graph_grows_def)
    have P': "P ?s (it_node current) path" by (rule walks_grow [OF walks path(2) step])
    have inv': "spec_inv lang source E ?s" using inv by simp
    have "link \<in> set (node_links ?s (it_node current))" using link by (simp add: node_links_def)
    then have "P ?s (lk_node link) (lk_tree link # path)" by (rule walks_step [OF walks inv' P'])
    moreover have "edge_path (sp_edges s @ [?edge]) (length (sp_edges s)) (lk_tree link # path)"
      using path_edge [of "length (sp_edges s)" "sp_edges s @ [?edge]" path] edge_path_append [OF path(1)] c(2)
      by (simp add: TF_SPEC_NONE_def)
    ultimately have next_ok: "iterator_ok P ?s ?next"
      using path(3) c(1) by (auto simp: iterator_ok_def)
    have olds: "iterator_ok P ?s x" if "iterator_ok P s x" for x
      by (rule iterator_grow [OF that walks step, where new = "[?edge]"]) simp
    have "popping P goal heads ?s"
      using w popping_same [OF _ walks step] by (simp add: walking_def)
    moreover have "\<forall>x \<in> set its'. iterator_ok P ?s x"
      using w olds next_ok set_update_subset_insert [of its i ?next] by (auto simp: its' walking_def)
    ultimately have "walking lang source E P goal heads s0 its' ?s"
      using w ok pop_step_trans [OF _ step] by (auto simp: walking_def)
    then show "walking lang source E P goal heads s0 its' s' \<and> length its \<le> length its' \<and> iterator_ok P s' current \<and> sp_nodes s' = sp_nodes s"
      using olds [OF cur] by (simp add: s' its')
  qed
  then show "walking lang source E P goal heads s0 its' s'" "length its \<le> length its'" "iterator_ok P s' current"
    "sp_nodes s' = sp_nodes s" by simp_all
qed

lemma iterate_failed: "sp_failed s \<Longrightarrow> fold (iterate_link mem i current node) js (its, s) = (its, s)"
  by (induction js) (simp_all add: iterate_link_def)

lemma iterate_links_ok:
  assumes "fold (iterate_link mem i current node) js (its, s) = (its', s')" and "\<not> sp_failed s'"
    and "walking lang source E P goal heads s0 its s" and "walks lang source E goal P"
    and "i < length its" and "iterator_ok P s current" and "node = sp_nodes s ! it_node current"
    and "\<forall>j \<in> set js. 1 \<le> j \<and> j \<le> sn_link_count node"
  shows "walking lang source E P goal heads s0 its' s' \<and> length its \<le> length its'"
  using assms
proof (induction js arbitrary: its s)
  case (Cons j js)
  obtain itt t where t: "iterate_link mem i current node j (its, s) = (itt, t)" by fastforce
  then have rest: "fold (iterate_link mem i current node) js (itt, t) = (its', s')" using Cons.prems(1) by simp
  have nf: "\<not> sp_failed t" using iterate_failed [of t mem i current node js itt] rest Cons.prems(2) by auto
  note one = iterate_link_ok [OF Cons.prems(3-7) _ _ t nf]
  have j: "1 \<le> j" "j \<le> sn_link_count node" using Cons.prems(8) by simp_all
  note one = one [OF j]
  have "walking lang source E P goal heads s0 its' s' \<and> length itt \<le> length its'"
    using Cons.IH [OF rest Cons.prems(2) one(1) Cons.prems(4) _ one(3)] one(2,4) Cons.prems(5,7,8) by simp
  then show ?case using one(2) by linarith
qed simp

section \<open>Rounds\<close>

lemma pop_round_ok:
  assumes "pop_round mem goal i bound its s = Some (its', s')" and "walks lang source E goal P" and "graph_only P"
    and "walking lang source E P goal heads s0 its s" and "bound \<le> length its" and "\<not> sp_failed s'"
  shows "walking lang source E P goal heads s0 its' s'"
proof -
  let ?concl = "\<lambda>bound its s r. walking lang source E P goal heads s0 its s \<longrightarrow> bound \<le> length its \<longrightarrow> \<not> sp_failed (snd r) \<longrightarrow>
    walking lang source E P goal heads s0 (fst r) (snd r)"
  have "goal = goal \<longrightarrow> ?concl bound its s (its', s')"
  proof (rule pop_round.raw_induct [where P = "\<lambda>mem g i bound its s r. g = goal \<longrightarrow> ?concl bound its s r", OF _ assms(1)], intro impI)
    fix loop mem g i bound its s and r :: "TFSpecIterator list \<times> TFSpec"
    assume IH: "\<And>mem g i bound its s r. loop mem g i bound its s = Some r \<Longrightarrow> g = goal \<longrightarrow> ?concl bound its s r"
      and eq: "(if \<not> i < bound then Some (its, s)
         else
           let current = its ! i;
               (s, ok) = (if g \<noteq> TF_SPEC_NONE \<and> it_count current \<noteq> g then tf_spec_unroll mem (it_node current) s
                          else (s, True))
           in if \<not> ok then Some (its, s)
              else
                let node = sp_nodes s ! it_node current;
                    pop = chain_done g node (it_count current)
                in do {
                  s \<leftarrow> (if pop then pop_slice mem current s else Some s);
                  if pop \<and> sp_failed s then Some (its, s)
                  else if pop \<or> sn_link_count node = 0
                  then loop mem g i (bound - 1) (take i its @ drop (i + 1) its) s
                  else
                    let (it, s) = fold (iterate_link mem i current node) [1..<sn_link_count node + 1] (its, s)
                    in if sp_failed s then Some (it, s) else loop mem g (i + 1) bound it s
                }) = Some r"
      and g: "g = goal" and w: "walking lang source E P goal heads s0 its s" and len: "bound \<le> length its" and nf: "\<not> sp_failed (snd r)"
    note IH = IH [OF _ , rule_format, OF _ refl]
    show "walking lang source E P goal heads s0 (fst r) (snd r)"
    proof (cases "i < bound")
      case False
      then show ?thesis using eq w by auto
    next
      case True
      let ?cur = "its ! i"
      have inv: "spec_inv lang source E s" and ok: "\<not> sp_failed s" using w by (auto simp: walking_def dest: pop_step_inv)
      have cur: "iterator_ok P s ?cur" using w True len by (simp add: walking_def)
      obtain t ok' where t: "(if goal \<noteq> TF_SPEC_NONE \<and> it_count ?cur \<noteq> goal then tf_spec_unroll mem (it_node ?cur) s
          else (s, True)) = (t, ok')" by fastforce
      have ok': ok'
      proof (rule ccontr)
        assume "\<not> ok'"
        then have "r = (its, t)" using eq True t by (simp add: g)
        then show False using t nf \<open>\<not> ok'\<close> unroll_grown(2) [of mem "it_node ?cur" s t ok'] by (auto split: if_splits)
      qed
      have u: "(if goal \<noteq> TF_SPEC_NONE \<and> it_count ?cur \<noteq> goal then tf_spec_unroll mem (it_node ?cur) s
          else (s, True)) = (t, True)" using t ok' by simp
      have "goal \<noteq> TF_SPEC_NONE \<and> it_count ?cur \<noteq> goal \<Longrightarrow> goal \<noteq> TF_SPEC_NONE" by simp
      note u = pop_unroll [OF u inv ok this]
      have "popping P goal heads s" using w by (simp add: walking_def)
      from popping_same [OF this assms(2) u(1)] have "popping P goal heads t" using u by simp
      note wt = walking_step [OF w assms(2) u(1,6,4) this]
      have inv_t: "spec_inv lang source E t" by (rule pop_step_inv [OF u(1)])
      have cur_t: "iterator_ok P t ?cur" using wt True len by (simp add: walking_def)
      let ?node = "sp_nodes t ! it_node ?cur"
      let ?pop = "chain_done goal ?node (it_count ?cur)"
      have body: "do {
                  s \<leftarrow> (if ?pop then pop_slice mem ?cur t else Some t);
                  if ?pop \<and> sp_failed s then Some (its, s)
                  else if ?pop \<or> sn_link_count ?node = 0
                  then loop mem goal i (bound - 1) (take i its @ drop (i + 1) its) s
                  else
                    let (it, s) = fold (iterate_link mem i ?cur ?node) [1..<sn_link_count ?node + 1] (its, s)
                    in if sp_failed s then Some (it, s) else loop mem goal (i + 1) bound it s
                } = Some r"
        using eq True ok' unfolding g Let_def t prod.case by simp
      have del: "walking lang source E P goal heads s0 (take i its @ drop (i + 1) its) v"
        if "walking lang source E P goal heads s0 its v" for v
        using that by (auto simp: walking_def dest: in_set_takeD in_set_dropD)
      have del_len: "bound - 1 \<le> length (take i its @ drop (i + 1) its)" using len True by simp
      show ?thesis
      proof (cases ?pop)
        case pop: True
        obtain v where v: "pop_slice mem ?cur t = Some v" using body pop by (cases "pop_slice mem ?cur t") auto
        have nv: "\<not> sp_failed v" using body pop v nf by (auto split: if_splits)
        have zero: "goal = TF_SPEC_NONE \<Longrightarrow> sn_link_count ?node = 0" using pop by (simp add: chain_done_def)
        have "popping P goal heads t" using wt by (simp add: walking_def)
        note s = pop_slice_ok [OF v nv u(6) inv_t assms(2,3) this cur_t zero]
        have "walking lang source E P goal heads s0 its v" by (rule walking_step [OF wt assms(2) s(1) nv s(3,2)])
        moreover have "loop mem goal i (bound - 1) (take i its @ drop (i + 1) its) v = Some r" using body pop v nv by simp
        ultimately show ?thesis using IH del del_len nf by blast
      next
        case nopop: False
        show ?thesis
        proof (cases "sn_link_count ?node = 0")
          case none: True
          then have "loop mem goal i (bound - 1) (take i its @ drop (i + 1) its) t = Some r" using body nopop by simp
          then show ?thesis using IH del [OF wt] del_len nf by blast
        next
          case False
          obtain itt v where v: "fold (iterate_link mem i ?cur ?node) [1..<sn_link_count ?node + 1] (its, t) = (itt, v)" by fastforce
          have rest: "(if sp_failed v then Some (itt, v) else loop mem goal (i + 1) bound itt v) = Some r"
            using body nopop False v by simp
          then have nv: "\<not> sp_failed v" using nf by (auto split: if_splits)
          have "i < length its" using True len by simp
          from iterate_links_ok [OF v nv wt assms(2) this cur_t refl]
          have "walking lang source E P goal heads s0 itt v \<and> length its \<le> length itt" by fastforce
          moreover have "loop mem goal (i + 1) bound itt v = Some r" using rest nv by simp
          ultimately show ?thesis using IH len nf by (meson le_trans)
        qed
      qed
    qed
  qed
  then show ?thesis using assms(4-6) by simp
qed

lemma pop_rounds_ok:
  assumes "pop_rounds mem goal its s = Some s'" and "walks lang source E goal P" and "graph_only P"
    and "walking lang source E P goal heads s0 its s" and "\<not> sp_failed s'"
  shows "pop_step lang source E goal s0 s' \<and> popping P goal heads s'"
proof -
  let ?concl = "\<lambda>its s s'. (sp_failed s \<longrightarrow> s' = s) \<and> (walking lang source E P goal heads s0 its s \<longrightarrow> \<not> sp_failed s' \<longrightarrow>
    pop_step lang source E goal s0 s' \<and> popping P goal heads s')"
  have "goal = goal \<longrightarrow> ?concl its s s'"
  proof (rule pop_rounds.raw_induct [where P = "\<lambda>mem g its s s'. g = goal \<longrightarrow> ?concl its s s'", OF _ assms(1)], intro impI)
    fix loop mem g its s s'
    assume IH: "\<And>mem g its s s'. loop mem g its s = Some s' \<Longrightarrow> g = goal \<longrightarrow> ?concl its s s'"
      and eq: "(if its = [] \<or> sp_failed s then Some s
         else do {
           (it, s) \<leftarrow> pop_round mem g 0 (length its) its s;
           loop mem g it s
         }) = Some s'"
      and g: "g = goal"
    show "?concl its s s'"
    proof (cases "its = [] \<or> sp_failed s")
      case True
      then show ?thesis using eq by (auto simp: walking_def)
    next
      case False
      then obtain itt t where t: "pop_round mem goal 0 (length its) its s = Some (itt, t)" "loop mem goal itt t = Some s'"
        using eq g by (auto simp: bind_eq_Some_conv)
      have IH: "?concl itt t s'" using IH [OF t(2)] by simp
      show ?thesis
      proof (intro conjI impI)
        assume w: "walking lang source E P goal heads s0 its s" and nf: "\<not> sp_failed s'"
        have "\<not> sp_failed t" using IH nf by auto
        from pop_round_ok [OF t(1) assms(2,3) w _ this] IH nf
        show "pop_step lang source E goal s0 s'" "popping P goal heads s'" by simp_all
      qed (use False in simp)
    qed
  qed
  then show ?thesis using assms by simp
qed

section \<open>The pop\<close>

lemma pop_single_ok:
  assumes run: "\<not> sp_failed (pop_single mem node path s)" "\<not> sp_failed s" and inv: "spec_inv lang source E s"
    and walks: "walks lang source E goal P" "graph_only P" and path: "P s node path" and slices: "sp_slices s = []"
    and goal: "goal = TF_SPEC_NONE \<Longrightarrow> sn_link_count (sp_nodes s ! node) = 0"
  shows "pop_step lang source E goal s (pop_single mem node path s)" and "popping P goal (sp_heads s) (pop_single mem node path s)"
proof -
  let ?s = "pop_single mem node path s"
  obtain t ok where t: "tf_spec_reserve mem A_spec_children (length (sp_children s) + length path) s = (t, ok)" by fastforce
  have ok: ok using run t reserve_failed(1) [OF t] by (auto simp: pop_single_def)
  obtain c where c: "t = s\<lparr>sp_capacity := c\<rparr>" using t ok by (metis reserve_True)
  obtain u ok' where u: "tf_spec_reserve mem A_spec_slices 1 t = (u, ok')" by fastforce
  have ok': ok' using run t u ok reserve_failed(1) [OF u] by (auto simp: pop_single_def)
  obtain d where d: "u = t\<lparr>sp_capacity := d\<rparr>" using u ok' by (metis reserve_True)
  define v where "v = s\<lparr>sp_capacity := d, sp_children := sp_children s @ path\<rparr>"
  have v_eq: "u\<lparr>sp_children := sp_children s @ path\<rparr> = v" "sp_children u = sp_children s" by (simp_all add: v_def d c)
  obtain w n where w: "tf_spec_head mem node v = (w, n)" by fastforce
  have body: "?s = (if sp_failed w then w
      else w\<lparr>sp_slices := [\<lparr>sl_version = n, sl_first = length (sp_children s), sl_count = length path\<rparr>]\<rparr>)"
    unfolding pop_single_def Let_def t u prod.case by (simp only: ok ok' not_True_eq_False if_False v_eq w prod.case)
  have nf: "\<not> sp_failed w" using body run(1) by (auto split: if_splits)
  obtain e where n: "n = length (sp_heads v)" and e: "w = v\<lparr>sp_heads := sp_heads v @ [new_head node], sp_capacity := e\<rparr>"
    using head_Ok [OF w nf] by metis
  let ?sl = "\<lparr>sl_version = n, sl_first = length (sp_children s), sl_count = length path\<rparr>"
  have s': "?s = v\<lparr>sp_heads := sp_heads v @ [new_head node], sp_capacity := e, sp_slices := [?sl]\<rparr>"
    using body nf by (simp add: e)
  have g: "graph_grows s v"
    using forest_grows_append [of "sp_trees s" "sp_children s" "[]" path] by (simp add: graph_grows_def v_def)
  have step: "pop_step lang source E goal s v"
    using spec_inv_forest [OF inv g] g run(2) inv by (simp add: pop_step_def v_def frame_def)
  have inv_v: "spec_inv lang source E v" by (rule pop_step_inv [OF step])
  have "\<not> sp_failed v" using run(2) by (simp add: v_def)
  have "slice_ok P v node ?sl"
    using walks_grow [OF walks(1) path step] by (simp add: slice_ok_def v_def)
  then have "slice_ok P ?s node ?sl"
    using graph_only_slice(2) [OF walks(2), of ?s v] by (simp add: s')
  then have "sliced P goal (sp_heads s) [node] [[?sl]] ?s"
    using goal by (simp add: sliced_def s' n v_def)
  then show "popping P goal (sp_heads s) ?s" by (auto simp: popping_def)
  have "pop_step lang source E goal v ?s"
    using inv_v \<open>\<not> sp_failed v\<close> unfolding s' by (simp add: pop_step_def frame_def graph_grows_def)
  then show "pop_step lang source E goal s ?s" by (rule pop_step_trans [OF step])
qed

lemma tf_spec_pop_ok:
  assumes run: "tf_spec_pop mem version goal s = Some s'" and nf: "\<not> sp_failed s'" "\<not> sp_failed s"
    and inv: "spec_inv lang source E s" and walks: "walks lang source E goal P" "graph_only P"
    and start: "P s (hd_node (sp_heads s ! version)) []"
  shows "pop_step lang source E goal s s'" and "popping P goal (sp_heads s) s'"
proof -
  let ?s = "s\<lparr>sp_slices := [], sp_edges := []\<rparr>"
  let ?node = "hd_node (sp_heads s ! version)"
  have step: "pop_step lang source E goal s ?s"
    using inv nf by (simp add: pop_step_def frame_def graph_grows_def)
  have P: "P ?s ?node []" by (rule walks_grow [OF walks(1) start step])
  have inv': "spec_inv lang source E ?s" by (rule pop_step_inv [OF step])
  obtain t r where t: "pop_chain mem goal ?node 0 [] ?s = Some (t, r)"
    using run unfolding tf_spec_pop_def Let_def by (cases "pop_chain mem goal ?node 0 [] ?s") auto
  have rest: "(case r of
          Chain node walked \<Rightarrow> Some (pop_single mem node walked t)
        | No_Memory \<Rightarrow> Some t
        | Forked \<Rightarrow> pop_rounds mem goal
            [\<lparr>it_node = hd_node (sp_heads t ! version), it_edge = TF_SPEC_NONE, it_count = 0, it_length = 0\<rparr>] t) = Some s'"
    using run t unfolding tf_spec_pop_def Let_def by simp
  have ft: "\<not> sp_failed t"
  proof
    assume f: "sp_failed t"
    show False
    proof (cases r)
      case (Chain n path)
      obtain u ok where u: "tf_spec_reserve mem A_spec_children (length (sp_children t) + length path) t = (u, ok)" by fastforce
      then have "s' = u" "sp_failed u"
        using rest Chain f reserve_failed [OF u] by (auto simp: pop_single_def)
      then show False using nf by simp
    qed (use rest f nf in \<open>auto simp: pop_rounds.simps\<close>)
  qed
  note c = pop_chain_ok [OF t walks(1) inv' _ P ft]
  have c: "pop_step lang source E goal ?s t" "sp_heads t = sp_heads s" "sp_slices t = []" "sp_children t = sp_children s"
    "sp_edges t = []" "case r of Chain n path \<Rightarrow> P t n path \<and> (goal = TF_SPEC_NONE \<longrightarrow> sn_link_count (sp_nodes t ! n) = 0)
     | Forked \<Rightarrow> True | No_Memory \<Rightarrow> False"
    using c nf by simp_all
  have st: "pop_step lang source E goal s t" by (rule pop_step_trans [OF step c(1)])
  have inv_t: "spec_inv lang source E t" by (rule pop_step_inv [OF st])
  have "pop_step lang source E goal s s' \<and> popping P goal (sp_heads s) s'"
  proof (cases r)
    case (Chain n path)
    then have s': "s' = pop_single mem n path t" using rest by simp
    have "P t n path" "goal = TF_SPEC_NONE \<Longrightarrow> sn_link_count (sp_nodes t ! n) = 0" using c(6) Chain by simp_all
    from pop_single_ok [OF nf(1) [unfolded s'] ft inv_t walks this(1) c(3) this(2)]
    show ?thesis using pop_step_trans [OF st] s' c(2) by simp
  next
    case Forked
    let ?it = "\<lparr>it_node = ?node, it_edge = TF_SPEC_NONE, it_count = 0, it_length = 0\<rparr>"
    have run: "pop_rounds mem goal [?it] t = Some s'" using rest Forked c(2) by simp
    have Pt: "P t ?node []" by (rule walks_grow [OF walks(1) start st])
    have "sliced P goal (sp_heads s) [] [] t" using c(2,3) by (simp add: sliced_def)
    then have "walking lang source E P goal (sp_heads s) s [?it] t"
      using ft st Pt path_none by (auto simp: walking_def popping_def iterator_ok_def intro!: exI)
    from pop_rounds_ok [OF run walks this nf(1)] show ?thesis .
  next
    case No_Memory
    then show ?thesis using c(6) by simp
  qed
  then show "pop_step lang source E goal s s'" "popping P goal (sp_heads s) s'" by simp_all
qed

end
