(* ===== verification/Spec_Shapes.thy ===== *)
theory Spec_Shapes
  imports Spec_Walk
begin

text \<open>
  The private replay only recovers shapes: whatever its consumer (\<^verbatim>\<open>tf_capture_shift\<close>,
  \<^verbatim>\<open>tf_capture_reduce\<close>, \<^verbatim>\<open>tf_spec__capture\<close>) does to the speculation it works for adds trees and
  children and fills in the shapes of inherited cells. So \<^verbatim>\<open>tf_spec__materialize\<close> is one of the
  ways to recover shapes that merging may rely on.
\<close>

section \<open>What a speculation does to the parser\<close>

abbreviation lexer_only :: "('p, 'v, 's) TFParser \<Rightarrow> ('p, 'v, 's) TFParser \<Rightarrow> bool" where
  "lexer_only p p' \<equiv> \<exists>l. p' = p\<lparr>ps_lexer := l\<rparr>"

lemma lexer_only_refl: "lexer_only p p"
  by (rule exI [of _ "ps_lexer p"]) simp

lemma lexer_only_trans: "lexer_only p q \<Longrightarrow> lexer_only q r \<Longrightarrow> lexer_only p r"
  by auto

lemma spec_lex_parser: "tf_spec_lex node s p = Some (s', p', r) \<Longrightarrow> lexer_only p p'"
  by (auto simp: tf_spec_lex_def Let_def bind_eq_Some_conv lexer_only_refl split: if_splits option.splits)

lemma advance_parser: "tf_spec_advance mem materialize v s p = Some (s', p') \<Longrightarrow> lexer_only p p'"
  using spec_lex_parser
  by (fastforce simp: tf_spec_advance_def bind_eq_Some_conv split: option.splits)

lemma advance_version_parser:
  assumes "advance_version mem materialize v lo s p = Some r"
  shows "lexer_only p (snd (snd r))"
proof (rule advance_version.raw_induct [where P = "\<lambda>mem mat v lo s p r. lexer_only p (snd (snd r))", OF _ assms])
  fix loop mem mat v lo s and p :: "('a, 'b, 'c) TFParser" and r
  assume IH: "\<And>mem mat v lo s (p :: ('a, 'b, 'c) TFParser) r. loop mem mat v lo s p = Some r \<Longrightarrow> lexer_only p (snd (snd r))"
    and eq: "(if hd_halted (sp_heads s ! v) then Some (lo, s, p)
      else do {
        (s, p) \<leftarrow> tf_spec_advance mem mat v s p;
        if sp_failed s then Some (lo, s, p)
        else let pos = sn_byte (sp_nodes s ! hd_node (sp_heads s ! v))
          in if pos > lo \<or> v > 0 \<and> pos = lo then Some (pos, s, p) else loop mem mat v lo s p
      }) = Some r"
  show "lexer_only p (snd (snd r))"
  proof (cases "hd_halted (sp_heads s ! v)")
    case True
    then show ?thesis using eq lexer_only_refl by auto
  next
    case False
    then obtain t q where t: "tf_spec_advance mem mat v s p = Some (t, q)" and rest:
      "(if sp_failed t then Some (lo, t, q)
        else let pos = sn_byte (sp_nodes t ! hd_node (sp_heads t ! v))
          in if pos > lo \<or> v > 0 \<and> pos = lo then Some (pos, t, q) else loop mem mat v lo t q) = Some r"
      using eq by (auto simp: bind_eq_Some_conv)
    have "lexer_only q (snd (snd r))"
      using rest IH [of mem mat v lo t q r] lexer_only_refl [of q] by (auto simp: Let_def split: if_splits)
    then show ?thesis using advance_parser [OF t] lexer_only_trans by blast
  qed
qed

lemma advance_versions_parser:
  assumes "advance_versions mem materialize v lo s p = Some r"
  shows "lexer_only p (snd (snd r))"
proof (rule advance_versions.raw_induct [where P = "\<lambda>mem mat v lo s p r. lexer_only p (snd (snd r))", OF _ assms])
  fix loop mem mat v lo s and p :: "('a, 'b, 'c) TFParser" and r
  assume IH: "\<And>mem mat v lo s (p :: ('a, 'b, 'c) TFParser) r. loop mem mat v lo s p = Some r \<Longrightarrow> lexer_only p (snd (snd r))"
    and eq: "(if \<not> v < length (sp_heads s) then Some (lo, s, p)
      else do {
        (lo, s, p) \<leftarrow> advance_version mem mat v lo s p;
        if sp_failed s then Some (lo, s, p) else loop mem mat (v + 1) lo s p
      }) = Some r"
  show "lexer_only p (snd (snd r))"
  proof (cases "v < length (sp_heads s)")
    case False
    then show ?thesis using eq lexer_only_refl by auto
  next
    case True
    then obtain l t q where t: "advance_version mem mat v lo s p = Some (l, t, q)"
      and rest: "(if sp_failed t then Some (l, t, q) else loop mem mat (v + 1) l t q) = Some r"
      using eq by (auto simp: bind_eq_Some_conv)
    have "lexer_only q (snd (snd r))"
      using rest IH [of mem mat "v + 1" l t q r] lexer_only_refl [of q] by (auto split: if_splits)
    then show ?thesis using advance_version_parser [OF t] lexer_only_trans by auto
  qed
qed

lemma split_rounds_parser:
  assumes "split_rounds mem materialize lo s p = Some (s', p', e)"
  shows "lexer_only p p'"
proof -
  have "lexer_only p (fst (snd (s', p', e)))"
  proof (rule split_rounds.raw_induct [where P = "\<lambda>mem mat lo s p r. lexer_only p (fst (snd r))", OF _ assms])
    fix loop mem mat lo s and p :: "('a, 'b, 'c) TFParser" and r
    assume IH: "\<And>mem mat lo s (p :: ('a, 'b, 'c) TFParser) r. loop mem mat lo s p = Some r \<Longrightarrow> lexer_only p (fst (snd r))"
      and eq: "do {
     (lo, s, p) \<leftarrow> advance_versions mem mat 0 lo s p;
     if sp_failed s then Some (s, p, Starved)
     else do {
       s \<leftarrow> tf_spec_condense mem mat s;
       if sp_finished s \<noteq> TF_SPEC_NONE \<and> sp_heads s = [] then
         let root = sp_trees s ! sp_finished s
         in Some (s, p, Accepted (tr_first_child root) (tr_child_count root - 1))
       else if sp_heads s = [] then Some (s, p, Defeated)
       else do {
         unique \<leftarrow> (if length (sp_heads s) = 1 \<and> sp_finished s = TF_SPEC_NONE
                    then tf_spec_unique s (hd_node (hd (sp_heads s))) else Some False);
         if unique then
           let tip = hd_node (hd (sp_heads s))
           in do {
             s \<leftarrow> tf_spec_pop mem 0 TF_SPEC_NONE s;
             Some (s, p, if sp_failed s then Starved
                         else Settled tip (sl_first (hd (sp_slices s))) (sl_count (hd (sp_slices s))))
           }
         else loop mem mat lo s p
       }
     }
   } = Some r"
    obtain l t q where t: "advance_versions mem mat 0 lo s p = Some (l, t, q)" and rest: "do {
       s \<leftarrow> tf_spec_condense mem mat t;
       if sp_finished s \<noteq> TF_SPEC_NONE \<and> sp_heads s = [] then
         let root = sp_trees s ! sp_finished s
         in Some (s, q, Accepted (tr_first_child root) (tr_child_count root - 1))
       else if sp_heads s = [] then Some (s, q, Defeated)
       else do {
         unique \<leftarrow> (if length (sp_heads s) = 1 \<and> sp_finished s = TF_SPEC_NONE
                    then tf_spec_unique s (hd_node (hd (sp_heads s))) else Some False);
         if unique then
           let tip = hd_node (hd (sp_heads s))
           in do {
             s \<leftarrow> tf_spec_pop mem 0 TF_SPEC_NONE s;
             Some (s, q, if sp_failed s then Starved
                         else Settled tip (sl_first (hd (sp_slices s))) (sl_count (hd (sp_slices s))))
           }
         else loop mem mat l s q
       }
     } = Some r \<or> r = (t, q, Starved)"
      using eq by (auto simp: bind_eq_Some_conv split: if_splits)
    have "lexer_only q (fst (snd r))"
      using rest IH [of mem mat l _ q r] lexer_only_refl [of q]
      by (auto simp: Let_def bind_eq_Some_conv split: if_splits)
    then show "lexer_only p (fst (snd r))" using advance_versions_parser [OF t] lexer_only_trans by auto
  qed
  then show ?thesis by simp
qed

section \<open>The collector\<close>

text \<open>What the callbacks may do to the speculation that asked.\<close>

definition collects :: "TFSpec \<Rightarrow> TFSpec \<Rightarrow> bool" where
  "collects s s' \<longleftrightarrow> (sp_failed s \<longrightarrow> sp_failed s') \<and>
     (\<not> sp_failed s' \<longrightarrow> frame s s' \<and> (prefix_inherited s \<longrightarrow> shapes_only s s'))"

lemma collects_refl [simp]: "collects s s"
  by (simp add: collects_def shapes_only_def)

lemma shapes_only_trans: "shapes_only s t \<Longrightarrow> shapes_only t u \<Longrightarrow> shapes_only s u"
  unfolding shapes_only_def by (auto intro: frame_trans graph_grows_trans)

lemma shapes_only_prefix: "shapes_only s s' \<Longrightarrow> prefix_inherited s \<Longrightarrow> prefix_inherited s'"
  using tree_grows [of s s'] by (fastforce simp: shapes_only_def list_all_iff same_tree_def)

lemma collects_trans: "collects s t \<Longrightarrow> collects t u \<Longrightarrow> collects s u"
  unfolding collects_def using frame_trans shapes_only_trans shapes_only_prefix by blast

lemma collects_failed: "sp_failed s' \<Longrightarrow> collects s s'"
  by (simp add: collects_def)

lemma collects_reserve: "tf_spec_reserve mem site n s = (s', ok) \<Longrightarrow> collects s s'"
  by (erule reserve_cases) (simp_all add: collects_def shapes_only_def frame_def)

lemma collects_tree:
  assumes "tf_spec_tree mem tree s = (s', t)"
  shows "collects s s'"
proof (cases "sp_failed s'")
  case False
  obtain c where "s' = s\<lparr>sp_trees := sp_trees s @ [tree], sp_capacity := c\<rparr>" "\<not> sp_failed s"
    using assms False by (rule tree_Ok) blast
  then show ?thesis
    using forest_grows_append [of "sp_trees s" "sp_children s" "[tree]" "[]"]
    by (simp add: collects_def shapes_only_def frame_def graph_grows_def)
qed (rule collects_failed)

lemma collects_children: "collects s (s\<lparr>sp_children := sp_children s @ ids\<rparr>)"
  using forest_grows_append [of "sp_trees s" "sp_children s" "[]" ids]
  by (simp add: collects_def shapes_only_def frame_def graph_grows_def)

lemma collects_shift: "tf_capture_shift mem s token extra = (s', v) \<Longrightarrow> collects s s'"
  using collects_tree by (auto simp: tf_capture_shift_def Let_def split: prod.splits)

lemma collects_reduce:
  assumes "tf_capture_reduce mem s reduction = (s', v)"
  shows "collects s s'"
proof -
  obtain t ok where t: "tf_spec_reserve mem A_spec_children (length (sp_children s) + unat (rd_node_count reduction)) s = (t, ok)"
    by fastforce
  show ?thesis
  proof (cases ok)
    case True
    let ?t = "t\<lparr>sp_children := sp_children t @ map (handle_id \<circ> nd_value) (rd_children reduction)\<rparr>"
    have "collects ?t s'"
      using assms t True collects_tree by (auto simp: tf_capture_reduce_def Let_def split: prod.splits)
    then show ?thesis using collects_reserve [OF t] collects_children collects_trans by blast
  next
    case False
    then show ?thesis using assms t collects_reserve [OF t] by (simp add: tf_capture_reduce_def)
  qed
qed

lemma collects_resolve:
  assumes "k < length (sp_prefix_tree s)"
  shows "collects s (tf_spec_resolve k s)"
proof -
  have "graph_grows s (tf_spec_resolve k s)" if "prefix_inherited s"
    using that assms
    by (auto simp: tf_spec_resolve_def Let_def graph_grows_def forest_grows_def nth_list_update same_tree_def list_all_length)
  then show ?thesis
    by (auto simp: collects_def shapes_only_def frame_def tf_spec_resolve_def Let_def)
qed

lemma collects_capture:
  assumes "tf_spec_capture mem c token p = Some c'"
  shows "collects c c'"
proof -
  obtain d ok where d: "tf_spec_reserve mem A_spec_capture_id (ps_depth p) c = (d, ok)" by fastforce
  show ?thesis
  proof (cases ok)
    case False
    then show ?thesis
      using assms d collects_reserve [OF d] by (auto simp: tf_spec_capture_def Let_def split: if_splits)
  next
    case True
    let ?d = "d\<lparr>sp_capture_id := map (handle_id \<circ> nd_value) (take (ps_depth p) (ps_nodes p)), sp_captured := True\<rparr>"
    have c': "c' = fold tf_spec_resolve [0..<length (sp_prefix_tree d)] ?d"
      using assms d True by (auto simp: tf_spec_capture_def Let_def split: if_splits)
    have len: "length (sp_prefix_tree (tf_spec_resolve k s)) = length (sp_prefix_tree s)" for k s
      by (simp add: tf_spec_resolve_def Let_def)
    have "collects s (fold tf_spec_resolve ks s)" if "\<forall>k \<in> set ks. k < length (sp_prefix_tree s)" for ks s
      using that
    proof (induction ks arbitrary: s)
      case (Cons k ks)
      then show ?case
        using collects_trans [OF collects_resolve [of k s] Cons.IH [of "tf_spec_resolve k s"]] len by simp
    qed simp
    then have "collects ?d c'" unfolding c' by simp
    moreover have "collects d ?d" by (simp add: collects_def shapes_only_def frame_def graph_grows_def)
    ultimately show ?thesis using collects_reserve [OF d] collects_trans by blast
  qed
qed

section \<open>The private parser\<close>

definition keeps :: "allocator \<Rightarrow> (TFSpec, nat, 's) TFParser \<Rightarrow> (TFSpec, nat, 's) TFParser \<Rightarrow> bool" where
  "keeps mem p p' \<longleftrightarrow> ps_sink p = capture_sink mem \<longrightarrow>
     ps_sink p' = capture_sink mem \<and> collects (ps_payload p) (ps_payload p')"

lemma keeps_same: "ps_sink p' = ps_sink p \<Longrightarrow> ps_payload p' = ps_payload p \<Longrightarrow> keeps mem p p'"
  by (simp add: keeps_def)

lemma keeps_trans: "keeps mem p q \<Longrightarrow> keeps mem q r \<Longrightarrow> keeps mem p r"
  unfolding keeps_def using collects_trans by blast

lemma keeps_lexer: "lexer_only p p' \<Longrightarrow> keeps mem p p'"
  by (auto intro: keeps_same)

lemma emit_shift_collects:
  "tf_parser_emit_shift (capture_sink mem) s token extra = (s', v) \<Longrightarrow> collects s s'"
  using collects_shift by (simp add: tf_parser_emit_shift_def capture_sink_def)

lemma emit_reduce_collects:
  "tf_parser_emit_reduce (capture_sink mem) s reduction = (s', v) \<Longrightarrow> collects s s'"
  using collects_reduce by (simp add: tf_parser_emit_reduce_def capture_sink_def)

lemma grow_keeps: "tf_parser_grow mem n p = (p', ok) \<Longrightarrow> ps_sink p' = ps_sink p \<and> ps_payload p' = ps_payload p"
  by (auto simp: tf_parser_grow_def Let_def split: if_splits)

lemma push_keeps: "tf_parser_push mem node state p = (p', e) \<Longrightarrow> ps_sink p' = ps_sink p \<and> ps_payload p' = ps_payload p"
  by (erule push_cases) simp_all

lemma place_keeps:
  assumes "place_parent mem base end state parent p = (p', e)"
  shows "ps_sink p' = ps_sink p \<and> ps_payload p' = ps_payload p"
proof -
  obtain q ok where q: "tf_parser_grow mem (of_nat (base + 1 + (ps_depth p - end))) p = (q, ok)" by fastforce
  have "ps_sink p' = ps_sink q \<and> ps_payload p' = ps_payload q"
    using assms unfolding place_parent_def Let_def q prod.case by (auto split: if_splits)
  then show ?thesis using grow_keeps [OF q] by simp
qed

lemma shift_keeps:
  assumes "tf_parser_shift mem token extra state p = (p', e)"
  shows "keeps cmem p p'"
proof -
  obtain s v where s: "tf_parser_emit_shift (ps_sink p) (ps_payload p) token extra = (s, v)" by fastforce
  have "ps_sink p' = ps_sink p \<and> ps_payload p' = s"
    using push_keeps [OF assms [unfolded tf_parser_shift_def Let_def s prod.case]] by simp
  then show ?thesis using s emit_shift_collects by (auto simp: keeps_def)
qed

lemma absorb_keeps: "absorb_end mem token rd p = (p', rd', e) \<Longrightarrow> keeps cmem p p'"
  by (erule absorb_end_cases) (auto simp: keeps_def dest: emit_shift_collects)

lemma reduce_keeps:
  assumes "tf_parser_reduce mem symbol child_count production lookahead p = (p', e)"
  shows "keeps cmem p p'"
proof (cases "reduce_scan (ps_nodes p) (unat child_count) 0 0 0")
  case None
  then show ?thesis using assms by (simp add: tf_parser_reduce_def keeps_same)
next
  case (Some pt)
  obtain popped trailing where pt: "pt = (popped, trailing)" by (cases pt)
  let ?base = "ps_depth p - popped" and ?upto = "ps_depth p - trailing"
  let ?rd = "span_reduction symbol production child_count (ps_nodes p) ?base ?upto"
  let ?state = "tf_next_state (ps_lang p) (ps_states p ! ?base) symbol"
  obtain q rd' ended where one: "(case lookahead of
                Some token \<Rightarrow>
                  if tok_symbol token = 0 \<and> ?base = ps_leading p \<and> accepts_end (ps_lang p) ! unat ?state
                  then absorb_end mem token ?rd p else (p, ?rd, Op_Ok)
              | None \<Rightarrow> (p, ?rd, Op_Ok)) = (q, rd', ended)" by (rule prod_cases3)
  have q: "keeps cmem p q"
  proof (cases lookahead)
    case None
    then show ?thesis using one by (simp add: keeps_same)
  next
    case (Some token)
    then have "absorb_end mem token ?rd p = (q, rd', ended) \<or> (p, ?rd, Op_Ok) = (q, rd', ended)"
      using one unfolding Some option.case by presburger
    then show ?thesis using absorb_keeps [of mem token ?rd p q rd' ended cmem] keeps_same [of q p] by blast
  qed
  obtain s v where s: "tf_parser_emit_reduce (ps_sink q) (ps_payload q) rd' = (s, v)" by fastforce
  have res: "(if ended \<noteq> Op_Ok then (q, ended)
      else place_parent mem ?base ?upto ?state (parent_node ?rd v) (q\<lparr>ps_payload := s\<rparr>)) = (p', e)"
    using assms unfolding tf_parser_reduce_def Some pt option.case prod.case Let_def one s .
  show ?thesis
  proof (cases "ended = Op_Ok")
    case True
    have "ps_sink p' = ps_sink q \<and> ps_payload p' = s"
      using place_keeps [of mem ?base ?upto ?state "parent_node ?rd v" "q\<lparr>ps_payload := s\<rparr>" p' e] res True by simp
    then have "keeps cmem q p'" using s emit_reduce_collects by (auto simp: keeps_def)
    then show ?thesis using q keeps_trans by blast
  qed (use res q in simp)
qed

lemma replay_loop_keeps:
  assumes "replay_loop mem items s p = Some r"
  shows "keeps cmem p (fst (snd r))"
proof (rule replay_loop.raw_induct [where P = "\<lambda>mem items s p r. keeps cmem p (fst (snd r))", OF _ assms])
  fix loop mem items s and p :: "(TFSpec, nat, 'a) TFParser" and r
  assume IH: "\<And>mem items s (p :: (TFSpec, nat, 'a) TFParser) r. loop mem items s p = Some r \<Longrightarrow> keeps cmem p (fst (snd r))"
    and eq: "(case items of
       [] \<Rightarrow> Some (s, p, Op_Ok)
     | Close item # rest \<Rightarrow>
         let tree = sp_trees s ! item;
             (p, ended) = tf_parser_reduce mem (tok_symbol (tr_token tree)) (ucast (tr_structural_count tree))
               (tr_production_id tree) None p
         in if ended \<noteq> Op_Ok then Some (s, p, ended) else loop mem rest s p
     | Visit item # rest \<Rightarrow>
         let tree = sp_trees s ! item
         in if tr_inherited tree then loop mem rest s p
            else if tr_leaf tree then
              let (p, ended) = tf_parser_shift mem (tr_token tree) (tr_extra tree)
                    (if tr_extra tree then top_state p
                     else tf_next_state (ps_lang p) (top_state p) (tok_symbol (tr_token tree))) p
              in if ended \<noteq> Op_Ok then Some (s, p, ended) else loop mem rest s p
            else if tr_child_count tree = 0 then loop mem (Close item # rest) s p
            else
              let (s, ok) = tf_spec_reserve mem A_spec_scratch (length rest + tr_child_count tree) s
              in if \<not> ok then Some (s, p, Op_Oom)
                 else loop mem
                   (map (\<lambda>i. Visit (sp_children s ! (tr_first_child tree + i))) [0..<tr_child_count tree] @ Close item # rest)
                   s p) = Some r"
  have refl: "keeps cmem p p" by (simp add: keeps_same)
  show "keeps cmem p (fst (snd r))"
  proof (cases items)
    case Nil
    then show ?thesis using eq refl by auto
  next
    case (Cons item rest)
    show ?thesis
    proof (cases item)
      case (Close t)
      obtain q e where q: "tf_parser_reduce mem (tok_symbol (tr_token (sp_trees s ! t)))
          (ucast (tr_structural_count (sp_trees s ! t))) (tr_production_id (sp_trees s ! t)) None p = (q, e)" by fastforce
      have "r = (s, q, e) \<or> loop mem rest s q = Some r"
        using eq unfolding Cons Close list.case replay_item.case Let_def q prod.case by (auto split: if_splits)
      then show ?thesis using reduce_keeps [OF q] IH [of mem rest s q r] keeps_trans by fastforce
    next
      case (Visit t)
      let ?tree = "sp_trees s ! t"
      obtain q e where q: "tf_parser_shift mem (tr_token ?tree) (tr_extra ?tree) (if tr_extra ?tree then top_state p
          else tf_next_state (ps_lang p) (top_state p) (tok_symbol (tr_token ?tree))) p = (q, e)" by fastforce
      obtain u ok where u: "tf_spec_reserve mem A_spec_scratch (length rest + tr_child_count ?tree) s = (u, ok)" by fastforce
      have "fst (snd r) = p \<or> (fst (snd r)) = q \<or> (\<exists>items s. loop mem items s p = Some r) \<or> loop mem rest s q = Some r"
        using eq unfolding Cons Visit list.case replay_item.case Let_def q u prod.case by (auto split: if_splits)
      then show ?thesis using refl shift_keeps [OF q] IH keeps_trans by metis
    qed
  qed
qed

lemma replay_keeps:
  assumes "tf_spec_replay mem first count s p = Some (s', p', e)"
  shows "keeps cmem p p'"
proof -
  obtain t ok where t: "tf_spec_reserve mem A_spec_scratch count s = (t, ok)" by fastforce
  show ?thesis
    using assms replay_loop_keeps [of mem _ t p "(s', p', e)" cmem] t
    by (cases ok) (auto simp: tf_spec_replay_def keeps_same Let_def)
qed

lemma fail_keeps: "keeps mem p (tf_parser_fail byte point txt p)"
  using fail_update [of byte point "txt" p] by (auto simp: keeps_def)

lemma fail_unexpected_keeps: "tf_parser_fail_unexpected state token p = (p', e) \<Longrightarrow> keeps mem p p'"
  using fail_unexpected_update [of state token p] by (auto simp: keeps_def)

lemma finish_accepted_keeps:
  assumes "finish_accepted mem token s p = (p', e)"
  shows "keeps cmem p p'"
proof -
  let ?root = "sp_trees s ! sp_finished s"
  obtain q ended where q: "tf_parser_reduce mem (tok_symbol (tr_token ?root)) (ucast (tr_structural_count ?root))
      (tr_production_id ?root) (Some (accepted_token s (lx_size (ps_lexer p)))) p = (q, ended)" by fastforce
  have "keeps cmem q p'"
    using assms fail_keeps [of cmem q] unfolding finish_accepted_def Let_def q prod.case
    by (auto simp: failed_op_def split_oom_def keeps_same split: if_splits op_end.splits)
  then show ?thesis using reduce_keeps [OF q] keeps_trans by blast
qed

lemma finish_settled_keeps: "finish_settled tip s p = Some (s', p', e) \<Longrightarrow> keeps mem p p'"
  using keeps_lexer [OF spec_lex_parser, of tip s p _ _ _ mem] keeps_trans [OF _ fail_keeps] keeps_trans [OF _ keeps_same]
  by (fastforce simp: finish_settled_def bind_eq_Some_conv split: option.splits)

lemma split_defeat_keeps:
  assumes "split_defeat s p = (p', e)"
  shows "keeps mem p p'"
proof -
  obtain q ended where "tf_parser_fail_unexpected (sp_error_state s) (zero_token\<lparr>tok_symbol := sp_error_symbol s,
      tok_start_byte := sp_error_byte s, tok_start_point := sp_error_point s\<rparr>) p = (q, ended)" by fastforce
  then show ?thesis
    using assms fail_keeps fail_unexpected_keeps by (auto simp: split_defeat_def split: if_splits)
qed

definition split_keeps :: "allocator \<Rightarrow> (TFSpec, nat, 's) splitter \<Rightarrow> bool" where
  "split_keeps mem split \<longleftrightarrow> (\<forall>token p p' e. split token p = Some (p', e) \<longrightarrow> keeps mem p p')"

text \<open>The ways a split can go.\<close>

lemma parser_split_cases:
  fixes p0 :: "('p, 'v, TFSpec) TFParser"
  assumes run: "tf_parser_split mem materialize stop token p0 = Some (p', e)"
  defines "p \<equiv> p0\<lparr>ps_split_count := ps_split_count p0 + 1\<rparr>"
  defines "s \<equiv> fork_graph mem p (start_spec (ps_spec p) token p)"
  obtains (stopped) "stop token p = Some p'" and "e = Split_Failed"
    | (no_memory) x where "p' = (split_oom token p)\<lparr>ps_spec := x\<rparr>" and "e = Split_Failed \<or> (\<exists>f. e = Split_Fault f)"
    | (rounds) t q r q' e' x where "stop token p = None" and "\<not> sp_failed s"
      and "split_rounds mem materialize 0 s p = Some (t, q, r)"
      and "p' = q'\<lparr>ps_spec := x\<rparr>" and "e = e' \<or> (\<exists>f. e = Split_Fault f)"
      and "case r of
          Starved \<Rightarrow> (q', e') = (split_oom token q, Split_Failed)
        | Defeated \<Rightarrow> (q', e') = split_defeat t q
        | Accepted first count \<Rightarrow> \<exists>u q1 ended. tf_spec_replay mem first count t q = Some (u, q1, ended) \<and>
            (q', e') = (if ended \<noteq> Op_Ok then failed_op token ended q1 else finish_accepted mem token u q1)
        | Settled tip first count \<Rightarrow> \<exists>u q1 ended. tf_spec_replay mem first count t q = Some (u, q1, ended) \<and>
            (if ended \<noteq> Op_Ok then (q', e') = failed_op token ended q1
             else \<exists>v. finish_settled tip u q1 = Some (v, q', e'))"
proof -
  let ?keep = "\<lambda>s (p, ended). (p\<lparr>ps_spec := Some s\<rparr>, case sp_fault s of Some f \<Rightarrow> Split_Fault f | None \<Rightarrow> ended)"
  note unf = tf_parser_split_def Let_def p_def [symmetric] s_def [symmetric]
  show thesis
  proof (cases "stop token p")
    case (Some q)
    then show thesis using run stopped unfolding unf by simp
  next
    case None
    show thesis
    proof (cases "ps_spec p = None \<and> \<not> mem A_spec 1")
      case True
      then have "p' = (split_oom token p)\<lparr>ps_spec := ps_spec (split_oom token p)\<rparr>" "e = Split_Failed"
        using run None unfolding unf by auto
      then show thesis using no_memory by blast
    next
      case False
      show thesis
      proof (cases "sp_failed s")
        case True
        then have "(p', e) = ?keep s (split_oom token p, Split_Failed)"
          using run unfolding unf None option.case if_not_P [OF False] if_P [OF True] by simp
        then show thesis using no_memory [of "Some s"] by (auto split: option.splits)
      next
        case nf: False
        have some: "do {
                 (s, p, ended) \<leftarrow> split_rounds mem materialize 0 s p;
                 (case ended of
                    Starved \<Rightarrow> Some (?keep s (split_oom token p, Split_Failed))
                  | Defeated \<Rightarrow> Some (?keep s (split_defeat s p))
                  | Accepted first count \<Rightarrow> do {
                      (s, p, ended) \<leftarrow> tf_spec_replay mem first count s p;
                      Some (?keep s (if ended \<noteq> Op_Ok then failed_op token ended p else finish_accepted mem token s p))
                    }
                  | Settled tip first count \<Rightarrow> do {
                      (s, p, ended) \<leftarrow> tf_spec_replay mem first count s p;
                      if ended \<noteq> Op_Ok then Some (?keep s (failed_op token ended p))
                      else do {
                        (s, p, ended) \<leftarrow> finish_settled tip s p;
                        Some (?keep s (p, ended))
                      }
                    })
               } = Some (p', e)"
          using run unfolding unf None option.case if_not_P [OF False] if_not_P [OF nf] .
        then obtain t q r where r: "split_rounds mem materialize 0 s p = Some (t, q, r)"
          by (auto simp: bind_eq_Some_conv)
        note some = some [unfolded r Option.bind.simps prod.case]
        have keep: "p' = q'\<lparr>ps_spec := Some u\<rparr> \<and> (e = e' \<or> (\<exists>f. e = Split_Fault f))" if "?keep u (q', e') = (p', e)" for u q' e'
          using that by (auto split: option.splits)
        note go = rounds [OF None nf r]
        show thesis
        proof (cases r)
          case (Accepted first count)
          then obtain u q1 ended where u: "tf_spec_replay mem first count t q = Some (u, q1, ended)"
            and k: "?keep u (if ended \<noteq> Op_Ok then failed_op token ended q1 else finish_accepted mem token u q1) = (p', e)"
            using some by (auto simp: bind_eq_Some_conv)
          obtain q' e' where q': "(if ended \<noteq> Op_Ok then failed_op token ended q1 else finish_accepted mem token u q1) = (q', e')"
            by fastforce
          have "end": "p' = q'\<lparr>ps_spec := Some u\<rparr> \<and> (e = e' \<or> (\<exists>f. e = Split_Fault f))" by (rule keep) (use k q' in simp)
          show thesis
            by (rule go [OF conjunct1 [OF "end"] conjunct2 [OF "end"]])
               (unfold Accepted rounds_end.case, intro exI conjI, rule u, rule q' [symmetric])
        next
          case (Settled tip first count)
          then obtain u q1 ended where u: "tf_spec_replay mem first count t q = Some (u, q1, ended)"
            and k: "(if ended \<noteq> Op_Ok then Some (?keep u (failed_op token ended q1))
                      else do {
                        (s, p, ended) \<leftarrow> finish_settled tip u q1;
                        Some (?keep s (p, ended))
                      }) = Some (p', e)"
            using some by (auto simp: bind_eq_Some_conv)
          show thesis
          proof (cases "ended = Op_Ok")
            case True
            then obtain v q' e' where v: "finish_settled tip u q1 = Some (v, q', e')" "?keep v (q', e') = (p', e)"
              using k by (auto simp: bind_eq_Some_conv)
            note "end" = keep [OF v(2)]
            show thesis
              by (rule go [OF conjunct1 [OF "end"] conjunct2 [OF "end"]])
                 (unfold Settled rounds_end.case, intro exI conjI, rule u, use True v(1) in auto)
          next
            case False
            obtain q' e' where q': "failed_op token ended q1 = (q', e')" by fastforce
            have "end": "p' = q'\<lparr>ps_spec := Some u\<rparr> \<and> (e = e' \<or> (\<exists>f. e = Split_Fault f))"
              by (rule keep) (use k q' False in simp)
            show thesis
              by (rule go [OF conjunct1 [OF "end"] conjunct2 [OF "end"]])
                 (unfold Settled rounds_end.case, intro exI conjI, rule u, use False q' in simp)
          qed
        next
          case Defeated
          obtain q' e' where q': "split_defeat t q = (q', e')" by fastforce
          have "end": "p' = q'\<lparr>ps_spec := Some t\<rparr> \<and> (e = e' \<or> (\<exists>f. e = Split_Fault f))"
            by (rule keep) (use some q' Defeated in simp)
          show thesis
            by (rule go [OF conjunct1 [OF "end"] conjunct2 [OF "end"]]) (use q' Defeated in simp)
        next
          case Starved
          have "end": "p' = (split_oom token q)\<lparr>ps_spec := Some t\<rparr> \<and> (e = Split_Failed \<or> (\<exists>f. e = Split_Fault f))"
            by (rule keep) (use some Starved in simp)
          show thesis
            by (rule go [OF conjunct1 [OF "end"] conjunct2 [OF "end"]]) (use Starved in simp)
        qed
      qed
    qed
  qed
qed

lemma failed_op_keeps: "failed_op token ended p = (p', e) \<Longrightarrow> keeps mem p p'"
  using fail_keeps [of mem p] by (auto simp: failed_op_def split_oom_def keeps_same split: op_end.splits)

lemma parser_split_keeps:
  assumes stop: "\<And>token p p'. stop token p = Some p' \<Longrightarrow> keeps cmem p p'"
  shows "split_keeps cmem (tf_parser_split mem materialize stop)"
  unfolding split_keeps_def
proof (intro allI impI)
  fix token p0 p' e
  assume run: "tf_parser_split mem materialize stop token p0 = Some (p', e)"
  let ?p = "p0\<lparr>ps_split_count := ps_split_count p0 + 1\<rparr>"
  have p: "keeps cmem p0 ?p" by (simp add: keeps_same)
  have spec: "keeps cmem q (q\<lparr>ps_spec := x\<rparr>)" for q x by (simp add: keeps_same)
  have oom: "keeps cmem q (split_oom token q)" for q unfolding split_oom_def by (rule fail_keeps)
  from run show "keeps cmem p0 p'"
  proof (cases rule: parser_split_cases)
    case stopped
    then show ?thesis using stop [of token ?p p'] keeps_trans [OF p] by blast
  next
    case (no_memory x)
    then show ?thesis using keeps_trans [OF p keeps_trans [OF oom spec]] by blast
  next
    case (rounds t q r q' e' x)
    have q: "keeps cmem ?p q" by (rule keeps_lexer [OF split_rounds_parser [OF rounds(3)]])
    have "keeps cmem q q'"
    proof (cases r)
      case (Accepted first count)
      then obtain u q1 ended where u: "tf_spec_replay mem first count t q = Some (u, q1, ended)"
        "(q', e') = (if ended \<noteq> Op_Ok then failed_op token ended q1 else finish_accepted mem token u q1)"
        using rounds(6) by auto
      have "keeps cmem q1 q'"
        using u(2) failed_op_keeps [of token ended q1 q' e'] finish_accepted_keeps [of mem token u q1 q' e']
        by (auto split: if_splits)
      then show ?thesis using replay_keeps [OF u(1)] keeps_trans by blast
    next
      case (Settled tip first count)
      then obtain u q1 ended where u: "tf_spec_replay mem first count t q = Some (u, q1, ended)"
        "if ended \<noteq> Op_Ok then (q', e') = failed_op token ended q1 else \<exists>v. finish_settled tip u q1 = Some (v, q', e')"
        using rounds(6) by auto
      have "keeps cmem q1 q'"
        using u(2) failed_op_keeps [of token ended q1 q' e'] finish_settled_keeps [of tip u q1 _ q' e']
        by (auto split: if_splits)
      then show ?thesis using replay_keeps [OF u(1)] keeps_trans by blast
    next
      case Defeated
      then show ?thesis using rounds(6) split_defeat_keeps [of t q q' e'] by simp
    next
      case Starved
      then show ?thesis using rounds(6) oom by simp
    qed
    then show ?thesis unfolding rounds(4) using keeps_trans [OF p keeps_trans [OF q keeps_trans [OF _ spec]]] by blast
  qed
qed

section \<open>The private run\<close>

lemma act_keeps:
  assumes "tf_parser_act mem state token action p = (p', token', c)"
  shows "keeps cmem p p'"
proof (cases action)
  case (Shift next_state extra repetition)
  then show ?thesis using assms shift_keeps by (fastforce simp: tf_parser_act_def Let_def split: prod.splits)
next
  case (Reduce child_count symbol dynamic_precedence production)
  then show ?thesis using assms reduce_keeps by (fastforce simp: tf_parser_act_def Let_def split: prod.splits)
next
  case Accept
  then show ?thesis using assms by (auto simp: tf_parser_act_def keeps_same split: if_splits)
next
  case Recover
  then show ?thesis
    using assms fail_unexpected_keeps by (fastforce simp: tf_parser_act_def unexpected_def Let_def split: prod.splits)
qed

lemma lex_keeps: "tf_parser_lex token p = Some (p', token', c) \<Longrightarrow> keeps mem p p'"
  using keeps_trans [OF keeps_same fail_keeps, of "p\<lparr>ps_lexer := _\<rparr>" p]
  by (auto simp: tf_parser_lex_def Let_def keeps_same split: option.splits)

lemma dispatch_keeps:
  assumes "tf_parser_dispatch mem split state token p = Some (p', token', c)" and "split_keeps cmem split"
  shows "keeps cmem p p'"
proof -
  consider "tf_actions (ps_lang p) state (tok_symbol token) = []"
    | action where "tf_actions (ps_lang p) state (tok_symbol token) = [action]"
    | a b rest where "tf_actions (ps_lang p) state (tok_symbol token) = a # b # rest"
    by (metis list.exhaust)
  then show ?thesis
  proof cases
    case 1
    then have "p' = p \<or> unexpected state token p = (p', token', c)"
      using assms(1) by (auto simp: tf_parser_dispatch_def split: option.splits)
    then show ?thesis
      using fail_unexpected_keeps [of state token p] keeps_same [of p p]
      by (auto simp: unexpected_def Let_def split: prod.splits)
  next
    case (2 action)
    then show ?thesis using assms(1) act_keeps by (simp add: tf_parser_dispatch_def)
  next
    case (3 a b rest)
    obtain q e where q: "split token p = Some (q, e)"
      and "(p', token', c) = (case e of Split_Ok token \<Rightarrow> (q, token, Dispatch (top_state q))
              | Split_Failed \<Rightarrow> (q, token, Done Failed) | Split_Fault f \<Rightarrow> (q, token, Done (Fault f)))"
      using assms(1) 3 by (auto simp: tf_parser_dispatch_def map_option_case split: option.splits)
    then have "p' = q" by (cases e) simp_all
    then show ?thesis using assms(2) q unfolding split_keeps_def by blast
  qed
qed

lemma ends_keeps:
  assumes "parser_ends mem split x r" and "split_keeps cmem split"
  shows "keeps cmem (fst x) (fst r)"
  using assms(1)
proof (induction rule: parser_ends.induct)
  case (ends_step x y r)
  obtain p token control p' token' control' where xy: "x = (p, token, control)" "y = (p', token', control')"
    by (cases x, cases y)
  have "keeps cmem p p'"
    using ends_step(1) lex_keeps dispatch_keeps [OF _ assms(2)] unfolding xy by (cases control) auto
  then show ?case using ends_step(3) keeps_trans by (auto simp: xy)
qed (use fail_keeps in \<open>auto simp: keeps_same\<close>)

lemma run_collects:
  assumes "tf_parser_run mem split lang source sz (Some (capture_sink cmem)) want s = Some (s', err, ended)"
    and "split_keeps cmem split"
  shows "collects s s'"
proof (cases "sz > ucast UINT32_MAX")
  case True
  then show ?thesis using assms(1) by (simp add: tf_parser_run_def)
next
  case False
  define p where "p = \<lparr>ps_lang = lang, ps_lexer = tf_lexer_init lang source (ucast sz),
                 ps_sink = capture_sink cmem, ps_payload = s,
                 ps_states = [], ps_nodes = [], ps_capacity = 0, ps_leading = 0,
                 ps_root_emitted = False, ps_error = (if want then Some zero_error else None),
                 ps_split_count = 0, ps_spec = (None :: 'a option)\<rparr>"
  obtain q ok where q: "tf_parser_grow mem 64 p = (q, ok)" by fastforce
  have sink: "ps_sink q = capture_sink cmem" "ps_payload q = s" using grow_keeps [OF q] by (simp_all add: p_def)
  let ?x = "if ok then (q\<lparr>ps_states := [1]\<rparr>, zero_token, Lex :: nat control) else (q, zero_token, Out_Of_Memory)"
  have "map_option (\<lambda>(self, ended).
               (case ended of Failed \<Rightarrow> discard_values (ps_sink self) (ps_nodes self) (ps_payload self)
                | _ \<Rightarrow> ps_payload self, ps_error self, ended)) (tf_parser_loop mem split ?x) = Some (s', err, ended)"
    using assms(1) unfolding tf_parser_run_def Let_def option.case p_def [symmetric] q prod.case if_not_P [OF False] .
  then obtain r where r: "tf_parser_loop mem split ?x = Some (r, ended)"
    and s': "s' = (case ended of Failed \<Rightarrow> discard_values (ps_sink r) (ps_nodes r) (ps_payload r) | _ \<Rightarrow> ps_payload r)"
    by auto
  have "keeps cmem (fst ?x) r" using ends_keeps [OF loop_ends [OF r] assms(2)] unfolding fst_conv .
  moreover have "ps_sink (fst ?x) = capture_sink cmem" "ps_payload (fst ?x) = s" using sink by simp_all
  ultimately have "ps_sink r = capture_sink cmem" "collects s (ps_payload r)" by (simp_all add: keeps_def)
  then show ?thesis
    by (simp add: s' discard_values_def capture_sink_def split: run_end.split)
qed

lemma materialize_collects:
  assumes "tf_spec_materialize mem split s = Some (s', ok)" and "split_keeps mem split"
  shows "collects s s'" and "ok \<longleftrightarrow> \<not> sp_failed s'"
proof -
  have "collects s s' \<and> (ok \<longleftrightarrow> \<not> sp_failed s')"
  proof (cases "sp_materialized s")
    case True
    then show ?thesis using assms(1) by (auto simp: tf_spec_materialize_def)
  next
    case False
    let ?run = "tf_parser_run mem split (ps_lang (sp_owner s)) (lx_source (ps_lexer (sp_owner s)))
         (ucast (lx_size (ps_lexer (sp_owner s)))) (Some (capture_sink mem)) False (s\<lparr>sp_materialized := True\<rparr>)"
    have "?run \<noteq> None"
    proof
      assume "?run = None"
      then show False using assms(1) False by (simp add: tf_spec_materialize_def)
    qed
    then obtain t err ended where t: "?run = Some (t, err, ended)" by auto
    have res: "s' = (case ended of Fault f \<Rightarrow> (if \<not> sp_captured t then t\<lparr>sp_failed := True\<rparr> else t)\<lparr>sp_failed := True, sp_fault := Some f\<rparr>
          | _ \<Rightarrow> if \<not> sp_captured t then t\<lparr>sp_failed := True\<rparr> else t) \<and> (ok \<longleftrightarrow> \<not> sp_failed s')"
      using assms(1) unfolding tf_spec_materialize_def if_not_P [OF False] t Option.bind.simps prod.case Let_def option.inject prod.inject by blast
    have "collects s (s\<lparr>sp_materialized := True\<rparr>)" by (simp add: collects_def shapes_only_def frame_def graph_grows_def)
    then have "collects s t" using run_collects [OF t assms(2)] collects_trans by blast
    moreover have "s' = t \<or> sp_failed s'" using conjunct1 [OF res] by (auto split: run_end.splits)
    ultimately show ?thesis using conjunct2 [OF res] collects_failed by blast
  qed
  then show "collects s s'" "ok \<longleftrightarrow> \<not> sp_failed s'" by simp_all
qed

lemma private_split_keeps: "split_keeps mem (private_split mem n)"
proof (cases n)
  case 0
  then show ?thesis by (simp add: split_keeps_def)
next
  case (Suc k)
  have "keeps mem p p'" if "capture_stop mem token p = Some p'" for token p p'
    using that collects_capture by (auto simp: capture_stop_def keeps_same keeps_def split: if_splits)
  then show ?thesis unfolding Suc private_split.simps by (rule parser_split_keeps)
qed

interpretation replay: shape_recovery "tf_spec_materialize mem (private_split mem n)" for mem n
  by unfold_locales (use materialize_collects [OF _ private_split_keeps] in \<open>auto simp: collects_def\<close>)

end
