(* ===== verification/Spec_Cover.thy ===== *)
theory Spec_Cover
  imports Spec_Shapes
begin

text \<open>
  What a pop hands to a reduction: a run of trees that covers the input from the end of the
  predecessor to the end of the version, and can be cut between any two of its trees.
\<close>

section \<open>Runs of trees\<close>

abbreviation tree_end :: "TFSpec \<Rightarrow> nat \<Rightarrow> u32" where
  "tree_end s t \<equiv> max (fork_end s) (tok_end_byte (tr_token (sp_trees s ! t)))"

text \<open>A tree that ends at a place of the source, and replays up to there from \<open>a\<close>.\<close>

definition spans_tree :: "TFLanguage \<Rightarrow> u8 list \<Rightarrow> TFSpec \<Rightarrow> nat \<Rightarrow> u32 \<Rightarrow> bool" where
  "spans_tree lang source s t a \<longleftrightarrow>
     visits lang source (sp_trees s) (sp_children s) t a (tree_end s t) \<and>
     unat (tok_end_byte (tr_token (sp_trees s ! t))) \<le> length source \<and>
     tok_end_point (tr_token (sp_trees s ! t)) = point_at source (unat (tok_end_byte (tr_token (sp_trees s ! t))))"

fun cover :: "TFLanguage \<Rightarrow> u8 list \<Rightarrow> TFSpec \<Rightarrow> nat list \<Rightarrow> u32 \<Rightarrow> u32 \<Rightarrow> bool" where
  "cover lang source s [] a b \<longleftrightarrow> a = b"
| "cover lang source s (t # us) a b \<longleftrightarrow> spans_tree lang source s t a \<and> cover lang source s us (tree_end s t) b"

lemma cover_append [simp]:
  "cover lang source s (us @ vs) a c \<longleftrightarrow> (\<exists>b. cover lang source s us a b \<and> cover lang source s vs b c)"
  by (induction us arbitrary: a) auto

lemma cover_last:
  "cover lang source s us a b \<Longrightarrow> us \<noteq> [] \<Longrightarrow>
     b = tree_end s (last us) \<and> unat (tok_end_byte (tr_token (sp_trees s ! last us))) \<le> length source \<and>
     tok_end_point (tr_token (sp_trees s ! last us)) = point_at source (unat (tok_end_byte (tr_token (sp_trees s ! last us))))"
  by (induction us arbitrary: a) (auto simp: spans_tree_def)

lemma cover_visits: "cover lang source s us a b \<Longrightarrow> visits_all lang source (sp_trees s) (sp_children s) us a b"
  by (induction us arbitrary: a) (auto simp: spans_tree_def)

lemma cover_length: "cover lang source s us a b \<Longrightarrow> t \<in> set us \<Longrightarrow> t < length (sp_trees s)"
  by (induction us arbitrary: a) (auto simp: spans_tree_def dest: visits_length)

lemma same_token_grows: "graph_grows s s' \<Longrightarrow> t < length (sp_trees s) \<Longrightarrow> tr_token (sp_trees s' ! t) = tr_token (sp_trees s ! t)"
  using tree_grows(2) by (auto simp: same_tree_def)

lemma same_extra_grows: "graph_grows s s' \<Longrightarrow> t < length (sp_trees s) \<Longrightarrow> tr_extra (sp_trees s' ! t) = tr_extra (sp_trees s ! t)"
  using tree_grows(2) by (auto simp: same_tree_def)

lemma spans_tree_grows:
  assumes "graph_grows s s'" and "spans_tree lang source s t a"
  shows "spans_tree lang source s' t a"
proof -
  have "t < length (sp_trees s)" using assms(2) visits_length by (auto simp: spans_tree_def)
  then show ?thesis
    using assms visits_grows(1) [of "sp_trees s" "sp_children s" "sp_trees s'" "sp_children s'"]
    by (auto simp: spans_tree_def same_token_grows fork_end_grows graph_grows_def)
qed

lemma cover_grows:
  assumes "graph_grows s s'"
  shows "cover lang source s us a b \<Longrightarrow> cover lang source s' us a b"
proof (induction us arbitrary: a)
  case (Cons t us)
  have "t < length (sp_trees s)" using cover_length [OF Cons.prems] by simp
  then have "tree_end s' t = tree_end s t" using assms by (simp add: same_token_grows fork_end_grows)
  then show ?case using Cons spans_tree_grows [OF assms] by simp
qed simp

lemma link_spans:
  assumes inv: "spec_inv lang source E s" and n: "n < length (sp_nodes s)" "n \<notin> E" and l: "l \<in> set (node_links s n)"
  shows "spans_tree lang source s (lk_tree l) (from_fork s (lk_node l))" and "tree_end s (lk_tree l) = from_fork s n"
    and "tok_end_byte (tr_token (sp_trees s ! lk_tree l)) = sn_byte (sp_nodes s ! n)"
    and "lk_node l < length (sp_nodes s)" and "lk_node l \<notin> E"
  using spec_inv_node(3) [OF inv n l] spec_inv_node(1) [OF inv n(1)]
  by (auto simp: link_ok_def Let_def spans_tree_def node_ok_def)

section \<open>Below a version\<close>

text \<open>A path from a version's node \<open>top\<close> down to \<open>n\<close>, by its trees.\<close>

definition below :: "TFLanguage \<Rightarrow> u8 list \<Rightarrow> nat set \<Rightarrow> nat \<Rightarrow> TFSpec \<Rightarrow> nat \<Rightarrow> nat list \<Rightarrow> bool" where
  "below lang source E tip s n path \<longleftrightarrow>
     n < length (sp_nodes s) \<and> n \<notin> E \<and> tip < length (sp_nodes s) \<and>
     cover lang source s path (from_fork s n) (from_fork s tip) \<and>
     (if path = [] then n = tip
      else tok_end_byte (tr_token (sp_trees s ! last path)) = sn_byte (sp_nodes s ! tip))"

lemma below_start: "tip < length (sp_nodes s) \<Longrightarrow> tip \<notin> E \<Longrightarrow> below lang source E tip s tip []"
  by (simp add: below_def)

lemma below_step:
  assumes "spec_inv lang source E s" and "below lang source E tip s n path" and "l \<in> set (node_links s n)"
  shows "below lang source E tip s (lk_node l) (lk_tree l # path)"
  using assms(2) link_spans [OF assms(1) _ _ assms(3)] by (auto simp: below_def)

lemma below_grows:
  assumes "graph_grows s s'" and "below lang source E tip s n path"
  shows "below lang source E tip s' n path"
proof -
  have b: "n < length (sp_nodes s)" "n \<notin> E" "tip < length (sp_nodes s)"
    "cover lang source s path (from_fork s n) (from_fork s tip)"
    "if path = [] then n = tip else tok_end_byte (tr_token (sp_trees s ! last path)) = sn_byte (sp_nodes s ! tip)"
    using assms(2) by (simp_all add: below_def)
  note same = node_grows(1,3) [OF assms(1) b(1)] node_grows(1,3) [OF assms(1) b(3)] fork_end_grows [OF assms(1)]
  have "cover lang source s' path (from_fork s' n) (from_fork s' tip)"
    using cover_grows [OF assms(1) b(4)] by (simp only: same)
  moreover have "if path = [] then n = tip else tok_end_byte (tr_token (sp_trees s' ! last path)) = sn_byte (sp_nodes s' ! tip)"
    using b(5) same_token_grows [OF assms(1) cover_length [OF b(4) last_in_set]] same(4) by simp
  ultimately show ?thesis using b(2) same(1,3) by (simp add: below_def)
qed

lemma walks_below: "walks lang source E goal (below lang source E tip)"
  unfolding walks_def
proof (intro conjI allI impI)
  show "below lang source E tip s (lk_node l) (lk_tree l # path)"
    if "spec_inv lang source E s" "below lang source E tip s n path" "l \<in> set (node_links s n)" for s n path l
    by (rule below_step [OF that])
  show "below lang source E tip s' n path" if "below lang source E tip s n path" "graph_grows s s'" for s s' n path
    by (rule below_grows [OF that(2,1)])
  show "n < length (sp_nodes s)" if "below lang source E tip s n path" for s n path
    using that by (simp add: below_def)
qed

lemma cover_only:
  assumes "sp_trees s' = sp_trees s" and "sp_children s' = sp_children s" and "sp_owner s' = sp_owner s"
  shows "cover lang source s' us a b = cover lang source s us a b"
  using assms by (induction us arbitrary: a) (simp_all add: spans_tree_def fork_end_def)

lemma graph_only_below: "graph_only (below lang source E tip)"
  unfolding graph_only_def
proof (intro allI impI)
  fix s s' :: TFSpec and n path
  assume same: "sp_nodes s' = sp_nodes s" "sp_links s' = sp_links s" "sp_trees s' = sp_trees s"
    "sp_children s' = sp_children s" "sp_owner s' = sp_owner s"
  have "fork_end s' = fork_end s" by (simp add: fork_end_def same)
  then show "below lang source E tip s' n path = below lang source E tip s n path"
    by (simp add: below_def cover_only [OF same(3-5)] same)
qed

section \<open>Versions\<close>

text \<open>A version that is not halted stands on a node that may be built on, not before the fork.\<close>

definition head_ok :: "nat set \<Rightarrow> TFSpec \<Rightarrow> TFSpecHead \<Rightarrow> bool" where
  "head_ok E s h \<longleftrightarrow> \<not> hd_halted h \<longrightarrow>
     hd_node h < length (sp_nodes s) \<and> hd_node h \<notin> E \<and> fork_end s \<le> sn_byte (sp_nodes s ! hd_node h)"

lemma head_ok_grows: "graph_grows s s' \<Longrightarrow> head_ok E s h \<Longrightarrow> head_ok E s' h"
  by (auto simp: head_ok_def node_grows fork_end_grows)

lemma head_ok_only:
  "sp_nodes s' = sp_nodes s \<Longrightarrow> sp_owner s' = sp_owner s \<Longrightarrow> head_ok E s' h = head_ok E s h"
  by (simp add: head_ok_def fork_end_def)

definition live_at :: "nat set \<Rightarrow> TFSpec \<Rightarrow> u32 \<Rightarrow> TFSpecHead \<Rightarrow> bool" where
  "live_at E s byte h \<longleftrightarrow> \<not> hd_halted h \<and> head_ok E s h \<and> sn_byte (sp_nodes s ! hd_node h) = byte"

lemma live_at_grows: "graph_grows s s' \<Longrightarrow> live_at E s byte h \<Longrightarrow> live_at E s' byte h"
  using head_ok_grows [of s s' E h] node_grows(3) [of s s' "hd_node h"] by (auto simp: live_at_def head_ok_def)

lemma live_at_head: "live_at E s byte h \<Longrightarrow> head_ok E s h"
  by (simp add: live_at_def)

abbreviation heads_ok :: "nat set \<Rightarrow> TFSpec \<Rightarrow> bool" where
  "heads_ok E s \<equiv> list_all (head_ok E s) (sp_heads s)"

text \<open>Steps of the work on the versions.\<close>

abbreviation graph_step :: "TFLanguage \<Rightarrow> u8 list \<Rightarrow> nat set \<Rightarrow> TFSpec \<Rightarrow> TFSpec \<Rightarrow> bool" where
  "graph_step lang source E \<equiv> pop_step lang source E 0"

lemma pop_step_graph: "pop_step lang source E goal s s' \<Longrightarrow> graph_step lang source E s s'"
  by (simp add: pop_step_def TF_SPEC_NONE_def)

lemma graph_step_grows: "graph_step lang source E s s' \<Longrightarrow> graph_grows s s'"
  by (simp add: pop_step_def)

lemma grown_step:
  assumes "grown lang source E Q s s'" and "\<not> sp_failed s'" and "spec_inv lang source E s" and Q
  shows "graph_step lang source E s s'" and "frame s s'"
  using assms by (simp_all add: grown_def pop_step_def frame_def TF_SPEC_NONE_def)

lemma heads_step:
  assumes "\<not> sp_failed s" and "spec_inv lang source E s"
  shows "graph_step lang source E s (s\<lparr>sp_heads := h\<rparr>)"
  using assms by (simp add: pop_step_def frame_def TF_SPEC_NONE_def)

lemma step_fields:
  "graph_step lang source E s s' \<Longrightarrow> sp_finished s' = sp_finished s \<and> sp_cached s' = sp_cached s \<and>
     sp_cached_byte s' = sp_cached_byte s \<and> sp_has_cache s' = sp_has_cache s \<and> sp_cached_keyword s' = sp_cached_keyword s"
  by (simp add: pop_step_def frame_def)

lemma remove_head_split: "sp_heads s = us @ h # vs \<Longrightarrow> tf_spec_remove_head (length us) s = s\<lparr>sp_heads := us @ vs\<rparr>"
  by (simp add: tf_spec_remove_head_def)

end
