(* ===== verification/Spec_Reduce.thy ===== *)
theory Spec_Reduce
  imports Spec_Cover
begin

text \<open>
  A reduction of a version: the paths popped are grouped by predecessor, the preferred parent of
  each group is pushed with the extras behind it, and the versions that come of it are merged.
  The invariant holds after it and only versions are added.
\<close>

section \<open>Groups of slices\<close>

lemma slice_groups_prefix:
  assumes "slice_groups rest = groups" and "groups = [] \<or> sl_version (hd (hd groups)) \<noteq> v"
    and "\<forall>g \<in> set groups. g \<noteq> []" and "p \<noteq> []" and "\<forall>sl \<in> set p. sl_version sl = v"
  shows "slice_groups (p @ rest) = p # groups"
  using assms(4,5)
proof (induction p)
  case (Cons sl p)
  show ?case
  proof (cases p)
    case Nil
    show ?thesis
    proof (cases groups)
      case Nil
      then show ?thesis using assms(1) \<open>p = []\<close> by simp
    next
      case (Cons g gs)
      then obtain other others where g: "groups = (other # others) # gs" using assms(3) by (cases g) auto
      have "slice_groups rest = (other # others) # gs" using assms(1) g by simp
      moreover have "sl_version other \<noteq> sl_version sl" using assms(2) Cons.prems(2) g by simp
      ultimately show ?thesis by (simp add: \<open>p = []\<close> g)
    qed
  next
    case (Cons other others)
    have "p \<noteq> []" "\<forall>sl \<in> set p. sl_version sl = v" "sl_version sl = v" "sl_version other = v"
      using Cons Cons.prems(2) by simp_all
    moreover from this(1,2) have "slice_groups (p @ rest) = (other # others) # groups"
      unfolding Cons [symmetric] by (rule Cons.IH)
    ultimately show ?thesis by (simp add: Cons)
  qed
qed simp

lemma slice_groups_concat:
  assumes "\<forall>i < length paths. paths ! i \<noteq> [] \<and> (\<forall>sl \<in> set (paths ! i). sl_version sl = k + i)"
  shows "slice_groups (concat paths) = paths"
  using assms
proof (induction paths arbitrary: k)
  case (Cons p ps)
  have tl: "ps ! i \<noteq> [] \<and> (\<forall>sl \<in> set (ps ! i). sl_version sl = Suc k + i)" if "i < length ps" for i
    using Cons.prems [rule_format, of "Suc i"] that by simp
  have "slice_groups (concat ps) = ps" using Cons.IH [of "Suc k"] tl by blast
  moreover have "ps = [] \<or> sl_version (hd (hd ps)) \<noteq> k"
    using tl [of 0] by (cases ps) (auto dest: hd_in_set)
  moreover have "\<forall>g \<in> set ps. g \<noteq> []" using tl by (metis in_set_conv_nth)
  moreover have "p \<noteq> []" "\<forall>sl \<in> set p. sl_version sl = k" using Cons.prems [rule_format, of 0] by simp_all
  ultimately show ?case using slice_groups_prefix by simp
qed simp

section \<open>Parents\<close>

lemma drop_extras: "x \<in> set (drop (length (dropWhile P (rev xs))) xs) \<Longrightarrow> P x"
proof -
  have "rev xs = takeWhile P (rev xs) @ dropWhile P (rev xs)" by simp
  then have xs: "xs = rev (dropWhile P (rev xs)) @ rev (takeWhile P (rev xs))" by (metis rev_append rev_rev_ident)
  assume "x \<in> set (drop (length (dropWhile P (rev xs))) xs)"
  also have "drop (length (dropWhile P (rev xs))) xs = rev (takeWhile P (rev xs))"
    by (subst xs) (simp del: rev_append)
  finally show "P x" by (auto dest: set_takeWhileD)
qed

abbreviation slice_ids :: "TFSpec \<Rightarrow> nat \<Rightarrow> nat \<Rightarrow> nat list" where
  "slice_ids s first count \<equiv> map (\<lambda>i. sp_children s ! (first + i)) [0..<count]"

lemma slice_ids_take:
  "first + count \<le> length (sp_children s) \<Longrightarrow> slice_ids s first count = take count (drop first (sp_children s))"
  by (rule nth_equalityI) simp_all

lemma slice_ids_split:
  "k \<le> count \<Longrightarrow> slice_ids s first count = slice_ids s first k @ slice_ids s (first + k) (count - k)"
  by (rule nth_equalityI) (auto simp: nth_append add.assoc)

lemma slice_ids_grows:
  "graph_grows s s' \<Longrightarrow> first + count \<le> length (sp_children s) \<Longrightarrow> slice_ids s' first count = slice_ids s first count"
  by (auto simp: graph_grows_def forest_grows_def nth_append)

text \<open>A parent to go on top of \<open>base\<close>, with the extras behind it, up to the end of the version at \<open>tip\<close>.\<close>

definition parent_fits :: "TFLanguage \<Rightarrow> u8 list \<Rightarrow> TFSpec \<Rightarrow> nat \<Rightarrow> nat \<Rightarrow> nat \<Rightarrow> nat \<Rightarrow> nat \<Rightarrow> bool" where
  "parent_fits lang source s base tip parent first count \<longleftrightarrow>
     first + count \<le> length (sp_children s) \<and> base < length (sp_nodes s) \<and> tip < length (sp_nodes s) \<and>
     cover lang source s (parent # slice_ids s first count) (from_fork s base) (from_fork s tip) \<and>
     tok_end_byte (tr_token (sp_trees s ! last (parent # slice_ids s first count))) = sn_byte (sp_nodes s ! tip) \<and>
     list_all (\<lambda>t. tr_extra (sp_trees s ! t)) (slice_ids s first count) \<and>
     \<not> tr_extra (sp_trees s ! parent) \<and> \<not> tr_inherited (sp_trees s ! parent) \<and> \<not> tr_leaf (sp_trees s ! parent)"

lemma parent_fits_grows:
  assumes g: "graph_grows s s'" and fits: "parent_fits lang source s base tip parent first count"
  shows "parent_fits lang source s' base tip parent first count"
proof -
  have b: "first + count \<le> length (sp_children s)" "base < length (sp_nodes s)" "tip < length (sp_nodes s)"
    and c: "cover lang source s (parent # slice_ids s first count) (from_fork s base) (from_fork s tip)"
    using fits by (simp_all add: parent_fits_def)
  have ids: "slice_ids s' first count = slice_ids s first count" by (rule slice_ids_grows [OF g b(1)])
  have len: "t < length (sp_trees s)" if "t \<in> set (parent # slice_ids s first count)" for t
    by (rule cover_length [OF c that])
  have parent: "same_tree (sp_trees s ! parent) (sp_trees s' ! parent)" by (rule tree_grows(2) [OF g len]) simp
  have "last (parent # slice_ids s first count) \<in> set (parent # slice_ids s first count)" by (rule last_in_set) simp
  then have "tr_token (sp_trees s' ! last (parent # slice_ids s first count)) = tr_token (sp_trees s ! last (parent # slice_ids s first count))"
    using same_token_grows [OF g len] by blast
  moreover have "list_all (\<lambda>t. tr_extra (sp_trees s' ! t)) (slice_ids s first count)"
    using fits same_extra_grows [OF g len] by (simp add: parent_fits_def list_all_iff del: set_map)
  moreover have "cover lang source s' (parent # slice_ids s first count) (from_fork s' base) (from_fork s' tip)"
    using cover_grows [OF g c] by (simp only: node_grows(3) [OF g b(2)] node_grows(3) [OF g b(3)] fork_end_grows [OF g])
  moreover have "first + count \<le> length (sp_children s')"
    using b(1) g by (auto simp: graph_grows_def forest_grows_def)
  ultimately show ?thesis
    using fits parent node_grows(1,3) [OF g b(2)] node_grows(1,3) [OF g b(3)]
    unfolding parent_fits_def ids by (simp only: same_tree_def simp_thms)
qed

lemma spec_children_ids: "spec_children s first count = map (\<lambda>t. sp_trees s ! t) (slice_ids s first count)"
  by (simp add: spec_children_def)

text \<open>The parent over the kids of a slice, as soon as it is added.\<close>

lemma spec_parent_fits:
  assumes run: "tf_spec_parent mem symbol production structural_count (sl_first sl) (slice_kids s sl) base s = (s', parent)"
    and nf: "\<not> sp_failed s'" and inv: "spec_inv lang source E s"
    and sl: "slice_ok (below lang source E tip) s base sl" and symbol: "is_symbol lang symbol" "symbol \<noteq> 0"
  shows "parent_fits lang source s' base tip parent (sl_first sl + slice_kids s sl) (sl_count sl - slice_kids s sl)"
    and "graph_step lang source E s s'" and "frame s s'" and "parent < TF_SPEC_NONE"
proof -
  let ?k = "slice_kids s sl"
  let ?ids = "slice_ids s (sl_first sl) (sl_count sl)"
  let ?kids = "slice_ids s (sl_first sl) ?k"
  let ?trail = "slice_ids s (sl_first sl + ?k) (sl_count sl - ?k)"
  define tree where "tree = spec_parent symbol production structural_count (sl_first sl) ?k (sp_nodes s ! base)
    (map (\<lambda>t. sp_trees s ! t) ?kids)"
  have run: "tf_spec_tree mem tree s = (s', parent)"
    using run unfolding tf_spec_parent_def spec_children_ids tree_def .
  obtain c where c: "\<not> sp_failed s" "parent = length (sp_trees s)" "parent < TF_SPEC_NONE"
    "s' = s\<lparr>sp_trees := sp_trees s @ [tree], sp_capacity := c\<rparr>"
    using tree_Ok [OF run nf] by metis
  note grows = spec_inv_tree(2) [OF run nf inv]
  show step: "graph_step lang source E s s'" "frame s s'"
    using c(1) spec_inv_tree [OF run nf inv] inv by (simp_all add: pop_step_def frame_def c(4) TF_SPEC_NONE_def)
  show "parent < TF_SPEC_NONE" by (rule c(3))
  have len: "sl_first sl + sl_count sl \<le> length (sp_children s)" using sl by (simp add: slice_ok_def)
  have bel: "below lang source E tip s base ?ids" using sl slice_ids_take [OF len] by (simp add: slice_ok_def)
  have k: "?k \<le> sl_count sl"
    unfolding slice_kids_def using length_dropWhile_le [of _ "rev (spec_children s (sl_first sl) (sl_count sl))"]
    by (simp add: spec_children_ids)
  have split: "?ids = ?kids @ ?trail" by (rule slice_ids_split [OF k])
  have extra: "tr_extra (sp_trees s ! t)" if "t \<in> set ?trail" for t
  proof -
    have drop_mapped: "length (dropWhile P (rev (map f xs))) = length (dropWhile (\<lambda>x. P (f x)) (rev xs))"
      for P :: "TFSpecTree \<Rightarrow> bool" and f and xs :: "nat list" by (simp add: rev_map dropWhile_map comp_def)
    have "?k = length (dropWhile (\<lambda>t. tr_extra (sp_trees s ! t)) (rev ?ids))"
      unfolding slice_kids_def spec_children_ids drop_mapped ..
    moreover have "?trail = drop ?k ?ids" unfolding split using k by simp
    ultimately show ?thesis using drop_extras [of t "\<lambda>t. tr_extra (sp_trees s ! t)" ?ids] that by simp
  qed
  have b: "base < length (sp_nodes s)" "tip < length (sp_nodes s)" "cover lang source s ?ids (from_fork s base) (from_fork s tip)"
    "if ?ids = [] then base = tip else tok_end_byte (tr_token (sp_trees s ! last ?ids)) = sn_byte (sp_nodes s ! tip)"
    using bel unfolding below_def by blast+
  obtain m where m: "cover lang source s ?kids (from_fork s base) m" "cover lang source s ?trail m (from_fork s tip)"
    using b(3) unfolding split cover_append by blast
  have fields: "tr_first_child tree = sl_first sl" "tr_child_count tree = ?k" "\<not> tr_leaf tree" "\<not> tr_extra tree"
    "\<not> tr_inherited tree" "tok_symbol (tr_token tree) = symbol"
    "tok_end_byte (tr_token tree) = (if ?kids = [] then sn_byte (sp_nodes s ! base) else tok_end_byte (tr_token (sp_trees s ! last ?kids)))"
    "tok_end_point (tr_token tree) = (if ?kids = [] then sn_point (sp_nodes s ! base) else tok_end_point (tr_token (sp_trees s ! last ?kids)))"
    unfolding tree_def spec_parent_def Let_def by (simp_all add: last_map)
  have s': "sp_trees s' ! parent = tree" "parent < length (sp_trees s')" "sp_children s' = sp_children s" "sp_nodes s' = sp_nodes s"
    "sp_owner s' = sp_owner s"
    using c(2) by (simp_all add: c(4))
  have fork: "fork_end s' = fork_end s" by (rule fork_end_grows [OF grows])
  have ends: "m = max (fork_end s) (tok_end_byte (tr_token tree)) \<and> unat (tok_end_byte (tr_token tree)) \<le> length source \<and>
      tok_end_point (tr_token tree) = point_at source (unat (tok_end_byte (tr_token tree)))"
  proof (cases "?kids = []")
    case True
    then have "m = from_fork s base" using m(1) by simp
    moreover have "node_ok lang source (sp_nodes s ! base)" by (rule spec_inv_node(1) [OF inv b(1)])
    ultimately show ?thesis unfolding fields(7,8) if_P [OF True] by (simp add: node_ok_def)
  next
    case False
    from cover_last [OF m(1) False] show ?thesis unfolding fields(7,8) if_not_P [OF False] .
  qed
  have "kids_of (sp_children s') tree = ?kids"
    unfolding kids_of_def fields(1,2) s'(3) by (rule slice_ids_take [symmetric]) (use len k in simp)
  then have "visits_all lang source (sp_trees s') (sp_children s') (kids_of (sp_children s') tree) (from_fork s base) m"
    using cover_visits [OF cover_grows [OF grows m(1)]] by simp
  then have "visits lang source (sp_trees s') (sp_children s') parent (from_fork s base) m"
    by (intro visits_parent) (use fields symbol len k in \<open>simp_all add: s'\<close>)
  then have "spans_tree lang source s' parent (from_fork s base)" "tree_end s' parent = m"
    using ends by (simp_all add: spans_tree_def s'(1) fork)
  moreover have "cover lang source s' ?trail m (from_fork s tip)" by (rule cover_grows [OF grows m(2)])
  ultimately have cov: "cover lang source s' (parent # ?trail) (from_fork s base) (from_fork s tip)" by simp
  have last: "tok_end_byte (tr_token (sp_trees s' ! last (parent # ?trail))) = sn_byte (sp_nodes s ! tip)"
  proof (cases "?trail = []")
    case True
    then have ids: "?ids = ?kids" using split by simp
    have "tok_end_byte (tr_token tree) = sn_byte (sp_nodes s ! tip)"
      using b(4) unfolding ids fields(7) by (auto split: if_splits)
    then show ?thesis using True s'(1) by simp
  next
    case False
    then have ids: "last (parent # ?trail) = last ?ids" "?ids \<noteq> []" unfolding split by simp_all
    note ids = ids last_in_set [OF ids(2)]
    have "tr_token (sp_trees s' ! last ?ids) = tr_token (sp_trees s ! last ?ids)"
      by (rule same_token_grows [OF grows cover_length [OF b(3) ids(3)]])
    then show ?thesis using b(4) unfolding ids(1) if_not_P [OF ids(2)] by simp
  qed
  have "tr_extra (sp_trees s' ! t)" if "t \<in> set ?trail" for t
    using extra [OF that] same_extra_grows [OF grows cover_length [OF m(2) that]] by simp
  then have extras: "list_all (\<lambda>t. tr_extra (sp_trees s' ! t)) ?trail" unfolding list_all_iff by (rule ballI)
  show "parent_fits lang source s' base tip parent (sl_first sl + ?k) (sl_count sl - ?k)"
    unfolding parent_fits_def s'(1,3,4) fork using b(1,2) len k cov last extras fields(3-5) by simp
qed

text \<open>The precedence of a tree may be set.\<close>

lemma set_precedence_step:
  assumes "\<not> sp_failed s" and "spec_inv lang source E s"
  shows "graph_step lang source E s (s\<lparr>sp_trees := (sp_trees s)[t := (sp_trees s ! t)\<lparr>tr_precedence := k\<rparr>]\<rparr>)"
proof -
  let ?s = "s\<lparr>sp_trees := (sp_trees s)[t := (sp_trees s ! t)\<lparr>tr_precedence := k\<rparr>]\<rparr>"
  have "same_tree (sp_trees s ! i) (sp_trees ?s ! i)" if "i < length (sp_trees s)" for i
    using that by (cases "i = t") (simp_all add: same_tree_def)
  then have g: "graph_grows s ?s" by (simp add: graph_grows_def forest_grows_def)
  have "spec_inv lang source E ?s" by (rule spec_inv_forest [OF assms(2) g]) simp_all
  then show ?thesis using assms g by (simp add: pop_step_def frame_def TF_SPEC_NONE_def)
qed

section \<open>The extras behind a parent\<close>

abbreviation push_trailing ::
  "allocator \<Rightarrow> nat \<Rightarrow> TSStateId \<Rightarrow> nat \<Rightarrow> TFSpec \<times> nat \<Rightarrow> TFSpec \<times> nat" where
  "push_trailing mem first q j \<equiv> \<lambda>(s, tip). if sp_failed s then (s, tip) else tf_spec_push mem tip (sp_children s ! (first + j)) q s"

lemma push_trailing_failed: "sp_failed s \<Longrightarrow> fold (push_trailing mem first q) js (s, n) = (s, n)"
  by (induction js) simp_all

text \<open>What a push adds.\<close>

lemma push_step:
  assumes push: "tf_spec_push mem previous tree q s = (s', n)" "\<not> sp_failed s'"
    and inv: "spec_inv lang source E s" and prev: "previous < length (sp_nodes s)" "previous \<notin> E"
    and q: "is_state lang q" and tree: "spans_tree lang source s tree (from_fork s previous)"
    and accept: "accepting lang q \<Longrightarrow> (if tr_extra (sp_trees s ! tree) then sn_state (sp_nodes s ! previous) = q
        else \<not> tr_inherited (sp_trees s ! tree) \<and> \<not> tr_leaf (sp_trees s ! tree))"
  shows "graph_step lang source E s s'" and "sp_heads s' = sp_heads s" and "sp_children s' = sp_children s" and "sp_trees s' = sp_trees s"
    and "n < length (sp_nodes s')" and "n \<notin> E" and "sn_state (sp_nodes s' ! n) = q"
    and "sn_byte (sp_nodes s' ! n) = tok_end_byte (tr_token (sp_trees s ! tree))" and "sp_slices s' = sp_slices s"
proof -
  have t: "unat (tok_end_byte (tr_token (sp_trees s ! tree))) \<le> length source"
    "tok_end_point (tr_token (sp_trees s ! tree)) = point_at source (unat (tok_end_byte (tr_token (sp_trees s ! tree))))"
    "visits lang source (sp_trees s) (sp_children s) tree (from_fork s previous) (tree_end s tree)"
    using tree by (simp_all add: spans_tree_def)
  note p = push_inv [OF push inv prev disjI1 [OF refl] q t accept]
  have "frame s s'" by (rule push_Ok [OF push]) (simp add: frame_def)
  then show "graph_step lang source E s s'" using p(1-3) inv by (simp add: pop_step_def frame_def TF_SPEC_NONE_def)
  show "sp_heads s' = sp_heads s" "sp_children s' = sp_children s" "sp_trees s' = sp_trees s"
    "n < length (sp_nodes s')" "n \<notin> E" "sn_state (sp_nodes s' ! n) = q"
    "sn_byte (sp_nodes s' ! n) = tok_end_byte (tr_token (sp_trees s ! tree))"
    using p by simp_all
  show "sp_slices s' = sp_slices s" using \<open>frame s s'\<close> by (simp add: frame_def)
qed

lemma push_trailing_ok:
  assumes "fold (push_trailing mem first q) js (s, n) = (s', n')" and "\<not> sp_failed s'" and "spec_inv lang source E s"
    and "n < length (sp_nodes s)" and "n \<notin> E" and "sn_state (sp_nodes s ! n) = q" and "is_state lang q"
    and "cover lang source s (map (\<lambda>j. sp_children s ! (first + j)) js) (from_fork s n) b"
    and "list_all (\<lambda>t. tr_extra (sp_trees s ! t)) (map (\<lambda>j. sp_children s ! (first + j)) js)"
  shows "graph_step lang source E s s' \<and> sp_heads s' = sp_heads s \<and> sp_slices s' = sp_slices s \<and> n' < length (sp_nodes s') \<and> n' \<notin> E \<and>
    sn_byte (sp_nodes s' ! n') = (if js = [] then sn_byte (sp_nodes s ! n) else tok_end_byte (tr_token (sp_trees s ! (sp_children s ! (first + last js)))))"
  using assms
proof (induction js arbitrary: s n)
  case Nil
  then show ?case using pop_step_refl by auto
next
  case (Cons j js)
  have nf: "\<not> sp_failed s"
  proof
    assume "sp_failed s"
    then show False using Cons.prems(1,2) push_trailing_failed [of s mem first q "j # js" n] by (simp del: fold.simps)
  qed
  let ?t = "sp_children s ! (first + j)"
  obtain t m where t: "tf_spec_push mem n ?t q s = (t, m)" by fastforce
  have rest: "fold (push_trailing mem first q) js (t, m) = (s', n')" using Cons.prems(1) nf t by simp
  have nt: "\<not> sp_failed t"
  proof
    assume "sp_failed t"
    then show False using rest Cons.prems(2) push_trailing_failed [of t mem first q js m] by simp
  qed
  have span: "spans_tree lang source s ?t (from_fork s n)"
    and cov: "cover lang source s (map (\<lambda>j. sp_children s ! (first + j)) js) (tree_end s ?t) b"
    and extra: "tr_extra (sp_trees s ! ?t)" "list_all (\<lambda>t. tr_extra (sp_trees s ! t)) (map (\<lambda>j. sp_children s ! (first + j)) js)"
    using Cons.prems(8,9) by simp_all
  have "if tr_extra (sp_trees s ! ?t) then sn_state (sp_nodes s ! n) = q
        else \<not> tr_inherited (sp_trees s ! ?t) \<and> \<not> tr_leaf (sp_trees s ! ?t)" using extra(1) Cons.prems(6) by simp
  note p = push_step [OF t nt Cons.prems(3-5,7) span this]
  have g: "graph_grows s t" by (rule graph_step_grows [OF p(1)])
  have "from_fork t m = tree_end s ?t" using p(8) fork_end_grows [OF g] by simp
  then have "cover lang source t (map (\<lambda>j. sp_children t ! (first + j)) js) (from_fork t m) b"
    using cover_grows [OF g cov] p(3) by simp
  moreover have "list_all (\<lambda>x. tr_extra (sp_trees t ! x)) (map (\<lambda>j. sp_children t ! (first + j)) js)"
    using extra(2) p(3,4) by simp
  ultimately have IH: "graph_step lang source E t s' \<and> sp_heads s' = sp_heads t \<and> sp_slices s' = sp_slices t \<and> n' < length (sp_nodes s') \<and> n' \<notin> E \<and>
    sn_byte (sp_nodes s' ! n') = (if js = [] then sn_byte (sp_nodes t ! m) else tok_end_byte (tr_token (sp_trees t ! (sp_children t ! (first + last js)))))"
    by (rule Cons.IH [OF rest Cons.prems(2) pop_step_inv [OF p(1)] p(5-7) Cons.prems(7)])
  then show ?case using pop_step_trans [OF p(1)] p(2-4,8,9) by auto
qed

lemma slice_ok_grows:
  assumes "graph_grows s s'" and "slice_ok (below lang source E tip) s base sl"
  shows "slice_ok (below lang source E tip) s' base sl"
proof -
  obtain more where "sp_children s' = sp_children s @ more"
    using assms(1) by (auto simp: graph_grows_def forest_grows_def)
  then show ?thesis using below_grows [OF assms(1)] assms(2) by (simp add: slice_ok_def)
qed

section \<open>A group\<close>

context shape_recovery
begin

text \<open>The best parent so far, once a slice was looked at.\<close>

lemma propose_ok:
  assumes run: "propose mem materialize symbol production structural_count base sl (parent, first, count, s) = Some (parent', first', count', s')"
    and nf: "\<not> sp_failed s'" "\<not> sp_failed s" and inv: "spec_inv lang source E s"
    and sl: "slice_ok (below lang source E tip) s base sl" and symbol: "is_symbol lang symbol" "symbol \<noteq> 0"
    and parent: "parent = TF_SPEC_NONE \<or> parent_fits lang source s base tip parent first count"
  shows "graph_step lang source E s s'" and "frame s s'" and "parent' < TF_SPEC_NONE \<or> parent' = parent \<and> parent \<noteq> TF_SPEC_NONE"
    and "parent_fits lang source s' base tip parent' first' count'"
proof -
  let ?k = "slice_kids s sl"
  obtain t candidate where t: "tf_spec_parent mem symbol production structural_count (sl_first sl) ?k base s = (t, candidate)" by fastforce
  have nt: "\<not> sp_failed t" using run nf unfolding propose_def prod.case Let_def t by (auto split: if_splits)
  obtain u better where u: "tf_spec_prefer mem materialize parent candidate t = Some (u, better)"
    and res: "(if better then (candidate, sl_first sl + ?k, sl_count sl - ?k, u) else (parent, first, count, u)) = (parent', first', count', s')"
    using run nf nt unfolding propose_def prod.case Let_def t by (auto simp: bind_eq_Some_conv)
  have s': "s' = u" using res by (auto split: if_splits)
  note one = spec_parent_fits [OF t nt inv sl symbol]
  note two = grown_step [OF prefer_grown [OF u, where Q = True] nf(1) [unfolded s'] pop_step_inv [OF one(2)] TrueI]
  have none: "parent = TF_SPEC_NONE \<Longrightarrow> better" using u by (simp add: tf_spec_prefer_def)
  show "graph_step lang source E s s'" unfolding s' by (rule pop_step_trans [OF one(2) two(1)])
  show "frame s s'" unfolding s' by (rule frame_trans [OF one(3) two(2)])
  show "parent' < TF_SPEC_NONE \<or> parent' = parent \<and> parent \<noteq> TF_SPEC_NONE" using res none one(4) by (auto split: if_splits)
  have "parent \<noteq> TF_SPEC_NONE \<Longrightarrow> parent_fits lang source t base tip parent first count"
    using parent parent_fits_grows [OF graph_step_grows [OF one(2)]] by blast
  then have "parent_fits lang source t base tip parent' first' count'"
    using res none one(1) by (cases better) auto
  then show "parent_fits lang source s' base tip parent' first' count'"
    unfolding s' by (rule parent_fits_grows [OF graph_step_grows [OF two(1)]])
qed

lemma propose_failed:
  "propose mem materialize symbol production structural_count base sl (parent, first, count, s) = Some (parent', first', count', s') \<Longrightarrow>
     sp_failed s \<Longrightarrow> sp_failed s'"
  by (simp add: propose_def)

lemma proposals_failed:
  "fold_opt (propose mem materialize symbol production structural_count base) sls (parent, first, count, s) = Some (parent', first', count', s') \<Longrightarrow>
     sp_failed s \<Longrightarrow> sp_failed s'"
proof (induction sls arbitrary: parent first count s)
  case (Cons sl sls)
  then show ?case using propose_failed by (fastforce simp: bind_eq_Some_conv)
qed simp

lemma proposals_ok:
  assumes "fold_opt (propose mem materialize symbol production structural_count base) sls (parent, first, count, s) = Some (parent', first', count', s')"
    and "\<not> sp_failed s'" and "spec_inv lang source E s" and "\<not> sp_failed s"
    and "\<forall>sl \<in> set sls. slice_ok (below lang source E tip) s base sl" and "is_symbol lang symbol" "symbol \<noteq> 0"
    and "parent = TF_SPEC_NONE \<or> parent_fits lang source s base tip parent first count" and "sls \<noteq> [] \<or> parent \<noteq> TF_SPEC_NONE"
  shows "graph_step lang source E s s' \<and> frame s s' \<and> parent_fits lang source s' base tip parent' first' count'"
  using assms
proof (induction sls arbitrary: parent first count s)
  case Nil
  then show ?case using pop_step_refl by auto
next
  case (Cons sl sls)
  obtain q f c t where t: "propose mem materialize symbol production structural_count base sl (parent, first, count, s) = Some (q, f, c, t)"
    and rest: "fold_opt (propose mem materialize symbol production structural_count base) sls (q, f, c, t) = Some (parent', first', count', s')"
    using Cons.prems(1) by (auto simp: bind_eq_Some_conv)
  have nt: "\<not> sp_failed t" using proposals_failed [OF rest] Cons.prems(2) by blast
  have "slice_ok (below lang source E tip) s base sl" using Cons.prems(5) by simp
  note one = propose_ok [OF t nt Cons.prems(4,3) this Cons.prems(6-8)]
  have g: "graph_grows s t" by (rule graph_step_grows [OF one(1)])
  have "\<forall>sl \<in> set sls. slice_ok (below lang source E tip) t base sl" using Cons.prems(5) slice_ok_grows [OF g] by simp
  from Cons.IH [OF rest Cons.prems(2) pop_step_inv [OF one(1)] nt this Cons.prems(6,7) disjI2 [OF one(4)]] one(3)
  have "graph_step lang source E t s' \<and> frame t s' \<and> parent_fits lang source s' base tip parent' first' count'" by auto
  then show ?case using pop_step_trans [OF one(1)] frame_trans [OF one(2)] by blast
qed

text \<open>Merging a version into an earlier one.\<close>

lemma merge_ok:
  assumes run: "tf_spec_merge mem materialize a b s = Some (s', merged)" and nf: "\<not> sp_failed s'" "\<not> sp_failed s"
    and inv: "spec_inv lang source E s" and heads: "head_ok E s (sp_heads s ! a)" "head_ok E s (sp_heads s ! b)"
  shows "graph_step lang source E s s'"
    and "sp_heads s' = (if merged then take b (sp_heads s) @ drop (b + 1) (sp_heads s) else sp_heads s)"
proof -
  have "graph_step lang source E s s' \<and> sp_heads s' = (if merged then take b (sp_heads s) @ drop (b + 1) (sp_heads s) else sp_heads s)"
    using run
  proof (cases rule: merge_cases)
    case apart
    then show ?thesis using pop_step_refl [OF nf(2) inv] by simp
  next
    case (merged t)
    have "same_place E s (hd_node (sp_heads s ! a)) (hd_node (sp_heads s ! b))"
      using merged(2-5) heads by (simp add: same_place_def head_ok_def)
    moreover have nt: "\<not> sp_failed t" using nf(1) merged(7) by (simp add: tf_spec_remove_head_def)
    ultimately have t: "graph_step lang source E s t" "frame s t"
      using grown_step [OF merged(6) _ inv] by blast+
    have "graph_step lang source E t s'"
      unfolding merged(7) tf_spec_remove_head_def by (rule heads_step [OF nt pop_step_inv [OF t(1)]])
    then show ?thesis
      using pop_step_trans [OF t(1)] t(2) merged(1,7) by (simp add: tf_spec_remove_head_def frame_def)
  qed
  then show "graph_step lang source E s s'"
    "sp_heads s' = (if merged then take b (sp_heads s) @ drop (b + 1) (sp_heads s) else sp_heads s)" by simp_all
qed

lemma merge_failed: "tf_spec_merge mem materialize a b s = Some (s', merged) \<Longrightarrow> sp_failed s \<Longrightarrow> sp_failed s'"
proof (erule merge_cases)
  fix t assume f: "sp_failed s" and m: "\<And>lang source E. grown lang source E
      (same_place E s (hd_node (sp_heads s ! a)) (hd_node (sp_heads s ! b))) s t" and s': "s' = tf_spec_remove_head b t"
  have "sp_failed t" using m [of undefined "[]" "{}"] f unfolding grown_def by blast
  then show "sp_failed s'" by (simp add: s' tf_spec_remove_head_def)
qed simp

lemma merge_first_ok:
  assumes "merge_first mem materialize version v js s = Some (s', merged)" and "\<not> sp_failed s'" and "\<not> sp_failed s"
    and "spec_inv lang source E s" and "\<forall>j \<le> v. head_ok E s (sp_heads s ! j)" and "\<forall>j \<in> set js. j < v"
  shows "graph_step lang source E s s' \<and>
    sp_heads s' = (if merged then take v (sp_heads s) @ drop (v + 1) (sp_heads s) else sp_heads s)"
  using assms
proof (induction js arbitrary: s)
  case Nil
  then show ?case using pop_step_refl by auto
next
  case (Cons j js)
  show ?case
  proof (cases "j = version")
    case True
    then show ?thesis using Cons by simp
  next
    case False
    obtain t m where t: "tf_spec_merge mem materialize j v s = Some (t, m)"
      and rest: "(if m then Some (t, True) else merge_first mem materialize version v js t) = Some (s', merged)"
      using Cons.prems(1) False by (auto simp: bind_eq_Some_conv)
    have nt: "\<not> sp_failed t"
    proof (cases m)
      case True
      then show ?thesis using rest Cons.prems(2) by auto
    next
      case False
      from t have "t = s" by (cases rule: merge_cases) (use False in auto)
      then show ?thesis using Cons.prems(3) by simp
    qed
    have "head_ok E s (sp_heads s ! j)" "head_ok E s (sp_heads s ! v)"
      using Cons.prems(5,6) by simp_all
    note one = merge_ok [OF t nt Cons.prems(3,4) this]
    show ?thesis
    proof (cases m)
      case True
      then show ?thesis using one rest by auto
    next
      case False
      then have h: "sp_heads t = sp_heads s" "merge_first mem materialize version v js t = Some (s', merged)"
        using one(2) rest by simp_all
      have "\<forall>j \<le> v. head_ok E t (sp_heads t ! j)"
        using Cons.prems(5) head_ok_grows [OF graph_step_grows [OF one(1)]] by (simp add: h(1))
      from Cons.IH [OF h(2) Cons.prems(2) nt pop_step_inv [OF one(1)] this] Cons.prems(6) h(1)
      show ?thesis using pop_step_trans [OF one(1)] by simp
    qed
  qed
qed

lemma reduce_group_ok:
  assumes run: "reduce_group mem materialize lang version halted child_count symbol dynamic_precedence production paths (removed, s) = Some (removed', s')"
    and nf: "\<not> sp_failed s'" "\<not> sp_failed s" and inv: "spec_inv lang source E s" and tables: "tables_ok lang"
    and heads: "sp_heads s = H @ new_head base # rest" "list_all (head_ok E s) H" and v: "sl_version (hd paths) = length H + removed"
    and paths: "paths \<noteq> []" "\<forall>sl \<in> set paths. slice_ok (below lang source E tip) s base sl"
    and tip: "fork_end s \<le> sn_byte (sp_nodes s ! tip)" and symbol: "is_symbol lang symbol" "symbol \<noteq> 0"
  shows "graph_step lang source E s s' \<and>
    (\<exists>new. sp_heads s' = H @ new @ rest \<and> removed' + length new = removed + 1 \<and> list_all (live_at E s' (sn_byte (sp_nodes s ! tip))) new)"
proof -
  let ?v = "length H"
  have v': "sl_version (hd paths) - removed = ?v" using v by simp
  have base: "hd_node (sp_heads s ! ?v) = base" using heads(1) by simp
  have lives: "base < length (sp_nodes s)" "base \<notin> E" "tip < length (sp_nodes s)"
    using paths by (cases paths; simp add: slice_ok_def below_def)+
  show ?thesis
  proof (cases "?v > TF_SPEC_VERSIONS + 4 + halted")
    case True
    then have "removed' = removed + 1" "s' = s\<lparr>sp_heads := H @ rest\<rparr>"
      using run nf unfolding reduce_group_def prod.case Let_def v' by (simp_all add: remove_head_split [OF heads(1)])
    then show ?thesis using heads_step [OF nf(2) inv] by (intro conjI exI [of _ "[]"]) simp_all
  next
    case False
    obtain parent first count t where t: "fold_opt (propose mem materialize symbol production child_count base) paths (TF_SPEC_NONE, 0, 0, s)
        = Some (parent, first, count, t)"
      using run nf False unfolding reduce_group_def prod.case Let_def v' base by (auto simp: bind_eq_Some_conv)
    let ?q = "\<lambda>s. tf_next_state lang (sn_state (sp_nodes s ! base)) symbol"
    define u where "u = t\<lparr>sp_trees := (sp_trees t)[parent := (sp_trees t ! parent)
        \<lparr>tr_precedence := tr_precedence (sp_trees t ! parent) + sint dynamic_precedence\<rparr>]\<rparr>"
    obtain w n where w: "tf_spec_push mem base parent (?q u) u = (w, n)" by fastforce
    obtain x n' where x: "fold (push_trailing mem first (?q u)) [0..<count] (w, n) = (x, n')" by fastforce
    have body: "(if sp_failed t then Some (removed, t)
             else if sp_failed x then Some (removed, x)
                  else
                    let s = x\<lparr>sp_heads := (sp_heads x)[?v := (sp_heads x ! ?v)\<lparr>hd_node := n'\<rparr>]\<rparr>
                    in do {
                      (s, merged) \<leftarrow> merge_first mem materialize version ?v [0..<?v] s;
                      Some (if merged then removed + 1 else removed, s)
                    }) = Some (removed', s')"
      using run unfolding reduce_group_def prod.case Let_def v' base t Option.bind.simps u_def [symmetric] w x
        if_not_P [OF nf(2)] if_not_P [OF False] .
    have nt: "\<not> sp_failed t" using body nf(1) by (auto split: if_splits)
    have nx: "\<not> sp_failed x" using body nf(1) nt by (auto split: if_splits)
    have nw: "\<not> sp_failed w" using x nx push_trailing_failed [of w mem first "?q u" "[0..<count]" n] by auto
    have "graph_step lang source E s t \<and> frame s t \<and> parent_fits lang source t base tip parent first count"
      by (rule proposals_ok [OF t nt inv nf(2) paths(2) symbol]) (use paths(1) in simp_all)
    then have t': "graph_step lang source E s t" "frame s t" "parent_fits lang source t base tip parent first count" by simp_all
    have u: "graph_step lang source E t u" unfolding u_def by (rule set_precedence_step [OF nt pop_step_inv [OF t'(1)]])
    have gu: "graph_grows s u" using graph_grows_trans [OF graph_step_grows [OF t'(1)] graph_step_grows [OF u]] .
    have fits: "parent_fits lang source u base tip parent first count"
      by (rule parent_fits_grows [OF graph_step_grows [OF u] t'(3)])
    note inv_u = pop_step_inv [OF u]
    have base_u: "base < length (sp_nodes u)" using node_grows(1) [OF gu lives(1)] .
    have q: "is_state lang (?q u)"
      using tables_goto [OF tables _ symbol(1)] spec_inv_node(1) [OF inv_u base_u] by (simp add: node_ok_def)
    have span: "spans_tree lang source u parent (from_fork u base)"
      and cov: "cover lang source u (slice_ids u first count) (tree_end u parent) (from_fork u tip)"
      and kind: "\<not> tr_extra (sp_trees u ! parent) \<and> \<not> tr_inherited (sp_trees u ! parent) \<and> \<not> tr_leaf (sp_trees u ! parent)"
      and ex: "list_all (\<lambda>t. tr_extra (sp_trees u ! t)) (slice_ids u first count)"
      and last: "tok_end_byte (tr_token (sp_trees u ! last (parent # slice_ids u first count))) = sn_byte (sp_nodes u ! tip)"
      using fits unfolding parent_fits_def by simp_all
    have kind': "if tr_extra (sp_trees u ! parent) then sn_state (sp_nodes u ! base) = ?q u
        else \<not> tr_inherited (sp_trees u ! parent) \<and> \<not> tr_leaf (sp_trees u ! parent)" using kind by simp
    note p = push_step [OF w nw inv_u base_u lives(2) q span kind']
    have gw: "graph_grows u w" by (rule graph_step_grows [OF p(1)])
    have at: "from_fork w n = tree_end u parent" using p(8) fork_end_grows [OF gw] by simp
    have "cover lang source w (slice_ids w first count) (from_fork w n) (from_fork u tip)"
      unfolding at using cover_grows [OF gw cov] p(3) by simp
    from push_trailing_ok [OF x nx pop_step_inv [OF p(1)] p(5-7) q this] ex p(3,4)
    have f: "graph_step lang source E w x" "sp_heads x = sp_heads w" "n' < length (sp_nodes x)" "n' \<notin> E"
      "sn_byte (sp_nodes x ! n') = (if [0..<count] = [] then sn_byte (sp_nodes w ! n)
        else tok_end_byte (tr_token (sp_trees w ! (sp_children w ! (first + last [0..<count])))))"
      by simp_all
    have "sn_byte (sp_nodes x ! n') = sn_byte (sp_nodes u ! tip)"
      using last unfolding f(5) p(3,4) p(8) by (cases count) simp_all
    then have byte: "sn_byte (sp_nodes x ! n') = sn_byte (sp_nodes s ! tip)" using node_grows(3) [OF gu lives(3)] by simp
    have sx: "graph_step lang source E s x"
      by (rule pop_step_trans [OF pop_step_trans [OF pop_step_trans [OF t'(1) u] p(1)] f(1)])
    have gx: "graph_grows s x" by (rule graph_step_grows [OF sx])
    have hx: "sp_heads x = H @ new_head base # rest"
      using f(2) p(2) t'(2) heads(1) by (simp add: u_def frame_def)
    let ?h = "new_head n'"
    define y where "y = x\<lparr>sp_heads := H @ ?h # rest\<rparr>"
    have y_eq: "x\<lparr>sp_heads := (sp_heads x)[?v := (sp_heads x ! ?v)\<lparr>hd_node := n'\<rparr>]\<rparr> = y"
      unfolding y_def hx by simp
    have sy: "graph_step lang source E s y"
      unfolding y_def by (rule pop_step_trans [OF sx heads_step [OF nx pop_step_inv [OF sx]]])
    have new: "head_ok E x ?h" using f(3,4) byte tip fork_end_grows [OF gx] by (simp add: head_ok_def)
    obtain merged where m: "merge_first mem materialize version ?v [0..<?v] y = Some (s', merged)"
      and removed': "removed' = (if merged then removed + 1 else removed)"
      using body nt nx unfolding Let_def y_eq by (auto simp: bind_eq_Some_conv split: if_splits)
    have hy: "sp_heads y = H @ ?h # rest" "\<not> sp_failed y" using nx by (simp_all add: y_def)
    have gy: "graph_grows s y" by (rule graph_step_grows [OF sy])
    have "sp_nodes y = sp_nodes x" "sp_owner y = sp_owner x" by (simp_all add: y_def)
    then have "head_ok E y ?h" using new head_ok_only [of y x] by blast
    moreover have "list_all (head_ok E y) H" using heads(2) head_ok_grows [OF gy] by (simp add: list_all_iff)
    ultimately have "\<forall>j \<le> ?v. head_ok E y (sp_heads y ! j)" by (auto simp: hy(1) nth_append list_all_length)
    from merge_first_ok [OF m nf(1) hy(2) pop_step_inv [OF sy] this]
    have z: "graph_step lang source E y s'"
      "sp_heads s' = (if merged then H @ rest else H @ ?h # rest)" by (simp_all add: hy(1))
    have "live_at E y (sn_byte (sp_nodes s ! tip)) ?h"
      using \<open>head_ok E y ?h\<close> byte by (simp add: live_at_def y_def)
    then have "live_at E s' (sn_byte (sp_nodes s ! tip)) ?h" by (rule live_at_grows [OF graph_step_grows [OF z(1)]])
    then have "\<exists>new. sp_heads s' = H @ new @ rest \<and> removed' + length new = removed + 1 \<and> list_all (live_at E s' (sn_byte (sp_nodes s ! tip))) new"
      using z(2) removed' by (intro exI [of _ "if merged then [] else [?h]"]) simp
    then show ?thesis using pop_step_trans [OF sy z(1)] by blast
  qed
qed

lemma reduce_group_failed:
  assumes "reduce_group mem materialize lang version halted child_count symbol dynamic_precedence production paths (removed, s) = Some (removed', s')"
    and "sp_failed s"
  shows "sp_failed s'"
  using assms by (simp add: reduce_group_def)

lemma reduce_groups_failed:
  "fold_opt (reduce_group mem materialize lang version halted child_count symbol dynamic_precedence production) groups (removed, s) = Some (removed', s') \<Longrightarrow>
     sp_failed s \<Longrightarrow> sp_failed s'"
  by (induction groups arbitrary: removed s) (auto simp: bind_eq_Some_conv reduce_group_def)

lemma reduce_groups_ok:
  assumes "fold_opt (reduce_group mem materialize lang version halted child_count symbol dynamic_precedence production) paths (removed, s) = Some (removed', s')"
    and "\<not> sp_failed s'" and "\<not> sp_failed s" and "spec_inv lang source E s" and "tables_ok lang"
    and "sp_heads s = H @ map new_head bases" and "list_all (head_ok E s) H" and "length paths = length bases"
    and "\<forall>i < length bases. paths ! i \<noteq> [] \<and> (\<forall>sl \<in> set (paths ! i). sl_version sl = length H + removed + i \<and>
      slice_ok (below lang source E tip) s (bases ! i) sl)"
    and "tip < length (sp_nodes s)" and "fork_end s \<le> sn_byte (sp_nodes s ! tip)" and "is_symbol lang symbol" "symbol \<noteq> 0"
  shows "graph_step lang source E s s' \<and> (\<exists>new. sp_heads s' = H @ new \<and> list_all (live_at E s' (sn_byte (sp_nodes s ! tip))) new)"
  using assms
proof (induction paths arbitrary: bases removed s H)
  case Nil
  then show ?case using pop_step_refl by auto
next
  case (Cons p ps)
  obtain base bs where bases: "bases = base # bs" using Cons.prems(8) by (cases bases) auto
  obtain r t where t: "reduce_group mem materialize lang version halted child_count symbol dynamic_precedence production p (removed, s) = Some (r, t)"
    and rest: "fold_opt (reduce_group mem materialize lang version halted child_count symbol dynamic_precedence production) ps (r, t) = Some (removed', s')"
    using Cons.prems(1) by (auto simp: bind_eq_Some_conv)
  have nt: "\<not> sp_failed t" using reduce_groups_failed [OF rest] Cons.prems(2) by blast
  have hd: "sp_heads s = H @ new_head base # map new_head bs" using Cons.prems(6) bases by simp
  have p: "p \<noteq> []" "\<forall>sl \<in> set p. sl_version sl = length H + removed \<and> slice_ok (below lang source E tip) s base sl"
    using Cons.prems(9) [rule_format, of 0] bases by simp_all
  have "sl_version (hd p) = length H + removed" using p hd_in_set [OF p(1)] by blast
  then have "graph_step lang source E s t \<and>
    (\<exists>new. sp_heads t = H @ new @ map new_head bs \<and> r + length new = removed + 1 \<and> list_all (live_at E t (sn_byte (sp_nodes s ! tip))) new)"
    by (rule reduce_group_ok [OF t nt Cons.prems(3-5) hd Cons.prems(7) _ p(1) _ Cons.prems(11-13)]) (use p(2) in blast)
  then obtain new where st: "graph_step lang source E s t" and new: "sp_heads t = (H @ new) @ map new_head bs"
    "r + length new = removed + 1" "list_all (live_at E t (sn_byte (sp_nodes s ! tip))) new" by auto
  have g: "graph_grows s t" by (rule graph_step_grows [OF st])
  have "list_all (head_ok E t) (H @ new)"
    using Cons.prems(7) new(3) head_ok_grows [OF g] by (auto simp: list_all_iff live_at_def)
  moreover have "\<forall>i < length bs. ps ! i \<noteq> [] \<and> (\<forall>sl \<in> set (ps ! i). sl_version sl = length (H @ new) + r + i \<and>
      slice_ok (below lang source E tip) t (bs ! i) sl)"
  proof (intro allI impI)
    fix i assume "i < length bs"
    then have "ps ! i \<noteq> [] \<and> (\<forall>sl \<in> set (ps ! i). sl_version sl = length H + removed + Suc i \<and>
      slice_ok (below lang source E tip) s (bs ! i) sl)"
      using Cons.prems(9) [rule_format, of "Suc i"] bases by simp
    moreover have "length (H @ new) + r + i = length H + removed + Suc i" using new(2) by simp
    ultimately show "ps ! i \<noteq> [] \<and> (\<forall>sl \<in> set (ps ! i). sl_version sl = length (H @ new) + r + i \<and>
      slice_ok (below lang source E tip) t (bs ! i) sl)" using slice_ok_grows [OF g] by simp
  qed
  moreover have "length ps = length bs" using Cons.prems(8) bases by simp
  moreover have "tip < length (sp_nodes t)" "fork_end t \<le> sn_byte (sp_nodes t ! tip)"
    using Cons.prems(10,11) node_grows [OF g] fork_end_grows [OF g] by simp_all
  moreover have "sn_byte (sp_nodes t ! tip) = sn_byte (sp_nodes s ! tip)" by (rule node_grows(3) [OF g Cons.prems(10)])
  ultimately have "graph_step lang source E t s' \<and> (\<exists>new'. sp_heads s' = (H @ new) @ new' \<and>
      list_all (live_at E s' (sn_byte (sp_nodes s ! tip))) new')"
    using Cons.IH [OF rest Cons.prems(2) nt pop_step_inv [OF st] Cons.prems(5) new(1) _ _ _ _ _ Cons.prems(12,13)] by metis
  then obtain new' where "graph_step lang source E t s'" "sp_heads s' = (H @ new) @ new'"
    "list_all (live_at E s' (sn_byte (sp_nodes s ! tip))) new'" by blast
  then show ?case
    using pop_step_trans [OF st] new(3) live_at_grows [OF graph_step_grows [of lang source E t s']]
    by (intro conjI exI [of _ "new @ new'"]) (auto simp: list_all_iff)
qed

text \<open>The reduction of a version: new versions behind the others, and the first of them if there are any.\<close>

lemma tf_spec_reduce_ok:
  assumes run: "tf_spec_reduce mem materialize lang version child_count symbol dynamic_precedence production s = Some (s', v)"
    and nf: "\<not> sp_failed s'" "\<not> sp_failed s" and inv: "spec_inv lang source E s" and tables: "tables_ok lang"
    and heads: "heads_ok E s" "version < length (sp_heads s)" "\<not> hd_halted (sp_heads s ! version)"
    and symbol: "is_symbol lang symbol" "symbol \<noteq> 0"
  shows "graph_step lang source E s s' \<and> (\<exists>new. sp_heads s' = sp_heads s @ new \<and>
    list_all (live_at E s' (sn_byte (sp_nodes s ! hd_node (sp_heads s ! version)))) new \<and>
    v = (if new = [] then TF_SPEC_NONE else length (sp_heads s)))"
proof -
  let ?tip = "hd_node (sp_heads s ! version)"
  let ?P = "below lang source E ?tip"
  let ?halted = "length (filter (\<lambda>h. hd_halted h \<and> \<not> hd_errored h) (sp_heads s))"
  obtain t removed where t: "tf_spec_pop mem version (unat child_count) s = Some t"
    and r: "fold_opt (reduce_group mem materialize lang version ?halted child_count symbol dynamic_precedence production)
         (slice_groups (sp_slices t)) (0, t) = Some (removed, s')"
    and v: "v = (if sp_failed s' then TF_SPEC_NONE else if length (sp_heads s') > length (sp_heads s) then length (sp_heads s) else TF_SPEC_NONE)"
    using run by (auto simp: tf_spec_reduce_def Let_def bind_eq_Some_conv)
  have nt: "\<not> sp_failed t" using reduce_groups_failed [OF r] nf(1) by blast
  have tip: "?tip < length (sp_nodes s)" "?tip \<notin> E" "fork_end s \<le> sn_byte (sp_nodes s ! ?tip)"
    using heads by (auto simp: list_all_length head_ok_def)
  note pop = tf_spec_pop_ok [OF t nt nf(2) inv walks_below graph_only_below below_start [OF tip(1,2)]]
  have st: "graph_step lang source E s t" by (rule pop_step_graph [OF pop(1)])
  have g: "graph_grows s t" by (rule graph_step_grows [OF st])
  obtain bases paths where sl: "sliced ?P (unat child_count) (sp_heads s) bases paths t" using pop(2) by (auto simp: popping_def)
  have sl': "sp_heads t = sp_heads s @ map new_head bases" "sp_slices t = concat paths" "length paths = length bases"
    "\<forall>i < length bases. paths ! i \<noteq> [] \<and> (\<forall>sl \<in> set (paths ! i). sl_version sl = length (sp_heads s) + 0 + i \<and> slice_ok ?P t (bases ! i) sl)"
    using sl by (simp_all add: sliced_def)
  have "slice_groups (concat paths) = paths"
    by (rule slice_groups_concat [where k = "length (sp_heads s)"]) (use sl'(3,4) in simp)
  note r = r [unfolded sl'(2) this]
  have "list_all (head_ok E t) (sp_heads s)" using heads(1) head_ok_grows [OF g] by (simp add: list_all_iff)
  from reduce_groups_ok [OF r nf(1) nt pop_step_inv [OF st] tables sl'(1) this sl'(3,4) _ _ symbol]
  obtain new where "graph_step lang source E t s'" "sp_heads s' = sp_heads s @ new"
    "list_all (live_at E s' (sn_byte (sp_nodes s ! ?tip))) new"
    using tip node_grows [OF g tip(1)] fork_end_grows [OF g] by auto
  then show ?thesis using pop_step_trans [OF st] v nf(1) by (intro conjI exI [of _ new]) auto
qed

end

end
