(* ===== verification/Spec_Accept.thy ===== *)
theory Spec_Accept
  imports Spec_Reduce
begin

text \<open>
  A version that accepts: all of the prefix is unrolled, the end token is pushed, every path down
  is turned into a tree of the root, and the preferred one is kept. Its children, the end token
  aside, replay the input from the fork on.
\<close>

section \<open>What is kept\<close>

text \<open>A step of a speculation as a whole, in which nodes nothing is built on may have been added.\<close>

definition moves :: "TFLanguage \<Rightarrow> u8 list \<Rightarrow> nat set \<Rightarrow> TFSpec \<Rightarrow> TFSpec \<Rightarrow> bool" where
  "moves lang source E s s' \<longleftrightarrow> spec_inv lang source E s' \<and> graph_grows s s' \<and>
     sp_cached s' = sp_cached s \<and> sp_cached_byte s' = sp_cached_byte s \<and> sp_has_cache s' = sp_has_cache s \<and>
     sp_cached_keyword s' = sp_cached_keyword s"

lemma moves_refl: "spec_inv lang source E s \<Longrightarrow> moves lang source E s s"
  by (simp add: moves_def)

lemma moves_trans: "moves lang source E s t \<Longrightarrow> moves lang source E' t u \<Longrightarrow> moves lang source E' s u"
  unfolding moves_def by (auto intro: graph_grows_trans)

lemma step_moves: "graph_step lang source E s s' \<Longrightarrow> moves lang source E s s'"
  by (simp add: moves_def pop_step_def frame_def)

lemma moves_inv: "moves lang source E s s' \<Longrightarrow> spec_inv lang source E s'"
  by (simp add: moves_def)

lemma moves_grows: "moves lang source E s s' \<Longrightarrow> graph_grows s s'"
  by (simp add: moves_def)

lemma frontier_fork: "spec_inv lang source E s \<Longrightarrow> from_fork s (sp_frontier s) = fork_end s"
proof -
  assume inv: "spec_inv lang source E s"
  have "spans_from source 0 (ps_nodes (sp_owner s))" "sp_prefix_left s \<le> length (ps_nodes (sp_owner s))"
    "sn_byte (sp_nodes s ! sp_frontier s) = fst (cell_end (ps_nodes (sp_owner s)) (sp_prefix_left s))"
    using inv by (auto simp: spec_inv_def owner_ok_def frontier_ok_def Let_def ps_depth_def dest: arg_cong [of _ _ fst])
  then have "sn_byte (sp_nodes s ! sp_frontier s) \<le> fork_end s"
    using cell_end_at(1) by (simp add: fork_end_def ps_depth_def)
  then show ?thesis by (rule max_absorb1)
qed

lemma from_fork_length:
  assumes "spec_inv lang source E s" and "n < length (sp_nodes s)"
  shows "unat (from_fork s n) \<le> length source"
proof -
  have spans: "spans_from source 0 (ps_nodes (sp_owner s))" using assms(1) by (simp add: spec_inv_def owner_ok_def)
  have "unat (fork_end s) \<le> length source"
    using cell_end_at(2) [OF spans order_refl] by (simp add: fork_end_def ps_depth_def)
  moreover have "unat (sn_byte (sp_nodes s ! n)) \<le> length source"
    using spec_inv_node(1) [OF assms] by (simp add: node_ok_def)
  ultimately show ?thesis by (simp add: max_def)
qed

section \<open>The accepted tree\<close>

text \<open>The children of the tree kept, without the end token, follow the fork.\<close>

definition root_ready :: "TFLanguage \<Rightarrow> u8 list \<Rightarrow> TFSpec \<Rightarrow> nat \<Rightarrow> bool" where
  "root_ready lang source s t \<longleftrightarrow>
     (let f = sp_trees s ! t
      in t < length (sp_trees s) \<and> \<not> tr_inherited f \<and> 0 < tr_child_count f \<and>
         tr_first_child f + tr_child_count f \<le> length (sp_children s) \<and>
         is_symbol lang (tok_symbol (tr_token f)) \<and> tok_symbol (tr_token f) \<noteq> 0 \<and>
         tok_end_point (tr_token f) = point_at source (length source) \<and>
         (\<exists>b. visits_all lang source (sp_trees s) (sp_children s) (slice_ids s (tr_first_child f) (tr_child_count f - 1))
            (fork_end s) b \<and> unat b \<le> length source))"

abbreviation finished_ok :: "TFLanguage \<Rightarrow> u8 list \<Rightarrow> TFSpec \<Rightarrow> bool" where
  "finished_ok lang source s \<equiv> sp_finished s \<noteq> TF_SPEC_NONE \<longrightarrow> root_ready lang source s (sp_finished s)"

lemma root_ready_grows:
  assumes g: "graph_grows s s'" and r: "root_ready lang source s t"
  shows "root_ready lang source s' t"
proof -
  let ?f = "sp_trees s ! t" and ?g = "sp_trees s' ! t"
  have t: "t < length (sp_trees s)" "\<not> tr_inherited ?f" and len: "tr_first_child ?f + tr_child_count ?f \<le> length (sp_children s)"
    using r by (simp_all add: root_ready_def Let_def)
  obtain b where b: "visits_all lang source (sp_trees s) (sp_children s) (slice_ids s (tr_first_child ?f) (tr_child_count ?f - 1))
            (fork_end s) b" "unat b \<le> length source"
    using r by (auto simp: root_ready_def Let_def)
  have forest: "forest_grows (sp_trees s) (sp_children s) (sp_trees s') (sp_children s')" using g by (simp add: graph_grows_def)
  then have "length (sp_children s) \<le> length (sp_children s')" by (auto simp: forest_grows_def)
  moreover have same: "tr_token ?g = tr_token ?f" "tr_first_child ?g = tr_first_child ?f" "tr_child_count ?g = tr_child_count ?f"
    "tr_inherited ?g = tr_inherited ?f"
    using tree_grows(2) [OF g t(1)] t(2) by (auto simp: same_tree_def)
  moreover have ids: "slice_ids s' (tr_first_child ?f) (tr_child_count ?f - 1) = slice_ids s (tr_first_child ?f) (tr_child_count ?f - 1)"
    by (rule slice_ids_grows [OF g]) (use len in linarith)
  moreover have "visits_all lang source (sp_trees s') (sp_children s') (slice_ids s' (tr_first_child ?f) (tr_child_count ?f - 1)) (fork_end s') b"
    unfolding ids fork_end_grows [OF g] by (rule visits_grows(2) [OF forest b(1)])
  ultimately show ?thesis
    using r len tree_grows(1) [OF g t(1)] b(2) unfolding root_ready_def Let_def same by auto
qed

lemma finished_ok_moves: "graph_grows s s' \<Longrightarrow> sp_finished s' = sp_finished s \<Longrightarrow> finished_ok lang source s \<Longrightarrow> finished_ok lang source s'"
  using root_ready_grows by simp

section \<open>The paths of an accepting version\<close>

text \<open>The tree under the extras of a run is a parent.\<close>

definition parent_last :: "TFSpec \<Rightarrow> nat list \<Rightarrow> bool" where
  "parent_last s p \<longleftrightarrow> (\<exists>us r vs. p = us @ r # vs \<and> list_all (\<lambda>t. tr_extra (sp_trees s ! t)) vs \<and>
     \<not> tr_extra (sp_trees s ! r) \<and> \<not> tr_inherited (sp_trees s ! r) \<and> \<not> tr_leaf (sp_trees s ! r))"

abbreviation all_extra :: "TFSpec \<Rightarrow> nat list \<Rightarrow> bool" where
  "all_extra s p \<equiv> list_all (\<lambda>t. tr_extra (sp_trees s ! t)) p"

definition above :: "TFLanguage \<Rightarrow> u8 list \<Rightarrow> nat set \<Rightarrow> nat \<Rightarrow> nat \<Rightarrow> nat \<Rightarrow> TFSpec \<Rightarrow> nat \<Rightarrow> nat list \<Rightarrow> bool" where
  "above lang source E node tip leaf s n path \<longleftrightarrow>
     node < length (sp_nodes s) \<and> node_links s node = [\<lparr>lk_node = tip, lk_tree = leaf\<rparr>] \<and> tip < length (sp_nodes s) \<and> tip \<notin> E \<and>
     accepting lang (sn_state (sp_nodes s ! tip)) \<and>
     (n = node \<and> path = [] \<or>
      (\<exists>p. path = p @ [leaf] \<and> below lang source E tip s n p \<and>
         (all_extra s p \<and> sn_state (sp_nodes s ! n) = sn_state (sp_nodes s ! tip) \<or> parent_last s p)))"

lemma below_length: "below lang source E tip s n p \<Longrightarrow> t \<in> set p \<Longrightarrow> t < length (sp_trees s)"
  using cover_length by (auto simp: below_def)

lemma all_extra_grows:
  "graph_grows s s' \<Longrightarrow> \<forall>t \<in> set p. t < length (sp_trees s) \<Longrightarrow> all_extra s' p = all_extra s p"
  using same_extra_grows by (auto simp: list_all_iff)

lemma parent_last_grows:
  assumes "graph_grows s s'" and "\<forall>t \<in> set p. t < length (sp_trees s)" and "parent_last s p"
  shows "parent_last s' p"
proof -
  obtain us r vs where p: "p = us @ r # vs" "all_extra s vs"
     "\<not> tr_extra (sp_trees s ! r)" "\<not> tr_inherited (sp_trees s ! r)" "\<not> tr_leaf (sp_trees s ! r)"
    using assms(3) by (auto simp: parent_last_def)
  then have "all_extra s' vs" "same_tree (sp_trees s ! r) (sp_trees s' ! r)"
    using all_extra_grows [OF assms(1), of vs] tree_grows(2) [OF assms(1), of r] assms(2) by auto
  then show ?thesis using p unfolding parent_last_def same_tree_def by blast
qed

lemma above_step:
  assumes inv: "spec_inv lang source E s" and abo: "above lang source E node tip leaf s n path" and l: "l \<in> set (node_links s n)"
  shows "above lang source E node tip leaf s (lk_node l) (lk_tree l # path)"
proof (cases "n = node \<and> path = []")
  case True
  then have "l = \<lparr>lk_node = tip, lk_tree = leaf\<rparr>" using abo l by (auto simp: above_def)
  moreover have "below lang source E tip s tip []" using abo by (intro below_start) (auto simp: above_def)
  ultimately show ?thesis using abo True by (auto simp: above_def)
next
  case False
  then obtain p where p: "path = p @ [leaf]" "below lang source E tip s n p"
    "all_extra s p \<and> sn_state (sp_nodes s ! n) = sn_state (sp_nodes s ! tip) \<or> parent_last s p"
    and acc: "accepting lang (sn_state (sp_nodes s ! tip))"
    using abo by (auto simp: above_def)
  have n: "n < length (sp_nodes s)" "n \<notin> E" using p(2) by (simp_all add: below_def)
  have bel: "below lang source E tip s (lk_node l) (lk_tree l # p)" by (rule below_step [OF inv p(2) l])
  have link: "link_ok lang source E s n l" by (rule spec_inv_node(3) [OF inv n l])
  have "all_extra s (lk_tree l # p) \<and> sn_state (sp_nodes s ! lk_node l) = sn_state (sp_nodes s ! tip) \<or> parent_last s (lk_tree l # p)"
  proof (cases "parent_last s p")
    case True
    then obtain us r vs where "p = us @ r # vs" "all_extra s vs" "\<not> tr_extra (sp_trees s ! r)"
      "\<not> tr_inherited (sp_trees s ! r)" "\<not> tr_leaf (sp_trees s ! r)" by (auto simp: parent_last_def)
    then have "lk_tree l # p = (lk_tree l # us) @ r # vs" by simp
    then have "parent_last s (lk_tree l # p)" unfolding parent_last_def
      using \<open>all_extra s vs\<close> \<open>\<not> tr_extra (sp_trees s ! r)\<close> \<open>\<not> tr_inherited (sp_trees s ! r)\<close> \<open>\<not> tr_leaf (sp_trees s ! r)\<close> by blast
    then show ?thesis ..
  next
    case False
    then have e: "all_extra s p" "sn_state (sp_nodes s ! n) = sn_state (sp_nodes s ! tip)" using p(3) by simp_all
    have k: "if tr_extra (sp_trees s ! lk_tree l) then sn_state (sp_nodes s ! lk_node l) = sn_state (sp_nodes s ! n)
        else \<not> tr_inherited (sp_trees s ! lk_tree l) \<and> \<not> tr_leaf (sp_trees s ! lk_tree l)"
      using link acc e(2) unfolding link_ok_def Let_def by simp
    show ?thesis
    proof (cases "tr_extra (sp_trees s ! lk_tree l)")
      case True
      then show ?thesis using e k by simp
    next
      case False
      then have "parent_last s (lk_tree l # p)"
        using e(1) k unfolding parent_last_def by (intro exI [of _ "[]"] exI [of _ "lk_tree l"] exI [of _ p]) simp
      then show ?thesis ..
    qed
  qed
  then show ?thesis using abo bel p(1) unfolding above_def by (metis append_Cons)
qed

lemma above_grows:
  assumes abo: "above lang source E node tip leaf s n path" and g: "graph_grows s s'"
    and same: "sp_nodes s' = sp_nodes s" "sp_links s' = sp_links s"
  shows "above lang source E node tip leaf s' n path"
proof -
  have "below lang source E tip s' n p \<and>
      (all_extra s' p \<and> sn_state (sp_nodes s ! n) = sn_state (sp_nodes s ! tip) \<or> parent_last s' p)"
    if "below lang source E tip s n p"
      "all_extra s p \<and> sn_state (sp_nodes s ! n) = sn_state (sp_nodes s ! tip) \<or> parent_last s p" for p
    using that below_grows [OF g] below_length [OF that(1)] all_extra_grows [OF g, of p] parent_last_grows [OF g, of p] by blast
  moreover have "node_links s' node = node_links s node" by (simp add: node_links_def same)
  ultimately show ?thesis using abo unfolding above_def same by auto
qed

lemma walks_above: "walks lang source E TF_SPEC_NONE (above lang source E node tip leaf)"
  unfolding walks_def
proof (intro conjI allI impI)
  show "above lang source E node tip leaf s (lk_node l) (lk_tree l # path)"
    if "spec_inv lang source E s" "above lang source E node tip leaf s n path" "l \<in> set (node_links s n)" for s n path l
    by (rule above_step [OF that])
  show "above lang source E node tip leaf s' n path"
    if "above lang source E node tip leaf s n path" "graph_grows s s'"
      "TF_SPEC_NONE = TF_SPEC_NONE \<longrightarrow> sp_nodes s' = sp_nodes s \<and> sp_links s' = sp_links s" for s s' n path
    by (rule above_grows [OF that(1,2)]) (use that(3) in simp_all)
  show "n < length (sp_nodes s)" if "above lang source E node tip leaf s n path" for s n path
    using that by (auto simp: above_def below_def)
qed

lemma graph_only_above: "graph_only (above lang source E node tip leaf)"
  unfolding graph_only_def
proof (intro allI impI)
  fix s s' :: TFSpec and n path
  assume same: "sp_nodes s' = sp_nodes s" "sp_links s' = sp_links s" "sp_trees s' = sp_trees s"
    "sp_children s' = sp_children s" "sp_owner s' = sp_owner s"
  have "below lang source E tip s' n p = below lang source E tip s n p" for p
    using graph_only_below [unfolded graph_only_def, rule_format, OF same] .
  moreover have "node_links s' node = node_links s node" by (simp add: node_links_def same)
  ultimately show "above lang source E node tip leaf s' n path = above lang source E node tip leaf s n path"
    unfolding above_def parent_last_def same by simp
qed

text \<open>All of the prefix.\<close>

lemma extend_all_failed: "sp_failed s \<Longrightarrow> sp_failed (extend_all mem n s)"
  by (induction n arbitrary: s) simp_all

lemma extend_all_ok:
  assumes "\<not> sp_failed (extend_all mem (sp_prefix_left s) s)" and "\<not> sp_failed s" and "spec_inv lang source E s"
  shows "graph_step lang source E s (extend_all mem (sp_prefix_left s) s) \<and> frame s (extend_all mem (sp_prefix_left s) s)"
proof -
  have "\<not> sp_failed (extend_all mem n s) \<longrightarrow> \<not> sp_failed s \<longrightarrow> spec_inv lang source E s \<longrightarrow> sp_prefix_left s = n \<longrightarrow>
    graph_step lang source E s (extend_all mem n s) \<and> frame s (extend_all mem n s)" for n
  proof (induction n arbitrary: s)
    case 0
    then show ?case using pop_step_refl by auto
  next
    case (Suc n)
    show ?case
    proof (intro impI)
      assume nf: "\<not> sp_failed (extend_all mem (Suc n) s)" and ok: "\<not> sp_failed s" and inv: "spec_inv lang source E s"
        and left: "sp_prefix_left s = Suc n"
      let ?t = "tf_spec_extend mem s"
      have eq: "extend_all mem (Suc n) s = extend_all mem n ?t" using ok by simp
      have nt: "\<not> sp_failed ?t" using nf extend_all_failed unfolding eq by blast
      have "tf_spec_unroll mem (sp_frontier s) s = (?t, True)" using left nt by (simp add: tf_spec_unroll_def)
      from grown_step [OF unroll_grown(1) [OF this, where Q = True] nt inv TrueI]
      have t: "graph_step lang source E s ?t" "frame s ?t" .
      have "sp_prefix_left s \<noteq> 0" using left by simp
      from extend_inv(5) [OF nt inv this] have "sp_prefix_left ?t = n" using left by simp
      with Suc.IH [of ?t] nf nt pop_step_inv [OF t(1)]
      have "graph_step lang source E ?t (extend_all mem n ?t) \<and> frame ?t (extend_all mem n ?t)" unfolding eq by blast
      then show "graph_step lang source E s (extend_all mem (Suc n) s) \<and> frame s (extend_all mem (Suc n) s)"
        unfolding eq using pop_step_trans [OF t(1)] frame_trans [OF t(2)] by blast
    qed
  qed
  then show ?thesis using assms by blast
qed

section \<open>A slice of an accepting version\<close>

text \<open>What a slice holds: a run up to the version's end, and the end token.\<close>

definition accepted_path :: "TFLanguage \<Rightarrow> u8 list \<Rightarrow> TFSpec \<Rightarrow> nat \<Rightarrow> u32 \<Rightarrow> nat list \<Rightarrow> bool" where
  "accepted_path lang source s leaf b path \<longleftrightarrow>
     (\<exists>p. path = p @ [leaf] \<and> cover lang source s p (fork_end s) b \<and> (all_extra s p \<or> parent_last s p)) \<and>
     leaf < length (sp_trees s) \<and> tr_extra (sp_trees s ! leaf) \<and>
     tok_end_point (tr_token (sp_trees s ! leaf)) = point_at source (length source) \<and> unat b \<le> length source"

lemma accepted_path_grows:
  assumes g: "graph_grows s s'" and a: "accepted_path lang source s leaf b path"
  shows "accepted_path lang source s' leaf b path"
proof -
  obtain p where p: "path = p @ [leaf]" "cover lang source s p (fork_end s) b" "all_extra s p \<or> parent_last s p"
    using a by (auto simp: accepted_path_def)
  have len: "\<forall>t \<in> set p. t < length (sp_trees s)" using cover_length [OF p(2)] by blast
  have "cover lang source s' p (fork_end s') b" using cover_grows [OF g p(2)] fork_end_grows [OF g] by simp
  moreover have "all_extra s' p \<or> parent_last s' p"
    using p(3) all_extra_grows [OF g len] parent_last_grows [OF g len] by blast
  moreover have "leaf < length (sp_trees s)" using a by (simp add: accepted_path_def)
  ultimately show ?thesis
    using a p(1) same_token_grows [OF g] same_extra_grows [OF g] tree_grows(1) [OF g] by (auto simp: accepted_path_def)
qed

lemma upt_at: "k < n \<Longrightarrow> [0..<n] = [0..<k] @ k # [Suc k..<n]"
  using upt_add_eq_append [of 0 k "n - k"] by (simp add: upt_conv_Cons)

lemma filter_upt_last:
  assumes "n = length xs + length ys + 1" and "P (length xs)" and "\<And>i. length xs < i \<Longrightarrow> i < n \<Longrightarrow> \<not> P i"
  shows "\<exists>js. filter P [0..<n] = js @ [length xs]"
proof -
  have "[0..<n] = [0..<length xs] @ length xs # [Suc (length xs)..<n]"
    by (rule upt_at) (use assms(1) in simp)
  moreover have "filter P [Suc (length xs)..<n] = []" using assms(3) by (simp add: filter_empty_conv)
  ultimately show ?thesis using assms(2) by simp
qed

lemma root_index_path:
  assumes ids: "slice_ids s (sl_first sl) (sl_count sl) = us @ r # vs" and r: "\<not> tr_extra (sp_trees s ! r)" and vs: "all_extra s vs"
  shows "root_index s sl = Some (length us)"
proof -
  let ?P = "\<lambda>j. \<not> tr_extra (sp_trees s ! (sp_children s ! (sl_first sl + j)))"
  have n: "sl_count sl = length us + length vs + 1" using arg_cong [OF ids, of length] by simp
  have nth: "sp_children s ! (sl_first sl + j) = (us @ r # vs) ! j" if "j < sl_count sl" for j
    using that arg_cong [OF ids, of "\<lambda>xs. xs ! j"] by simp
  obtain js where "filter ?P [0..<sl_count sl] = js @ [length us]"
  proof -
    have "\<exists>js. filter ?P [0..<sl_count sl] = js @ [length us]"
    proof (rule filter_upt_last [OF n])
      show "?P (length us)" using nth [of "length us"] n r by simp
      show "\<not> ?P i" if "length us < i" "i < sl_count sl" for i
        using that nth [of i] n vs by (simp add: nth_append nth_Cons' list_all_length)
    qed
    then show thesis using that by blast
  qed
  then show ?thesis by (cases js) (simp_all add: root_index_def)
qed

lemma root_index_extra:
  assumes ids: "slice_ids s (sl_first sl) (sl_count sl) = p" and "all_extra s p"
  shows "root_index s sl = None"
  using assms by (auto simp: root_index_def list_all_iff filter_empty_conv split: list.split)

lemma concat_replace:
  assumes "map f [0..<n] = us @ r # vs"
  shows "concat (map (\<lambda>k. if k = length us then ks else [f k]) [0..<n]) = us @ ks @ vs"
proof -
  have n: "n = length us + Suc (length vs)" using arg_cong [OF assms, of length] by simp
  let ?g = "\<lambda>k. if k = length us then ks else [f k]"
  have split: "[0..<n] = [0..<length us] @ length us # [Suc (length us)..<n]"
    by (rule upt_at) (use n in simp)
  have one: "map f [0..<length us] = us" "map f [Suc (length us)..<n] = vs"
    using assms unfolding split by (simp_all add: append_eq_append_conv)
  have single: "concat (map ?g js) = map f js" if "\<forall>j \<in> set js. j \<noteq> length us" for js
    using that by (induction js) simp_all
  have "concat (map ?g [0..<length us]) = us" "concat (map ?g [Suc (length us)..<n]) = vs"
    using single [of "[0..<length us]"] single [of "[Suc (length us)..<n]"] one by simp_all
  then show ?thesis unfolding split by simp
qed

text \<open>The tree made of a slice: its run with the children of the root in the root's place.\<close>

lemma spliced_eq:
  assumes ids: "slice_ids s (sl_first sl) (sl_count sl) = us @ r # vs" and root: "root = sp_trees s ! r"
  shows "spliced s sl (length us) root = us @ slice_ids s (tr_first_child root) (tr_child_count root) @ vs"
  unfolding spliced_def by (rule concat_replace [OF ids])

lemma candidate_ready:
  assumes run: "tf_spec_parent mem (tok_symbol (tr_token root)) (tr_production_id root) (tr_structural_count root) first count base t = (u, candidate)"
    and nf: "\<not> sp_failed u" and g: "graph_grows s t" and children: "sp_children t = sp_children s @ us @ kids @ vs @ [leaf]"
    and first: "first = length (sp_children s)" and count: "count = length (us @ kids @ vs @ [leaf])"
    and root: "root = sp_trees s ! r" "\<not> tr_inherited root" "\<not> tr_leaf root"
    and kids: "kids = slice_ids s (tr_first_child root) (tr_child_count root)"
    and cover: "cover lang source s (us @ r # vs) (fork_end s) b" and b: "unat b \<le> length source"
    and leaf: "leaf < length (sp_trees s)" "tok_end_point (tr_token (sp_trees s ! leaf)) = point_at source (length source)"
  shows "root_ready lang source u candidate"
proof -
  define ts where "ts = us @ kids @ vs"
  have ids: "slice_ids t first count = ts @ [leaf]"
    using slice_ids_take [of first count t] unfolding ts_def children first count by simp
  obtain c where c: "candidate = length (sp_trees t)"
    "u = t\<lparr>sp_trees := sp_trees t @ [spec_parent (tok_symbol (tr_token root)) (tr_production_id root) (tr_structural_count root)
      first count (sp_nodes t ! base) (map (\<lambda>x. sp_trees t ! x) (ts @ [leaf]))], sp_capacity := c\<rparr>"
    using run tree_Ok [OF _ nf] unfolding tf_spec_parent_def spec_children_ids ids by metis
  let ?f = "sp_trees u ! candidate"
  have fields: "tr_first_child ?f = first" "tr_child_count ?f = count" "\<not> tr_inherited ?f" "tok_symbol (tr_token ?f) = tok_symbol (tr_token root)"
    "tok_end_point (tr_token ?f) = tok_end_point (tr_token (sp_trees t ! leaf))"
    by (simp_all add: c spec_parent_def Let_def last_map)
  have tu: "forest_grows (sp_trees t) (sp_children t) (sp_trees u) (sp_children u)" "fork_end u = fork_end t"
    "sp_children u = sp_children t"
    using forest_grows_append [of "sp_trees t" "sp_children t" _ "[]"] by (simp_all add: c(2) fork_end_def)
  have st: "forest_grows (sp_trees s) (sp_children s) (sp_trees t) (sp_children t)" using g by (simp add: graph_grows_def)
  note su = forest_grows_trans [OF st tu(1)]
  obtain m m' where m: "cover lang source s us (fork_end s) m" "visits lang source (sp_trees s) (sp_children s) r m m'"
    "cover lang source s vs m' b"
    using cover by (auto simp: spans_tree_def)
  have sym: "is_symbol lang (tok_symbol (tr_token root))" "tok_symbol (tr_token root) \<noteq> 0"
    and kids_visit: "visits_all lang source (sp_trees s) (sp_children s) kids m m'"
    using m(2) root(2,3) slice_ids_take [of "tr_first_child root" "tr_child_count root" s] unfolding root(1) kids
    by (auto elim!: visits.cases simp: kids_of_def)
  have "visits_all lang source (sp_trees s) (sp_children s) ts (fork_end s) b"
    using cover_visits [OF m(1)] kids_visit cover_visits [OF m(3)] unfolding ts_def by auto
  from visits_grows(2) [OF su this]
  have v: "visits_all lang source (sp_trees u) (sp_children u) ts (fork_end u) b"
    using tu(2) fork_end_grows [OF g] by simp
  have n: "count - 1 = length ts" "0 < count" unfolding count ts_def by simp_all
  have "slice_ids u first (count - 1) = ts"
    using slice_ids_take [of first "count - 1" u] unfolding n(1) tu(3) children first ts_def by simp
  moreover have "first + count \<le> length (sp_children u)" unfolding tu(3) children first count by simp
  moreover have "tok_end_point (tr_token (sp_trees t ! leaf)) = point_at source (length source)"
    using leaf same_token_grows [OF g leaf(1)] by simp
  moreover have "candidate < length (sp_trees u)" by (simp add: c)
  ultimately show ?thesis
    using v b sym n(2) fields unfolding root_ready_def Let_def by auto
qed

context shape_recovery
begin

lemma accept_slice_ok:
  assumes run: "accept_slice mem materialize sl s = Some s'" and nf: "\<not> sp_failed s'" "\<not> sp_failed s"
    and inv: "spec_inv lang source E s" and fin: "finished_ok lang source s" and len: "sl_first sl + sl_count sl \<le> length (sp_children s)"
    and path: "accepted_path lang source s leaf b (slice_ids s (sl_first sl) (sl_count sl))"
  shows "moves lang source E s s' \<and> sp_heads s' = sp_heads s \<and> sp_slices s' = sp_slices s \<and> finished_ok lang source s'"
proof -
  let ?ids = "slice_ids s (sl_first sl) (sl_count sl)"
  obtain p where p: "?ids = p @ [leaf]" "cover lang source s p (fork_end s) b" "all_extra s p \<or> parent_last s p"
    and leaf: "leaf < length (sp_trees s)" "tr_extra (sp_trees s ! leaf)"
      "tok_end_point (tr_token (sp_trees s ! leaf)) = point_at source (length source)" and b: "unat b \<le> length source"
    using path by (auto simp: accepted_path_def)
  show ?thesis
  proof (cases "all_extra s p")
    case True
    then have "root_index s sl = None" using root_index_extra [OF p(1)] leaf(2) by simp
    then show ?thesis using run nf inv fin moves_refl by (simp add: accept_slice_def)
  next
    case False
    then obtain us r vs where r: "p = us @ r # vs" "all_extra s vs" "\<not> tr_extra (sp_trees s ! r)"
      "\<not> tr_inherited (sp_trees s ! r)" "\<not> tr_leaf (sp_trees s ! r)" using p(3) by (auto simp: parent_last_def)
    have ids: "?ids = us @ r # (vs @ [leaf])" using p(1) r(1) by simp
    have index: "root_index s sl = Some (length us)" by (rule root_index_path [OF ids r(3)]) (use r(2) leaf(2) in simp)
    have n: "length us < sl_count sl" "sl_count sl = length us + length vs + 2" using arg_cong [OF ids, of length] by simp_all
    have at: "sp_children s ! (sl_first sl + length us) = r"
      using arg_cong [OF ids, of "\<lambda>xs. xs ! length us"] n(1) by simp
    obtain t ok where t: "(if tr_opaque (sp_trees s ! r) then materialize s else Some (s, True)) = Some (t, ok)"
      using run nf(2) unfolding accept_slice_def index option.case Let_def at by (auto simp: bind_eq_Some_conv split: if_splits)
    let ?root = "sp_trees t ! r"
    let ?count = "sl_count sl - 1 + tr_child_count ?root"
    obtain u ok' where u: "tf_spec_reserve mem A_spec_children (length (sp_children t) + ?count) t = (u, ok')" by fastforce
    define v where "v = u\<lparr>sp_children := sp_children u @ spliced u sl (length us) ?root\<rparr>"
    obtain w candidate where w: "tf_spec_parent mem (tok_symbol (tr_token ?root)) (tr_production_id ?root)
                      (tr_structural_count ?root) (length (sp_children t)) ?count 0 v = (w, candidate)" by fastforce
    have body: "(if \<not> ok then Some t else if \<not> ok' then Some u else if sp_failed w then Some w
                   else do {
                     (s, better) \<leftarrow> tf_spec_prefer mem materialize (sp_finished w) candidate w;
                     Some (if better then s\<lparr>sp_finished := candidate\<rparr> else s)
                   }) = Some s'"
      using run unfolding accept_slice_def if_not_P [OF nf(2)] index option.case Let_def at t Option.bind.simps prod.case u
        v_def [symmetric] w .
    note mat = materialize_if_grown [OF t]
    have ok: "ok" "\<not> sp_failed t"
    proof -
      show ok using body nf mat(2) by (cases ok) auto
      then show "\<not> sp_failed t" using mat(2) t nf(2) by (auto split: if_splits)
    qed
    have ok': "ok'" using body nf reserve_failed(1) [OF u] ok by (cases ok') auto
    obtain c where c: "u = t\<lparr>sp_capacity := c\<rparr>" using u ok' by (metis reserve_True)
    have nw: "\<not> sp_failed w" using body nf ok ok' by (auto split: if_splits)
    obtain x better where x: "tf_spec_prefer mem materialize (sp_finished w) candidate w = Some (x, better)"
      and s': "s' = (if better then x\<lparr>sp_finished := candidate\<rparr> else x)"
      using body ok ok' nw by (auto simp: bind_eq_Some_conv)
    have nx: "\<not> sp_failed x" using nf(1) s' by (auto split: if_splits)
    have st: "graph_step lang source E s t" "frame s t" using grown_step [OF mat(1) ok(2) inv] by blast+
    note g = graph_step_grows [OF st(1)]
    have tv: "graph_step lang source E t v" "frame t v"
    proof -
      have "graph_grows t v"
        using forest_grows_append [of "sp_trees t" "sp_children t" "[]"] by (simp add: v_def c graph_grows_def)
      moreover from spec_inv_forest [OF pop_step_inv [OF st(1)] this] have "spec_inv lang source E v" by (simp add: v_def c)
      ultimately show "graph_step lang source E t v" "frame t v"
        using ok(2) pop_step_inv [OF st(1)] by (simp_all add: pop_step_def frame_def v_def c TF_SPEC_NONE_def)
    qed
    have vw: "graph_step lang source E v w" "frame v w"
    proof -
      obtain tree where "tf_spec_tree mem tree v = (w, candidate)" using w by (auto simp: tf_spec_parent_def)
      note q = this
      obtain d where "w = v\<lparr>sp_trees := sp_trees v @ [tree], sp_capacity := d\<rparr>" using tree_Ok [OF q nw] by metis
      then show "graph_step lang source E v w" "frame v w"
        using spec_inv_tree [OF q nw pop_step_inv [OF tv(1)]] pop_step_inv [OF tv(1)]
        by (simp_all add: pop_step_def frame_def TF_SPEC_NONE_def)
    qed
    have wx: "graph_step lang source E w x" "frame w x"
      using grown_step [OF prefer_grown [OF x, where Q = True] nx pop_step_inv [OF vw(1)] TrueI] by blast+
    have sx: "graph_step lang source E s x" "frame s x"
      using pop_step_trans [OF pop_step_trans [OF pop_step_trans [OF st(1) tv(1)] vw(1)] wx(1)]
        frame_trans [OF frame_trans [OF frame_trans [OF st(2) tv(2)] vw(2)] wx(2)] by blast+
    have cov: "cover lang source s (us @ r # vs) (fork_end s) b" using p(2) r(1) by simp
    have len_r: "r < length (sp_trees s)" by (rule cover_length [OF cov]) simp
    note same = tree_grows(2) [OF g len_r]
    let ?kids = "slice_ids t (tr_first_child ?root) (tr_child_count ?root)"
    have ids_t: "slice_ids t (sl_first sl) (sl_count sl) = us @ r # (vs @ [leaf])" using slice_ids_grows [OF g len] ids by simp
    have u_children: "sp_children u = sp_children t" by (simp add: c)
    have "spliced u sl (length us) ?root = us @ ?kids @ vs @ [leaf]"
      using spliced_eq [OF ids_t refl] unfolding spliced_def u_children .
    then have children: "sp_children v = sp_children t @ us @ ?kids @ vs @ [leaf]" by (simp add: v_def c)
    have ready: "root_ready lang source w candidate"
    proof (rule candidate_ready [OF w nw graph_step_grows [OF tv(1)] children refl _ refl _ _ refl])
      show "?count = length (us @ ?kids @ vs @ [leaf])" using n(2) by simp
      show "\<not> tr_inherited ?root" "\<not> tr_leaf ?root" using same r(4,5) by (simp_all add: same_tree_def)
      show "cover lang source t (us @ r # vs) (fork_end t) b" using cover_grows [OF g cov] fork_end_grows [OF g] by simp
      show "unat b \<le> length source" by (rule b)
      show "leaf < length (sp_trees t)" by (rule tree_grows(1) [OF g leaf(1)])
      show "tok_end_point (tr_token (sp_trees t ! leaf)) = point_at source (length source)"
        using leaf(3) same_token_grows [OF g leaf(1)] by simp
    qed
    have ready': "root_ready lang source x candidate" by (rule root_ready_grows [OF graph_step_grows [OF wx(1)] ready])
    have fin': "finished_ok lang source x"
      by (rule finished_ok_moves [OF graph_step_grows [OF sx(1)] _ fin]) (use sx(2) in \<open>simp add: frame_def\<close>)
    have only: "root_ready lang source (x\<lparr>sp_finished := f\<rparr>) k = root_ready lang source x k" for f k
      by (simp add: root_ready_def fork_end_def)
    have "moves lang source E s s'"
    proof -
      have "moves lang source E x s'"
        using pop_step_inv [OF wx(1)] by (simp add: s' moves_def)
      then show ?thesis using moves_trans [OF step_moves [OF sx(1)]] by blast
    qed
    moreover have "sp_heads s' = sp_heads s" "sp_slices s' = sp_slices s" using sx(2) by (simp_all add: s' frame_def)
    moreover have "finished_ok lang source s'"
      using ready' fin' by (cases better) (simp_all add: s' only)
    ultimately show ?thesis by blast
  qed
qed

lemma accept_slices_failed:
  "fold_opt (accept_slice mem materialize) sls s = Some s' \<Longrightarrow> sp_failed s \<Longrightarrow> sp_failed s'"
  by (induction sls arbitrary: s) (auto simp: bind_eq_Some_conv accept_slice_def)

lemma accept_slices_ok:
  assumes "fold_opt (accept_slice mem materialize) sls s = Some s'" and "\<not> sp_failed s'" and "\<not> sp_failed s"
    and "spec_inv lang source E s" and "finished_ok lang source s"
    and "\<forall>sl \<in> set sls. sl_first sl + sl_count sl \<le> length (sp_children s) \<and>
      accepted_path lang source s leaf b (slice_ids s (sl_first sl) (sl_count sl))"
  shows "moves lang source E s s' \<and> sp_heads s' = sp_heads s \<and> sp_slices s' = sp_slices s \<and> finished_ok lang source s'"
  using assms
proof (induction sls arbitrary: s)
  case Nil
  then show ?case using moves_refl by simp
next
  case (Cons sl sls)
  obtain t where t: "accept_slice mem materialize sl s = Some t" and rest: "fold_opt (accept_slice mem materialize) sls t = Some s'"
    using Cons.prems(1) by (auto simp: bind_eq_Some_conv)
  have nt: "\<not> sp_failed t" using accept_slices_failed [OF rest] Cons.prems(2) by blast
  have "sl_first sl + sl_count sl \<le> length (sp_children s)" "accepted_path lang source s leaf b (slice_ids s (sl_first sl) (sl_count sl))"
    using Cons.prems(6) by simp_all
  from accept_slice_ok [OF t nt Cons.prems(3-5) this]
  have one: "moves lang source E s t" "sp_heads t = sp_heads s" "sp_slices t = sp_slices s" "finished_ok lang source t" by blast+
  note g = moves_grows [OF one(1)]
  then have "length (sp_children s) \<le> length (sp_children t)" by (auto simp: graph_grows_def forest_grows_def)
  have "\<forall>sl \<in> set sls. sl_first sl + sl_count sl \<le> length (sp_children t) \<and>
      accepted_path lang source t leaf b (slice_ids t (sl_first sl) (sl_count sl))"
  proof
    fix sl' assume "sl' \<in> set sls"
    then have sl': "sl_first sl' + sl_count sl' \<le> length (sp_children s)"
      "accepted_path lang source s leaf b (slice_ids s (sl_first sl') (sl_count sl'))"
      using Cons.prems(6) by simp_all
    then show "sl_first sl' + sl_count sl' \<le> length (sp_children t) \<and>
        accepted_path lang source t leaf b (slice_ids t (sl_first sl') (sl_count sl'))"
      using accepted_path_grows [OF g sl'(2)] \<open>length (sp_children s) \<le> length (sp_children t)\<close>
      unfolding slice_ids_grows [OF g sl'(1)] by linarith
  qed
  from Cons.IH [OF rest Cons.prems(2) nt moves_inv [OF one(1)] one(4) this] one(2,3)
  show ?case using moves_trans [OF one(1)] by auto
qed

lemma tf_spec_accept_ok:
  assumes run: "tf_spec_accept mem materialize version eof s = Some s'" and nf: "\<not> sp_failed s'" "\<not> sp_failed s"
    and inv: "spec_inv lang source E s" and heads: "heads_ok E s" "version < length (sp_heads s)" "\<not> hd_halted (sp_heads s ! version)"
    and fin: "finished_ok lang source s" and tables: "tables_ok lang"
    and acc: "accepting lang (sn_state (sp_nodes s ! hd_node (sp_heads s ! version)))"
    and eof: "unat (tok_end_byte eof) = length source" "tok_end_point eof = point_at source (length source)"
  shows "\<exists>E'. moves lang source E' s s' \<and> heads_ok E' s' \<and> finished_ok lang source s' \<and> length (sp_heads s') = length (sp_heads s)"
proof -
  let ?tip = "hd_node (sp_heads s ! version)"
  define s1 where "s1 = extend_all mem (sp_prefix_left s) s"
  let ?leaf = "leaf_tree eof (sn_byte (sp_nodes s1 ! hd_node (sp_heads s1 ! version))) True"
  obtain s2 leaf where s2: "tf_spec_tree mem ?leaf s1 = (s2, leaf)" by fastforce
  obtain s3 node where s3: "tf_spec_push mem (hd_node (sp_heads s1 ! version)) leaf 1 s2 = (s3, node)" by fastforce
  have body: "(if sp_failed s1 then Some s1 else if sp_failed s2 then Some s2 else if sp_failed s3 then Some s3
                  else do {
                    s \<leftarrow> tf_spec_pop mem version TF_SPEC_NONE (move_head version node s3);
                    if sp_failed s then Some s
                    else do {
                      s \<leftarrow> fold_opt (accept_slice mem materialize) (sp_slices s) s;
                      let s = (if sp_slices s \<noteq> [] then tf_spec_remove_head (sl_version (hd (sp_slices s))) s else s)
                      in Some (halt_head version False s)
                    }
                  }) = Some s'"
    using run unfolding tf_spec_accept_def Let_def s1_def [symmetric] s2 prod.case s3 .
  have n: "\<not> sp_failed s1" "\<not> sp_failed s2" "\<not> sp_failed s3" using body nf(1) by (auto split: if_splits)
  obtain s5 where s5: "tf_spec_pop mem version TF_SPEC_NONE (move_head version node s3) = Some s5"
    and rest: "(if sp_failed s5 then Some s5
                    else do {
                      s \<leftarrow> fold_opt (accept_slice mem materialize) (sp_slices s5) s5;
                      let s = (if sp_slices s \<noteq> [] then tf_spec_remove_head (sl_version (hd (sp_slices s))) s else s)
                      in Some (halt_head version False s)
                    }) = Some s'"
    using body n by (auto simp: bind_eq_Some_conv)
  have n5: "\<not> sp_failed s5" using rest nf(1) by (auto split: if_splits)
  obtain s6 where s6: "fold_opt (accept_slice mem materialize) (sp_slices s5) s5 = Some s6"
    and s': "s' = halt_head version False (if sp_slices s6 \<noteq> [] then tf_spec_remove_head (sl_version (hd (sp_slices s6))) s6 else s6)"
    using rest n5 by (auto simp: bind_eq_Some_conv Let_def)
  have n6: "\<not> sp_failed s6" using nf(1) s' by (auto simp: halt_head_def tf_spec_remove_head_def split: if_splits)
  have "graph_step lang source E s s1 \<and> frame s s1"
    unfolding s1_def by (rule extend_all_ok [OF n(1) [unfolded s1_def] nf(2) inv])
  then have one: "graph_step lang source E s s1" "frame s s1" by blast+
  have tip: "hd_node (sp_heads s1 ! version) = ?tip" using one(2) by (simp add: frame_def)
  note s3 = s3 [unfolded tip]
  have lives: "?tip < length (sp_nodes s)" "?tip \<notin> E" using heads by (auto simp: list_all_length head_ok_def)
  obtain c where c: "leaf = length (sp_trees s1)" "s2 = s1\<lparr>sp_trees := sp_trees s1 @ [?leaf], sp_capacity := c\<rparr>"
    using tree_Ok [OF s2 n(2)] by metis
  note two = spec_inv_tree [OF s2 n(2) pop_step_inv [OF one(1)]]
  have g2: "graph_grows s s2" by (rule graph_grows_trans [OF graph_step_grows [OF one(1)] two(2)])
  have leaf: "leaf < length (sp_trees s2)" "sp_trees s2 ! leaf = ?leaf" by (simp_all add: c)
  have tip2: "?tip < length (sp_nodes s2)" by (rule node_grows(1) [OF g2 lives(1)])
  let ?E = "insert (length (sp_nodes s2)) E"
  have fresh: "length (sp_nodes s2) \<notin> E" using two(1) by (auto simp: spec_inv_def)
  have neq: "?E = E \<Longrightarrow> Q" for Q using fresh by (metis insertI1)
  have one_state: "is_state lang (1 :: TSStateId)" using tables by (simp add: tables_ok_def)
  have ends: "unat (tok_end_byte (tr_token (sp_trees s2 ! leaf))) \<le> length source"
      "tok_end_point (tr_token (sp_trees s2 ! leaf)) = point_at source (unat (tok_end_byte (tr_token (sp_trees s2 ! leaf))))"
    using eof by (simp_all add: leaf(2) leaf_tree_def)
  note push = push_inv [OF s3 n(3) two(1) tip2 lives(2) disjI2 [OF refl] one_state ends neq neq]
  define s4 where "s4 = move_head version node s3"
  have h4: "sp_heads s4 = (sp_heads s)[version := (sp_heads s ! version)\<lparr>hd_node := node\<rparr>]" "\<not> sp_failed s4"
    using one(2) push(11) n(3) by (simp_all add: s4_def move_head_def frame_def c(2))
  have inv4: "spec_inv lang source ?E s4" using push(1) by (simp add: s4_def move_head_def)
  have g4: "graph_grows s2 s4" using graph_grows_trans [OF push(2)] by (simp add: s4_def move_head_def)
  have node: "hd_node (sp_heads s4 ! version) = node" using heads(2) by (simp add: h4(1))
  have "above lang source ?E node ?tip leaf s4 (hd_node (sp_heads s4 ! version)) []"
    unfolding above_def node
  proof (intro conjI)
    show "node < length (sp_nodes s4)" using push(5) by (simp add: s4_def move_head_def)
    show "node_links s4 node = [\<lparr>lk_node = ?tip, lk_tree = leaf\<rparr>]"
      using push(8) by (simp add: s4_def move_head_def node_links_def)
    show "?tip < length (sp_nodes s4)" by (rule node_grows(1) [OF g4 tip2])
    show "?tip \<notin> ?E" using lives(2) tip2 by simp
    show "accepting lang (sn_state (sp_nodes s4 ! ?tip))"
      using acc node_grows(2) [OF g2 lives(1)] node_grows(2) [OF g4 tip2] by simp
  qed simp
  note pop = tf_spec_pop_ok [OF s5 [folded s4_def] n5 h4(2) inv4 walks_above graph_only_above this]
  note st5 = pop_step_graph [OF pop(1)]
  note inv5 = pop_step_inv [OF pop(1)]
  note g5 = graph_step_grows [OF st5]
  obtain bases paths where sl: "sliced (above lang source ?E node ?tip leaf) TF_SPEC_NONE (sp_heads s4) bases paths s5"
    using pop(2) by (auto simp: popping_def)
  have bases: "b = sp_frontier s5" "sn_link_count (sp_nodes s5 ! b) = 0" if "b \<in> set bases" for b
  proof -
    show count: "sn_link_count (sp_nodes s5 ! b) = 0" using sl that by (simp add: sliced_def)
    from that obtain i where i: "i < length bases" "bases ! i = b" unfolding in_set_conv_nth by blast
    then obtain sl' where "slice_ok (above lang source ?E node ?tip leaf) s5 b sl'"
      using sl by (fastforce simp: sliced_def dest: hd_in_set)
    then have "b < length (sp_nodes s5)" by (auto simp: slice_ok_def above_def below_def)
    then show "b = sp_frontier s5" by (rule spec_inv_node(2) [OF inv5 _ count])
  qed
  have slices: "sl_first sl + sl_count sl \<le> length (sp_children s5) \<and>
      accepted_path lang source s5 leaf (from_fork s5 ?tip) (slice_ids s5 (sl_first sl) (sl_count sl))"
    if "sl \<in> set (sp_slices s5)" for sl
  proof -
    have concat: "sp_slices s5 = concat paths" "length paths = length bases"
      "\<forall>i < length bases. \<forall>sl \<in> set (paths ! i). slice_ok (above lang source ?E node ?tip leaf) s5 (bases ! i) sl"
      using sl by (simp_all add: sliced_def)
    from that obtain q where "q \<in> set paths" "sl \<in> set q" unfolding concat(1) set_concat by blast
    then obtain i where i: "i < length bases" "slice_ok (above lang source ?E node ?tip leaf) s5 (bases ! i) sl"
      using concat(2,3) by (metis in_set_conv_nth)
    note b = bases [OF nth_mem [OF i(1)]]
    let ?path = "take (sl_count sl) (drop (sl_first sl) (sp_children s5))"
    have len: "sl_first sl + sl_count sl \<le> length (sp_children s5)"
      and abo: "above lang source ?E node ?tip leaf s5 (bases ! i) ?path" using i(2) by (simp_all add: slice_ok_def)
    have "bases ! i \<noteq> node"
    proof
      assume "bases ! i = node"
      then have "length (node_links s5 node) = 0" using b(2) by (simp add: node_links_def)
      then show False using abo by (simp add: above_def)
    qed
    then obtain p where p: "?path = p @ [leaf]" "below lang source ?E ?tip s5 (bases ! i) p" "all_extra s5 p \<or> parent_last s5 p"
      and t5: "?tip < length (sp_nodes s5)" using abo by (auto simp: above_def)
    have "cover lang source s5 p (fork_end s5) (from_fork s5 ?tip)"
      using p(2) frontier_fork [OF inv5] by (simp add: below_def b(1))
    moreover have "leaf < length (sp_trees s4)" "tr_token (sp_trees s4 ! leaf) = eof" "tr_extra (sp_trees s4 ! leaf)"
      using leaf push(9) by (simp_all add: s4_def move_head_def leaf_tree_def)
    ultimately show ?thesis
      using len p(1,3) eof(2) slice_ids_take [OF len] from_fork_length [OF inv5 t5] same_token_grows [OF g5] same_extra_grows [OF g5]
        tree_grows(1) [OF g5] unfolding accepted_path_def by auto
  qed
  have fin5: "finished_ok lang source s5"
  proof (rule finished_ok_moves [OF graph_grows_trans [OF g2 graph_grows_trans [OF g4 g5]] _ fin])
    have "sp_finished s3 = sp_finished s2" by (rule push_Ok [OF s3 n(3)]) simp
    then show "sp_finished s5 = sp_finished s"
      using step_fields [OF st5] one(2) by (simp add: s4_def move_head_def c(2) frame_def)
  qed
  have "moves lang source ?E s5 s6 \<and> sp_heads s6 = sp_heads s5 \<and> sp_slices s6 = sp_slices s5 \<and> finished_ok lang source s6"
    by (rule accept_slices_ok [OF s6 n6 n5 inv5 fin5]) (use slices in blast)
  then have six: "moves lang source ?E s5 s6" "sp_heads s6 = sp_heads s5" "sp_slices s6 = sp_slices s5" "finished_ok lang source s6"
    by blast+
  define s7 where "s7 = (if sp_slices s6 \<noteq> [] then tf_spec_remove_head (sl_version (hd (sp_slices s6))) s6 else s6)"
  have h7: "sp_heads s7 = sp_heads s4" and s7_eq: "\<exists>h. s7 = s6\<lparr>sp_heads := h\<rparr>"
  proof -
    have b01: "bases = [] \<or> (\<exists>b. bases = [b])"
    proof (cases bases)
      case (Cons x xs)
      have "xs = []"
      proof (rule ccontr)
        assume "xs \<noteq> []"
        then obtain y ys where "bases = x # y # ys" using Cons by (cases xs) auto
        then show False using bases(1) sl by (auto simp: sliced_def)
      qed
      then show ?thesis using Cons by simp
    qed simp
    have heads5: "sp_heads s5 = sp_heads s4 @ map new_head bases" "sp_slices s5 = concat paths" "length paths = length bases"
      "\<forall>i < length bases. paths ! i \<noteq> [] \<and> (\<forall>sl \<in> set (paths ! i). sl_version sl = length (sp_heads s4) + i)"
      using sl by (auto simp: sliced_def)
    show "\<exists>h. s7 = s6\<lparr>sp_heads := h\<rparr>"
      by (cases "sp_slices s6 = []") (auto simp: s7_def tf_spec_remove_head_def intro: exI [of _ "sp_heads s6"])
    show "sp_heads s7 = sp_heads s4"
    proof (cases "bases = []")
      case True
      then show ?thesis using heads5 six(2,3) by (simp add: s7_def)
    next
      case False
      then obtain b where b: "bases = [b]" using b01 by blast
      then obtain p where p: "paths = [p]" using heads5(3) by (cases paths) auto
      have "p \<noteq> []" "sl_version (hd p) = length (sp_heads s4)" using heads5(4) b p by (auto dest: hd_in_set)
      moreover have "sp_slices s6 = p" using heads5(2) six(3) p by simp
      ultimately show ?thesis
        using heads5(1) six(2) b by (simp add: s7_def tf_spec_remove_head_def)
    qed
  qed
  obtain h where s'_eq: "s' = s6\<lparr>sp_heads := h\<rparr>"
    using s7_eq unfolding s' s7_def [symmetric] by (auto simp: halt_head_def)
  have hs': "sp_heads s' = (sp_heads s)[version := (sp_heads s ! version)\<lparr>hd_node := node, hd_halted := True\<rparr>]"
    unfolding s' s7_def [symmetric] using h7 heads(2) by (simp add: halt_head_def h4(1))
  have m': "moves lang source ?E s s'"
    unfolding moves_def
  proof (intro conjI)
    show "spec_inv lang source ?E s'" using moves_inv [OF six(1)] by (simp add: s'_eq)
    show "graph_grows s s'"
      using graph_grows_trans [OF graph_grows_trans [OF g2 g4] graph_grows_trans [OF g5 graph_grows_trans [OF moves_grows [OF six(1)], of s']]]
      by (simp add: s'_eq)
    have cache3: "sp_cached s3 = sp_cached s2 \<and> sp_cached_byte s3 = sp_cached_byte s2 \<and> sp_has_cache s3 = sp_has_cache s2 \<and>
      sp_cached_keyword s3 = sp_cached_keyword s2" by (rule push_Ok [OF s3 n(3)]) simp
    show "sp_cached s' = sp_cached s" "sp_cached_byte s' = sp_cached_byte s" "sp_has_cache s' = sp_has_cache s"
      "sp_cached_keyword s' = sp_cached_keyword s"
      using six(1) step_fields [OF st5] cache3 one(2) by (simp_all add: s'_eq moves_def s4_def move_head_def c(2) frame_def)
  qed
  have "head_ok ?E s' x" if "x \<in> set (sp_heads s')" for x
  proof -
    have "x = (sp_heads s ! version)\<lparr>hd_node := node, hd_halted := True\<rparr> \<or> x \<in> set (sp_heads s)"
      using that set_update_subset_insert unfolding hs' by fastforce
    then show ?thesis
    proof
      assume "x \<in> set (sp_heads s)"
      then have x: "head_ok E s x" using heads(1) by (simp add: list_all_iff)
      then have "head_ok E s' x" by (rule head_ok_grows [OF moves_grows [OF m']])
      moreover have "hd_node x < length (sp_nodes s2)" if "\<not> hd_halted x"
        using x that node_grows(1) [OF g2] by (simp add: head_ok_def)
      ultimately show ?thesis by (auto simp: head_ok_def)
    qed (simp add: head_ok_def)
  qed
  then have "heads_ok ?E s'" by (simp add: list_all_iff)
  moreover have "finished_ok lang source s'"
    using six(4) by (simp add: s'_eq root_ready_def fork_end_def)
  ultimately show ?thesis using m' hs' by auto
qed

end

end
