(* ===== verification/Spec_Advance.thy ===== *)
theory Spec_Advance
  imports Spec_Accept Lexer_End
begin

text \<open>
  Advancing a version by a token: it is lexed or taken from the cache, and the actions of the
  state are carried out. Each keeps what a speculation holds as a whole.
\<close>

section \<open>What is asked of the tables and the tokens\<close>

text \<open>Only the end of the input is accepted, and no token is shifted into a state that accepts it.\<close>

definition speculates :: "TFLanguage \<Rightarrow> bool" where
  "speculates lang \<longleftrightarrow>
     list_all (\<lambda>q. list_all (\<lambda>t. list_all
         (\<lambda>a. case a of Accept \<Rightarrow> t = 0 | Shift s extra _ \<Rightarrow> extra \<or> Accept \<notin> set (tf_actions lang s 0) | _ \<Rightarrow> True)
         (tf_actions lang (of_nat q) (of_nat t)))
       [0..<unat (token_count (ts lang))]) [0..<unat (state_count (ts lang))]"

lemma speculates_action:
  assumes "speculates lang" and "is_state lang q" and "is_token lang t" and "a \<in> set (tf_actions lang q t)"
  shows "case a of Accept \<Rightarrow> t = 0 | Shift s extra _ \<Rightarrow> extra \<or> \<not> accepting lang s | _ \<Rightarrow> True"
proof -
  let ?P = "\<lambda>t a. case a of Accept \<Rightarrow> t = 0 | Shift s extra _ \<Rightarrow> extra \<or> Accept \<notin> set (tf_actions lang s 0) | _ \<Rightarrow> True"
  have "list_all (\<lambda>q. list_all (\<lambda>t. list_all (?P t) (tf_actions lang (of_nat q) (of_nat t)))
       [0..<unat (token_count (ts lang))]) [0..<unat (state_count (ts lang))]"
    using assms(1) by (simp add: speculates_def)
  then have "list_all (\<lambda>t. list_all (?P t) (tf_actions lang (of_nat (unat q)) (of_nat t))) [0..<unat (token_count (ts lang))]"
    using assms(2) by (rule list_all_upt_word)
  then have "list_all (?P (unat t)) (tf_actions lang (of_nat (unat q)) (of_nat (unat t)))"
    using assms(3) by (rule list_all_upt_word)
  then have "?P (unat t) a" using assms(4) by (simp add: list_all_iff)
  then show ?thesis by (auto simp: accepting_def unat_eq_zero split: TSParseAction.split)
qed

text \<open>A token that may come next at \<open>byte\<close>: the end token is at the end of the input.\<close>

definition next_ok :: "TFLanguage \<Rightarrow> u8 list \<Rightarrow> u32 \<Rightarrow> TFToken \<Rightarrow> bool \<Rightarrow> bool" where
  "next_ok lang source byte token keyword \<longleftrightarrow>
     token_at source byte token \<and> is_token lang (tok_symbol token) \<and>
     (tok_symbol token = 0 \<longrightarrow> unat (tok_end_byte token) = length source) \<and>
     (keyword \<longrightarrow> keyword_capture_token (ts lang) \<noteq> 0)"

abbreviation cache_ok :: "TFLanguage \<Rightarrow> u8 list \<Rightarrow> TFSpec \<Rightarrow> bool" where
  "cache_ok lang source s \<equiv> sp_has_cache s \<longrightarrow> next_ok lang source (sp_cached_byte s) (sp_cached s) (sp_cached_keyword s)"

lemma next_ok_demote:
  assumes "tf_parser_demote_keyword lang state token keyword = Some token'" and "next_ok lang source byte token keyword" and "tables_ok lang"
  shows "next_ok lang source byte token' keyword"
  using assms by (auto simp: tf_parser_demote_keyword_def next_ok_def token_at_def tables_ok_def split: if_splits)

section \<open>A speculation as a whole\<close>

definition run_ok :: "TFLanguage \<Rightarrow> u8 list \<Rightarrow> nat set \<Rightarrow> TFSpec \<Rightarrow> bool" where
  "run_ok lang source E s \<longleftrightarrow> \<not> sp_failed s \<and> spec_inv lang source E s \<and> heads_ok E s \<and> finished_ok lang source s \<and> cache_ok lang source s"

text \<open>A graph that a speculation has gone on to.\<close>

definition goes_on :: "TFLanguage \<Rightarrow> u8 list \<Rightarrow> TFSpec \<Rightarrow> TFSpec \<Rightarrow> bool" where
  "goes_on lang source s s' \<longleftrightarrow> graph_grows s s' \<and> (\<exists>E'. run_ok lang source E' s')"

lemma goes_on_refl: "run_ok lang source E s \<Longrightarrow> goes_on lang source s s"
  by (auto simp: goes_on_def)

lemma goes_on_trans: "graph_grows s t \<Longrightarrow> goes_on lang source t u \<Longrightarrow> goes_on lang source s u"
  by (auto simp: goes_on_def intro: graph_grows_trans)

text \<open>What a cached token and a noted error leave alone.\<close>

definition same_graph :: "TFSpec \<Rightarrow> TFSpec \<Rightarrow> bool" where
  "same_graph s s' \<longleftrightarrow> sp_nodes s' = sp_nodes s \<and> sp_links s' = sp_links s \<and> sp_trees s' = sp_trees s \<and>
     sp_children s' = sp_children s \<and> sp_owner s' = sp_owner s \<and> sp_frontier s' = sp_frontier s \<and>
     sp_prefix_left s' = sp_prefix_left s \<and> sp_prefix_tree s' = sp_prefix_tree s \<and> sp_heads s' = sp_heads s \<and>
     sp_finished s' = sp_finished s \<and> sp_failed s' = sp_failed s"

lemma same_graph_grows: "same_graph s s' \<Longrightarrow> graph_grows s s'"
  by (simp add: same_graph_def graph_grows_def)

lemma same_graph_run:
  assumes "same_graph s s'" and "run_ok lang source E s" and "cache_ok lang source s'"
  shows "run_ok lang source E s'"
proof -
  have g: "graph_grows s s'" by (rule same_graph_grows [OF assms(1)])
  have "spec_inv lang source E s'"
    by (rule spec_inv_forest [of lang source E s, OF _ g]) (use assms(1,2) in \<open>simp_all add: same_graph_def run_ok_def\<close>)
  moreover have "heads_ok E s'"
    using assms(1,2) head_ok_grows [OF g] by (simp add: same_graph_def run_ok_def list_all_iff)
  moreover have "finished_ok lang source s'"
    using assms(1,2) finished_ok_moves [OF g] by (simp add: same_graph_def run_ok_def)
  ultimately show ?thesis using assms by (simp add: run_ok_def same_graph_def)
qed

lemma error_same: "same_graph s (tf_spec_error byte point state symbol is_lex s)"
  by (simp add: tf_spec_error_def same_graph_def)

lemma error_cache: "cache_ok lang source (tf_spec_error byte point state symbol is_lex s) = cache_ok lang source s"
  by (simp add: tf_spec_error_def)

lemma error_run:
  assumes "run_ok lang source E s"
  shows "run_ok lang source E (tf_spec_error byte point state symbol is_lex s)"
proof (rule same_graph_run [OF error_same assms])
  show "cache_ok lang source (tf_spec_error byte point state symbol is_lex s)"
    unfolding error_cache using assms unfolding run_ok_def by blast
qed

text \<open>Heads may be changed to any that are right.\<close>

lemma heads_run: "run_ok lang source E s \<Longrightarrow> list_all (head_ok E s) h \<Longrightarrow> run_ok lang source E (s\<lparr>sp_heads := h\<rparr>)"
  using finished_ok_moves [of s "s\<lparr>sp_heads := h\<rparr>" lang source] by (simp add: run_ok_def list_all_iff head_ok_def fork_end_def)

lemma halt_run:
  assumes "run_ok lang source E s"
  shows "run_ok lang source E (halt_head version errored s)"
  unfolding halt_head_def
proof (rule heads_run [OF assms])
  have "list_all (head_ok E s) (sp_heads s)" using assms by (simp add: run_ok_def)
  moreover have "head_ok E s ((sp_heads s ! version)\<lparr>hd_halted := True, hd_errored := errored \<or> hd_errored (sp_heads s ! version)\<rparr>)"
    by (simp add: head_ok_def)
  ultimately show "list_all (head_ok E s) ((sp_heads s)[version := (sp_heads s ! version)
      \<lparr>hd_halted := True, hd_errored := errored \<or> hd_errored (sp_heads s ! version)\<rparr>])"
    unfolding list_all_iff using set_update_subset_insert [of "sp_heads s" version] by blast
qed

lemma halt_grows: "graph_grows s (halt_head version errored s)"
  by (simp add: halt_head_def)

text \<open>A version that is to be advanced.\<close>

lemma live_head:
  assumes "run_ok lang source E s" and "version < length (sp_heads s)" and "\<not> hd_halted (sp_heads s ! version)"
  defines "node \<equiv> hd_node (sp_heads s ! version)"
  shows "node < length (sp_nodes s)" and "node \<notin> E" and "fork_end s \<le> sn_byte (sp_nodes s ! node)"
    and "is_state lang (sn_state (sp_nodes s ! node))" and "unat (sn_byte (sp_nodes s ! node)) \<le> length source"
    and "sn_point (sp_nodes s ! node) = point_at source (unat (sn_byte (sp_nodes s ! node)))"
proof -
  have h: "node < length (sp_nodes s) \<and> node \<notin> E \<and> fork_end s \<le> sn_byte (sp_nodes s ! node)"
    using assms by (auto simp: run_ok_def list_all_length head_ok_def)
  then show "node < length (sp_nodes s)" "node \<notin> E" "fork_end s \<le> sn_byte (sp_nodes s ! node)" by simp_all
  have "node_ok lang source (sp_nodes s ! node)"
    using spec_inv_node(1) [of lang source E s node] assms(1) h by (simp add: run_ok_def)
  then show "is_state lang (sn_state (sp_nodes s ! node))" "unat (sn_byte (sp_nodes s ! node)) \<le> length source"
    "sn_point (sp_nodes s ! node) = point_at source (unat (sn_byte (sp_nodes s ! node)))" by (simp_all add: node_ok_def)
qed

section \<open>Lexing\<close>

lemma tf_spec_lex_ok:
  assumes run: "tf_spec_lex node s p = Some (s', p', r)" and ok: "cache_ok lang source s"
    and node: "unat (sn_byte (sp_nodes s ! node)) \<le> length source"
      "sn_point (sp_nodes s ! node) = point_at source (unat (sn_byte (sp_nodes s ! node)))"
    and p: "ps_lang p = lang" "lexer_pos lang source (ps_lexer p)"
    and tables: "tables_ok lang" "lexes_tokens lang" "lexes_end lang"
  shows "cache_ok lang source s'" and "same_graph s s'" and "lexer_pos lang source (ps_lexer p')" and "lexer_only p p'"
    and "r = Some (token, keyword) \<Longrightarrow> next_ok lang source (sn_byte (sp_nodes s ! node)) token keyword"
proof -
  let ?n = "sp_nodes s ! node"
  have "cache_ok lang source s' \<and> same_graph s s' \<and> lexer_pos lang source (ps_lexer p') \<and> lexer_only p p' \<and>
     (r = Some (token, keyword) \<longrightarrow> next_ok lang source (sn_byte ?n) token keyword)"
  proof (cases "sp_has_cache s \<and> sp_cached_byte s = sn_byte ?n \<and> cache_reusable (ps_lang p) (sn_state ?n) s")
    case True
    have "(s, p, Some (sp_cached s, sp_cached_keyword s)) = (s', p', r)"
      using run unfolding tf_spec_lex_def Let_def if_P [OF True] option.inject .
    then have "s' = s" "p' = p" "r = Some (sp_cached s, sp_cached_keyword s)" unfolding prod.inject by blast+
    then show ?thesis using ok True p lexer_only_refl by (auto simp: same_graph_def)
  next
    case False
    let ?l = "tf_lexer_seek (sn_byte ?n) (sn_point ?n) (ps_lexer p)"
    obtain l lexed where next': "tf_lexer_next (sn_state ?n) ?l = Some (l, lexed)"
      and res: "(case lexed of
               None \<Rightarrow> Some (tf_spec_error (lx_byte l) (lx_point l) (sn_state ?n) 0 True s, p\<lparr>ps_lexer := l\<rparr>, None)
             | Some token \<Rightarrow>
                 Some (s\<lparr>sp_cached := token, sp_cached_byte := sn_byte ?n, sp_cached_state := sn_state ?n,
                         sp_cached_keyword := token_is_keyword l, sp_has_cache := True\<rparr>,
                       p\<lparr>ps_lexer := l\<rparr>, Some (token, token_is_keyword l))) = Some (s', p', r)"
      using run unfolding tf_spec_lex_def Let_def if_not_P [OF False] by (auto simp: bind_eq_Some_conv)
    have "sn_byte ?n \<le> lx_size (ps_lexer p)" using node(1) p(2) by (simp add: lexer_pos_def word_le_nat_alt)
    note pos = lexer_pos_seek [OF p(2) this node(2)]
    note l = lexer_next_inv [OF next' pos(1)]
    have p': "p' = p\<lparr>ps_lexer := l\<rparr>" using res by (auto split: option.splits)
    then have lex: "lexer_pos lang source (ps_lexer p') \<and> lexer_only p p'" using l(1) by auto
    show ?thesis
    proof (cases lexed)
      case None
      then have "s' = tf_spec_error (lx_byte l) (lx_point l) (sn_state ?n) 0 True s" "r = None" using res by simp_all
      then show ?thesis using lex ok error_cache error_same by (simp only: option.distinct simp_thms)
    next
      case (Some tok)
      then have s': "s' = s\<lparr>sp_cached := tok, sp_cached_byte := sn_byte ?n, sp_cached_state := sn_state ?n,
          sp_cached_keyword := token_is_keyword l, sp_has_cache := True\<rparr>" and r: "r = Some (tok, token_is_keyword l)"
        using res by simp_all
      have "is_token lang (tok_symbol tok)"
        using lexer_next_symbol [of _ _ _ _ lang source "is_token lang"] next' Some pos(1) tables(1,2)
        by (auto simp: lexes_tokens_def tables_ok_def)
      moreover have "tok_symbol tok = 0 \<longrightarrow> unat (tok_end_byte tok) = length source"
        using lexer_next_end [OF next' [unfolded Some] pos(1) tables(3)] by blast
      moreover have "token_at source (sn_byte ?n) tok" using l(2) [OF Some] pos(2) by simp
      ultimately have "next_ok lang source (sn_byte ?n) tok (token_is_keyword l)"
        using lexer_next_flag [OF next' pos(1)] by (simp add: next_ok_def)
      moreover have "same_graph s s'" by (simp add: s' same_graph_def)
      moreover from calculation have "cache_ok lang source s'" by (simp add: s')
      ultimately show ?thesis using lex r by auto
    qed
  qed
  then show "cache_ok lang source s'" "same_graph s s'" "lexer_pos lang source (ps_lexer p')" "lexer_only p p'"
    "r = Some (token, keyword) \<Longrightarrow> next_ok lang source (sn_byte (sp_nodes s ! node)) token keyword" by blast+
qed

section \<open>The actions\<close>

lemma acted_moves:
  assumes "moves lang source E' s s'" and "\<not> sp_failed s'" and "heads_ok E' s'" and "finished_ok lang source s'" and "run_ok lang source E s"
  shows "run_ok lang source E' s'" and "graph_grows s s'"
  using assms by (auto simp: run_ok_def moves_def)

text \<open>A token shifted onto a version.\<close>

lemma shift_version_ok:
  assumes ok: "run_ok lang source E s" and version: "version < length (sp_heads s)" "\<not> hd_halted (sp_heads s ! version)"
    and tok: "next_ok lang source (sn_byte (sp_nodes s ! hd_node (sp_heads s ! version))) token keyword"
    and action: "Shift next_state extra repetition \<in> set (tf_actions lang state (tok_symbol token))"
    and state: "state = sn_state (sp_nodes s ! hd_node (sp_heads s ! version))"
    and tables: "tables_ok lang" "speculates lang"
    and leaf: "tf_spec_tree mem (leaf_tree token (sn_byte (sp_nodes s ! hd_node (sp_heads s ! version))) extra) s = (t, leaf)" "\<not> sp_failed t"
    and push: "tf_spec_push mem (hd_node (sp_heads s ! version)) leaf (if extra then state else next_state) t = (u, node)" "\<not> sp_failed u"
  shows "run_ok lang source E (move_head version node u)" and "graph_grows s u" and "length (sp_heads u) = length (sp_heads s)"
proof -
  let ?tip = "hd_node (sp_heads s ! version)"
  let ?q = "if extra then state else next_state"
  let ?leaf = "leaf_tree token (sn_byte (sp_nodes s ! ?tip)) extra"
  have inv: "spec_inv lang source E s" and nf: "\<not> sp_failed s" using ok by (simp_all add: run_ok_def)
  note tip = live_head [OF ok version]
  have t: "token_at source (sn_byte (sp_nodes s ! ?tip)) token" "is_token lang (tok_symbol token)" using tok by (simp_all add: next_ok_def)
  have st: "is_state lang state" using tip(4) state by simp
  have nz: "tok_symbol token \<noteq> 0"
  proof
    assume "tok_symbol token = 0"
    then show False using tables_no_end_shift [OF tables(1) st] action by simp
  qed
  have "action_ok lang (Shift next_state extra repetition)" by (rule tables_actions [OF tables(1) st t(2) action])
  then have q: "is_state lang ?q" using st by (auto simp: action_ok_def)
  obtain c where c: "leaf = length (sp_trees s)" "t = s\<lparr>sp_trees := sp_trees s @ [?leaf], sp_capacity := c\<rparr>"
    using tree_Ok [OF leaf] by metis
  note one = spec_inv_tree [OF leaf inv]
  have new: "leaf < length (sp_trees t)" "sp_trees t ! leaf = ?leaf" "sp_nodes t = sp_nodes s" by (simp_all add: c)
  have fork: "fork_end t = fork_end s" by (rule fork_end_grows [OF one(2)])
  have at: "from_fork t ?tip = sn_byte (sp_nodes s ! ?tip)" using tip(3) by (simp add: new(3) fork max_absorb2)
  have "visits lang source (sp_trees t) (sp_children t) leaf (sn_byte (sp_nodes s ! ?tip)) (tok_end_byte token)"
    using visits_leaf [of leaf "sp_trees t" source _ lang "sp_children t"] new t nz by (simp add: leaf_tree_def)
  moreover have le: "fork_end t \<le> tok_end_byte token" using tip(3) t(1) fork by (auto simp: token_at_def)
  ultimately have span: "spans_tree lang source t leaf (from_fork t ?tip)"
    using t(1) unfolding at by (simp add: spans_tree_def new(2) leaf_tree_def token_at_def max_absorb2)
  have accept: "if tr_extra (sp_trees t ! leaf) then sn_state (sp_nodes t ! ?tip) = ?q
        else \<not> tr_inherited (sp_trees t ! leaf) \<and> \<not> tr_leaf (sp_trees t ! leaf)" if "accepting lang ?q"
    using that speculates_action [OF tables(2) st t(2) action] state
    by (cases extra) (simp_all add: new leaf_tree_def)
  have tip_t: "?tip < length (sp_nodes t)" using tip(1) by (simp add: new(3))
  note p = push_step [OF push one(1) tip_t tip(2) q span accept]
  have gu: "graph_grows t u" by (rule graph_step_grows [OF p(1)])
  show g: "graph_grows s u" by (rule graph_grows_trans [OF one(2) gu])
  have hs: "sp_heads u = sp_heads s" using p(2) by (simp add: c(2))
  then show "length (sp_heads u) = length (sp_heads s)" by simp
  have fin: "finished_ok lang source u"
    by (rule finished_ok_moves [OF g]) (use ok step_fields [OF p(1)] in \<open>simp_all add: run_ok_def c(2)\<close>)
  have heads: "heads_ok E u" using ok head_ok_grows [OF g] by (simp add: run_ok_def hs list_all_iff)
  have "cache_ok lang source u" using ok step_fields [OF p(1)] by (simp add: run_ok_def c(2))
  with fin heads have u: "run_ok lang source E u" using push(2) pop_step_inv [OF p(1)] by (simp add: run_ok_def)
  have "head_ok E u ((sp_heads u ! version)\<lparr>hd_node := node\<rparr>)"
    using p(5,6,8) le fork_end_grows [OF gu] by (simp add: head_ok_def new(2) leaf_tree_def)
  then have "list_all (head_ok E u) ((sp_heads u)[version := (sp_heads u ! version)\<lparr>hd_node := node\<rparr>])"
    using heads set_update_subset_insert [of "sp_heads u" version] unfolding list_all_iff by blast
  then show "run_ok lang source E (move_head version node u)"
    unfolding move_head_def by (rule heads_run [OF u])
qed

context shape_recovery
begin

lemma act_failed:
  "spec_act mem materialize lang version state token actions reduced final s = Some (s', Went_On reduced' final') \<Longrightarrow>
     \<not> sp_failed s \<Longrightarrow> \<not> sp_failed s'"
proof (induction actions arbitrary: reduced final s)
  case (Cons a actions)
  then show ?case by (cases a) (auto simp: bind_eq_Some_conv Let_def split: if_splits prod.splits)
qed simp

lemma spec_act_ok:
  assumes "spec_act mem materialize lang version state token actions reduced final s = Some (s', acted)" and "\<not> sp_failed s'"
    and "run_ok lang source E s" and "version < length (sp_heads s)" and "\<not> hd_halted (sp_heads s ! version)"
    and "state = sn_state (sp_nodes s ! hd_node (sp_heads s ! version))"
    and "byte = sn_byte (sp_nodes s ! hd_node (sp_heads s ! version))"
    and "next_ok lang source byte token keyword" and "set actions \<subseteq> set (tf_actions lang state (tok_symbol token))"
    and "tables_ok lang" and "speculates lang"
    and "final = TF_SPEC_NONE \<or> version < final \<and> final < length (sp_heads s) \<and> live_at E s byte (sp_heads s ! final)"
  shows "graph_grows s s' \<and> length (sp_heads s) \<le> length (sp_heads s') \<and>
    (case acted of Left_Version \<Rightarrow> \<exists>E'. run_ok lang source E' s'
     | Went_On reduced' final' \<Rightarrow> run_ok lang source E s' \<and> (\<exists>new. sp_heads s' = sp_heads s @ new) \<and>
         (final' = TF_SPEC_NONE \<or> version < final' \<and> final' < length (sp_heads s') \<and> live_at E s' byte (sp_heads s' ! final')))"
  using assms
proof (induction actions arbitrary: reduced final s)
  case Nil
  then show ?case by auto
next
  case (Cons a actions)
  note ok = Cons.prems(3) and version = Cons.prems(4,5) and tables = Cons.prems(10,11)
  have nf: "\<not> sp_failed s" and inv: "spec_inv lang source E s" and heads: "heads_ok E s" and fin: "finished_ok lang source s"
    using ok by (simp_all add: run_ok_def)
  note tip = live_head [OF ok version]
  have st: "is_state lang state" using tip(4) Cons.prems(6) by simp
  have tok: "token_at source byte token" "is_token lang (tok_symbol token)"
    "tok_symbol token = 0 \<Longrightarrow> unat (tok_end_byte token) = length source"
    using Cons.prems(8) by (simp_all add: next_ok_def)
  have a: "a \<in> set (tf_actions lang state (tok_symbol token))" and rest: "set actions \<subseteq> set (tf_actions lang state (tok_symbol token))"
    using Cons.prems(9) by simp_all
  show ?case
  proof (cases a)
    case (Shift q extra repetition)
    let ?tip = "hd_node (sp_heads s ! version)"
    obtain t leaf where t: "tf_spec_tree mem (leaf_tree token (sn_byte (sp_nodes s ! ?tip)) extra) s = (t, leaf)" by fastforce
    obtain u node where u: "tf_spec_push mem ?tip leaf (if extra then state else q) t = (u, node)" by fastforce
    have s': "s' = (if sp_failed t then t else move_head version node u)" "acted = Left_Version"
      using Cons.prems(1) Shift t u by (auto simp: Let_def)
    have nt: "\<not> sp_failed t" and nu: "\<not> sp_failed u" using Cons.prems(2) by (auto simp: s'(1) move_head_def split: if_splits)
    note shift = shift_version_ok [OF ok version Cons.prems(8) [unfolded Cons.prems(7)] a [unfolded Shift] Cons.prems(6) tables t nt u nu]
    have "graph_grows s (move_head version node u)" using graph_grows_trans [OF shift(2)] by (simp add: move_head_def)
    then show ?thesis using shift(1,3) nt by (auto simp: s' move_head_def)
  next
    case (Reduce child_count symbol dynamic_precedence production)
    obtain t v where t: "tf_spec_reduce mem materialize lang version child_count symbol dynamic_precedence production s = Some (t, v)"
      and res: "(if sp_failed t then Some (t, Left_Version)
         else spec_act mem materialize lang version state token actions True (if v \<noteq> TF_SPEC_NONE then v else final) t) = Some (s', acted)"
      using Cons.prems(1) Reduce by (auto simp: bind_eq_Some_conv)
    have nt: "\<not> sp_failed t" using res Cons.prems(2) by (auto split: if_splits)
    have "action_ok lang a" by (rule tables_actions [OF tables(1) st tok(2) a])
    then have "is_symbol lang symbol" "symbol \<noteq> 0" by (simp_all add: action_ok_def Reduce)
    from tf_spec_reduce_ok [OF t nt nf inv tables(1) heads version this] Cons.prems(7)
    obtain new where step: "graph_step lang source E s t" and hs: "sp_heads t = sp_heads s @ new"
      and live: "list_all (live_at E t byte) new" and v: "v = (if new = [] then TF_SPEC_NONE else length (sp_heads s))" by blast
    have g: "graph_grows s t" by (rule graph_step_grows [OF step])
    have "heads_ok E t" using heads live head_ok_grows [OF g] by (auto simp: hs list_all_iff live_at_def)
    moreover have "finished_ok lang source t" by (rule finished_ok_moves [OF g _ fin]) (use step_fields [OF step] in simp)
    ultimately have run_t: "run_ok lang source E t" using acted_moves(1) [OF step_moves [OF step] nt _ _ ok] by blast
    have same: "sp_heads t ! version = sp_heads s ! version" using version(1) by (simp add: hs nth_append)
    have node: "sn_state (sp_nodes t ! hd_node (sp_heads s ! version)) = state" "sn_byte (sp_nodes t ! hd_node (sp_heads s ! version)) = byte"
      using node_grows [OF g tip(1)] Cons.prems(6,7) by simp_all
    have "(if v \<noteq> TF_SPEC_NONE then v else final) = TF_SPEC_NONE \<or> version < (if v \<noteq> TF_SPEC_NONE then v else final) \<and>
        (if v \<noteq> TF_SPEC_NONE then v else final) < length (sp_heads t) \<and>
        live_at E t byte (sp_heads t ! (if v \<noteq> TF_SPEC_NONE then v else final))"
    proof (cases "v = TF_SPEC_NONE")
      case True
      then show ?thesis using Cons.prems(12) live_at_grows [OF g] by (auto simp: hs nth_append)
    next
      case False
      then have "new \<noteq> []" "v = length (sp_heads s)" using v by auto
      then show ?thesis using False live version(1) by (cases new) (simp_all add: hs)
    qed
    note final = this
    have res': "spec_act mem materialize lang version state token actions True (if v \<noteq> TF_SPEC_NONE then v else final) t = Some (s', acted)"
      using res nt by simp
    have "version < length (sp_heads t)" "\<not> hd_halted (sp_heads t ! version)"
      "state = sn_state (sp_nodes t ! hd_node (sp_heads t ! version))" "byte = sn_byte (sp_nodes t ! hd_node (sp_heads t ! version))"
      using version node by (simp_all add: same) (simp add: hs)
    note IH = Cons.IH [OF res' Cons.prems(2) run_t this Cons.prems(8) rest tables final]
    then show ?thesis using graph_grows_trans [OF g, of s'] hs by (cases acted) auto
  next
    case Accept
    obtain t where t: "tf_spec_accept mem materialize version token s = Some t" and s': "s' = t" "acted = Left_Version"
      using Cons.prems(1) Accept by (auto simp: bind_eq_Some_conv)
    have zero: "tok_symbol token = 0" using speculates_action [OF tables(2) st tok(2) a] Accept by simp
    then have "accepting lang (sn_state (sp_nodes s ! hd_node (sp_heads s ! version)))"
      using a Accept Cons.prems(6) by (simp add: accepting_def)
    from tf_spec_accept_ok [OF t _ nf inv heads version fin tables(1) this tok(3) [OF zero]] tok(1,3) zero Cons.prems(2)
    obtain E' where "moves lang source E' s t" "heads_ok E' t" "finished_ok lang source t" "length (sp_heads t) = length (sp_heads s)"
      by (auto simp: s' token_at_def)
    then show ?thesis using acted_moves [of lang source E' s t E] Cons.prems(2) ok by (auto simp: s')
  next
    case Recover
    then show ?thesis
      using Cons.IH [OF _ Cons.prems(2,3) version Cons.prems(6-8) rest tables Cons.prems(12)] Cons.prems(1) by simp
  qed
qed

text \<open>The last version that came of the reductions takes the place of the version.\<close>

lemma take_version_ok:
  assumes ok: "run_ok lang source E s" and i: "version < final" "final < length (sp_heads s)" and live: "live_at E s byte (sp_heads s ! final)"
  defines "s' \<equiv> tf_spec_remove_head final (s\<lparr>sp_heads := (sp_heads s)[version := sp_heads s ! final]\<rparr>)"
  shows "run_ok lang source E s'" and "graph_grows s s'" and "length (sp_heads s') = length (sp_heads s) - 1"
    and "live_at E s' byte (sp_heads s' ! version)" and "\<not> sp_failed s'"
proof -
  let ?h = "(sp_heads s)[version := sp_heads s ! final]"
  have s': "s' = s\<lparr>sp_heads := take final ?h @ drop (final + 1) ?h\<rparr>" by (simp add: s'_def tf_spec_remove_head_def)
  have "list_all (head_ok E s) (sp_heads s)" using ok by (simp add: run_ok_def)
  then have "list_all (head_ok E s) ?h"
    using set_update_subset_insert [of "sp_heads s" version "sp_heads s ! final"] i(2) unfolding list_all_iff by auto
  then have "list_all (head_ok E s) (take final ?h @ drop (final + 1) ?h)"
    by (auto simp: list_all_iff dest: in_set_takeD in_set_dropD)
  then show "run_ok lang source E s'" unfolding s' by (rule heads_run [OF ok])
  then show "\<not> sp_failed s'" by (simp add: run_ok_def)
  show "graph_grows s s'" by (simp add: s')
  show "length (sp_heads s') = length (sp_heads s) - 1" using i by (simp add: s')
  have "sp_heads s' ! version = sp_heads s ! final" using i by (simp add: s' nth_append)
  then show "live_at E s' byte (sp_heads s' ! version)"
    using live by (auto simp: live_at_def head_ok_def s' fork_end_def)
qed

lemma advance_loop_ok:
  assumes "advance_loop mem materialize lang version keyword token s = Some s'" and "\<not> sp_failed s'"
    and "run_ok lang source E s" and "version < length (sp_heads s)" and "\<not> hd_halted (sp_heads s ! version)"
    and "next_ok lang source (sn_byte (sp_nodes s ! hd_node (sp_heads s ! version))) token keyword"
    and tables: "tables_ok lang" "speculates lang"
  shows "goes_on lang source s s' \<and> version < length (sp_heads s')"
proof -
  have "materialize = materialize \<longrightarrow> lang = lang \<longrightarrow> (\<forall>E. \<not> sp_failed s' \<longrightarrow> run_ok lang source E s \<longrightarrow> version < length (sp_heads s) \<longrightarrow>
      \<not> hd_halted (sp_heads s ! version) \<longrightarrow>
      next_ok lang source (sn_byte (sp_nodes s ! hd_node (sp_heads s ! version))) token keyword \<longrightarrow>
      goes_on lang source s s' \<and> version < length (sp_heads s'))"
  proof (rule advance_loop.raw_induct [where P = "\<lambda>mem mat la version keyword token s s'. mat = materialize \<longrightarrow> la = lang \<longrightarrow>
      (\<forall>E. \<not> sp_failed s' \<longrightarrow> run_ok lang source E s \<longrightarrow> version < length (sp_heads s) \<longrightarrow>
      \<not> hd_halted (sp_heads s ! version) \<longrightarrow>
      next_ok lang source (sn_byte (sp_nodes s ! hd_node (sp_heads s ! version))) token keyword \<longrightarrow>
      goes_on lang source s s' \<and> version < length (sp_heads s'))", OF _ assms(1)], intro impI allI)
    fix loop mem mat la version keyword token s s' E
    assume IH: "\<And>mem mat la version keyword token s s'. loop mem mat la version keyword token s = Some s' \<Longrightarrow>
        mat = materialize \<longrightarrow> la = lang \<longrightarrow> (\<forall>E. \<not> sp_failed s' \<longrightarrow> run_ok lang source E s \<longrightarrow> version < length (sp_heads s) \<longrightarrow>
        \<not> hd_halted (sp_heads s ! version) \<longrightarrow>
        next_ok lang source (sn_byte (sp_nodes s ! hd_node (sp_heads s ! version))) token keyword \<longrightarrow>
        goes_on lang source s s' \<and> version < length (sp_heads s'))"
      and eq0: "(let state = sn_state (sp_nodes s ! hd_node (sp_heads s ! version))
       in do {
         (s, acted) \<leftarrow> spec_act mem mat la version state token (tf_actions la state (tok_symbol token)) False TF_SPEC_NONE s;
         (case acted of
            Left_Version \<Rightarrow> Some s
          | Went_On reduced final \<Rightarrow>
              if final \<noteq> TF_SPEC_NONE then
                loop mem mat la version keyword token
                  (tf_spec_remove_head final (s\<lparr>sp_heads := (sp_heads s)[version := sp_heads s ! final]\<rparr>))
              else if reduced then Some (halt_head version False s)
              else
                (case tf_parser_demote_keyword la state token keyword of
                   None \<Rightarrow> Some (halt_head version True
                     (tf_spec_error (tok_start_byte token) (tok_start_point token) state (tok_symbol token) False s))
                 | Some token \<Rightarrow> loop mem mat la version keyword token s))
       }) = Some s'"
      and same: "mat = materialize" "la = lang" and nf: "\<not> sp_failed s'" and ok: "run_ok lang source E s"
      and version: "version < length (sp_heads s)" "\<not> hd_halted (sp_heads s ! version)"
      and tok: "next_ok lang source (sn_byte (sp_nodes s ! hd_node (sp_heads s ! version))) token keyword"
    let ?state = "sn_state (sp_nodes s ! hd_node (sp_heads s ! version))"
    let ?byte = "sn_byte (sp_nodes s ! hd_node (sp_heads s ! version))"
    obtain t acted where t: "spec_act mem materialize lang version ?state token (tf_actions lang ?state (tok_symbol token)) False TF_SPEC_NONE s = Some (t, acted)"
      and res: "(case acted of
            Left_Version \<Rightarrow> Some t
          | Went_On reduced final \<Rightarrow>
              if final \<noteq> TF_SPEC_NONE then
                loop mem materialize lang version keyword token
                  (tf_spec_remove_head final (t\<lparr>sp_heads := (sp_heads t)[version := sp_heads t ! final]\<rparr>))
              else if reduced then Some (halt_head version False t)
              else
                (case tf_parser_demote_keyword lang ?state token keyword of
                   None \<Rightarrow> Some (halt_head version True
                     (tf_spec_error (tok_start_byte token) (tok_start_point token) ?state (tok_symbol token) False t))
                 | Some token \<Rightarrow> loop mem materialize lang version keyword token t)) = Some s'"
      using eq0 unfolding Let_def same by (auto simp: bind_eq_Some_conv)
    have ns: "\<not> sp_failed s" using ok by (simp add: run_ok_def)
    have nt: "\<not> sp_failed t"
    proof (cases acted)
      case Left_Version
      then show ?thesis using res nf by simp
    next
      case (Went_On reduced final)
      show ?thesis by (rule act_failed [OF t [unfolded Went_On] ns])
    qed
    have act: "graph_grows s t \<and> length (sp_heads s) \<le> length (sp_heads t) \<and>
      (case acted of Left_Version \<Rightarrow> \<exists>E'. run_ok lang source E' t
       | Went_On reduced' final' \<Rightarrow> run_ok lang source E t \<and> (\<exists>new. sp_heads t = sp_heads s @ new) \<and>
           (final' = TF_SPEC_NONE \<or> version < final' \<and> final' < length (sp_heads t) \<and> live_at E t ?byte (sp_heads t ! final')))"
      by (rule spec_act_ok [OF t nt ok version refl refl tok subset_refl tables disjI1 [OF refl]])
    then have g: "graph_grows s t" and len: "length (sp_heads s) \<le> length (sp_heads t)" by simp_all
    show "goes_on lang source s s' \<and> version < length (sp_heads s')"
    proof (cases acted)
      case Left_Version
      then show ?thesis using act res version(1) by (auto simp: goes_on_def)
    next
      case (Went_On reduced final)
      then have run_t: "run_ok lang source E t" and new: "\<exists>new. sp_heads t = sp_heads s @ new"
        and final: "final = TF_SPEC_NONE \<or> version < final \<and> final < length (sp_heads t) \<and> live_at E t ?byte (sp_heads t ! final)"
        using act by simp_all
      show ?thesis
      proof (cases "final = TF_SPEC_NONE")
        case False
        let ?u = "tf_spec_remove_head final (t\<lparr>sp_heads := (sp_heads t)[version := sp_heads t ! final]\<rparr>)"
        have loop: "loop mem materialize lang version keyword token ?u = Some s'" using res Went_On False by simp
        have f: "version < final" "final < length (sp_heads t)" "live_at E t ?byte (sp_heads t ! final)" using final False by simp_all
        note u = take_version_ok [OF run_t f]
        have "version < length (sp_heads ?u)" using f(1,2) by (simp add: u(3))
        moreover have "\<not> hd_halted (sp_heads ?u ! version)" "sn_byte (sp_nodes ?u ! hd_node (sp_heads ?u ! version)) = ?byte"
          using u(4) by (simp_all add: live_at_def)
        ultimately have "goes_on lang source ?u s' \<and> version < length (sp_heads s')"
          using IH [OF loop, rule_format, OF refl refl nf u(1)] tok by simp
        then show ?thesis using goes_on_trans [OF graph_grows_trans [OF g u(2)]] by blast
      next
        case True
        have version_t: "version < length (sp_heads t)" using version(1) len by simp
        show ?thesis
        proof (cases reduced)
          case True
          then have s': "s' = halt_head version False t" using res Went_On \<open>final = TF_SPEC_NONE\<close> by simp
          have "goes_on lang source t s'" unfolding s' goes_on_def using halt_grows halt_run [OF run_t] by blast
          then show ?thesis using goes_on_trans [OF g] version_t by (simp add: s' halt_head_def)
        next
          case False
          show ?thesis
          proof (cases "tf_parser_demote_keyword lang ?state token keyword")
            case None
            let ?e = "tf_spec_error (tok_start_byte token) (tok_start_point token) ?state (tok_symbol token) False t"
            have s': "s' = halt_head version True ?e" using res Went_On \<open>final = TF_SPEC_NONE\<close> False None by simp
            have "graph_grows t s'" unfolding s' by (rule graph_grows_trans [OF same_graph_grows [OF error_same] halt_grows])
            then have "goes_on lang source t s'" using halt_run [OF error_run [OF run_t]] unfolding s' goes_on_def by blast
            then show ?thesis using goes_on_trans [OF g] version_t by (simp add: s' halt_head_def tf_spec_error_def)
          next
            case (Some token')
            then have loop: "loop mem materialize lang version keyword token' t = Some s'"
              using res Went_On \<open>final = TF_SPEC_NONE\<close> False by simp
            have same: "sp_heads t ! version = sp_heads s ! version" using new version(1) by (auto simp: nth_append)
            have "sn_byte (sp_nodes t ! hd_node (sp_heads s ! version)) = ?byte"
              by (rule node_grows(3) [OF g live_head(1) [OF ok version]])
            then have "goes_on lang source t s' \<and> version < length (sp_heads s')"
              using IH [OF loop, rule_format, OF refl refl nf run_t version_t] version(2) next_ok_demote [OF Some tok tables(1)] by (simp add: same)
            then show ?thesis using goes_on_trans [OF g] by blast
          qed
        qed
      qed
    qed
  qed
  then show ?thesis using assms by blast
qed

section \<open>All versions\<close>

lemma tf_spec_advance_ok:
  assumes run: "tf_spec_advance mem materialize version s p = Some (s', p')" and nf: "\<not> sp_failed s'"
    and ok: "run_ok lang source E s" and version: "version < length (sp_heads s)" "\<not> hd_halted (sp_heads s ! version)"
    and p: "ps_lang p = lang" "lexer_pos lang source (ps_lexer p)"
    and tables: "tables_ok lang" "speculates lang" "lexes_tokens lang" "lexes_end lang"
  shows "goes_on lang source s s' \<and> version < length (sp_heads s') \<and> lexer_pos lang source (ps_lexer p')"
proof -
  let ?node = "hd_node (sp_heads s ! version)"
  obtain t q lexed where t: "tf_spec_lex ?node s p = Some (t, q, lexed)"
    and res: "(case lexed of
        None \<Rightarrow> Some (halt_head version True t, q)
      | Some (token, keyword) \<Rightarrow> do {
          s \<leftarrow> advance_loop mem materialize (ps_lang q) version keyword token t;
          Some (s, q)
        }) = Some (s', p')"
    using run by (auto simp: tf_spec_advance_def bind_eq_Some_conv)
  note tip = live_head [OF ok version]
  have "cache_ok lang source s" using ok unfolding run_ok_def by blast
  note lex = tf_spec_lex_ok [OF t this tip(5,6) p tables(1,3,4)]
  have run_t: "run_ok lang source E t" by (rule same_graph_run [OF lex(2) ok lex(1)])
  have g: "graph_grows s t" by (rule same_graph_grows [OF lex(2)])
  have same: "sp_heads t = sp_heads s" "sp_nodes t = sp_nodes s" using lex(2) by (simp_all add: same_graph_def)
  have lang: "ps_lang q = lang" using lex(4) p(1) by auto
  show ?thesis
  proof (cases lexed)
    case None
    then have s': "s' = halt_head version True t" "p' = q" using res by simp_all
    have "goes_on lang source t s'" unfolding s' goes_on_def using halt_grows halt_run [OF run_t] by blast
    then show ?thesis using goes_on_trans [OF g] version(1) lex(3) by (simp add: s' halt_head_def same)
  next
    case (Some r)
    then obtain token keyword where r: "lexed = Some (token, keyword)" by (cases r) simp
    then have loop: "advance_loop mem materialize lang version keyword token t = Some s'" and p': "p' = q"
      using res lang by (auto simp: bind_eq_Some_conv)
    have "version < length (sp_heads t)" "\<not> hd_halted (sp_heads t ! version)"
      "next_ok lang source (sn_byte (sp_nodes t ! hd_node (sp_heads t ! version))) token keyword"
      using version lex(5) [OF r] by (simp_all add: same)
    from advance_loop_ok [OF loop nf run_t this tables(1,2)] show ?thesis
      using goes_on_trans [OF g] lex(3) by (simp add: p')
  qed
qed

lemma advance_version_ok:
  assumes "advance_version mem materialize version lo s p = Some (lo', s', p')" and "\<not> sp_failed s'"
    and "run_ok lang source E s" and "version < length (sp_heads s)"
    and "ps_lang p = lang" and "lexer_pos lang source (ps_lexer p)"
    and tables: "tables_ok lang" "speculates lang" "lexes_tokens lang" "lexes_end lang"
  shows "goes_on lang source s s' \<and> lexer_pos lang source (ps_lexer p')"
proof -
  let ?C = "\<lambda>version lo s p r. \<forall>E. \<not> sp_failed (fst (snd r)) \<longrightarrow> run_ok lang source E s \<longrightarrow> version < length (sp_heads s) \<longrightarrow>
      ps_lang p = lang \<longrightarrow> lexer_pos lang source (ps_lexer p) \<longrightarrow>
      goes_on lang source s (fst (snd r)) \<and> lexer_pos lang source (ps_lexer (snd (snd r)))"
  have "materialize = materialize \<longrightarrow> ?C version lo s p (lo', s', p')"
  proof (rule advance_version.raw_induct [where P = "\<lambda>mem mat version lo s p r. mat = materialize \<longrightarrow> ?C version lo s p r",
        OF _ assms(1)], intro impI allI)
    fix loop mem mat version lo s E and p :: "('a, 'b, 'c) TFParser" and r
    assume IH: "\<And>mem mat version lo s (p :: ('a, 'b, 'c) TFParser) r. loop mem mat version lo s p = Some r \<Longrightarrow>
        mat = materialize \<longrightarrow> ?C version lo s p r"
      and eq: "(if hd_halted (sp_heads s ! version) then Some (lo, s, p)
        else do {
          (s, p) \<leftarrow> tf_spec_advance mem mat version s p;
          if sp_failed s then Some (lo, s, p)
          else let pos = sn_byte (sp_nodes s ! hd_node (sp_heads s ! version))
            in if pos > lo \<or> version > 0 \<and> pos = lo then Some (pos, s, p) else loop mem mat version lo s p
        }) = Some r"
      and mat: "mat = materialize" and nf: "\<not> sp_failed (fst (snd r))" and ok: "run_ok lang source E s"
      and version: "version < length (sp_heads s)" and p: "ps_lang p = lang" "lexer_pos lang source (ps_lexer p)"
    show "goes_on lang source s (fst (snd r)) \<and> lexer_pos lang source (ps_lexer (snd (snd r)))"
    proof (cases "hd_halted (sp_heads s ! version)")
      case True
      then show ?thesis using eq goes_on_refl [OF ok] p by auto
    next
      case False
      then obtain t q where t: "tf_spec_advance mem materialize version s p = Some (t, q)" and rest:
        "(if sp_failed t then Some (lo, t, q)
          else let pos = sn_byte (sp_nodes t ! hd_node (sp_heads t ! version))
            in if pos > lo \<or> version > 0 \<and> pos = lo then Some (pos, t, q) else loop mem materialize version lo t q) = Some r"
        using eq mat by (auto simp: bind_eq_Some_conv)
      have nt: "\<not> sp_failed t" using rest nf by (auto split: if_splits)
      note one = tf_spec_advance_ok [OF t nt ok version False p tables]
      then obtain E' where E': "run_ok lang source E' t" "graph_grows s t" by (auto simp: goes_on_def)
      have lang: "ps_lang q = lang" using advance_parser [OF t] p(1) by auto
      show ?thesis
      proof (cases "loop mem materialize version lo t q = Some r")
        case True
        then have "goes_on lang source t (fst (snd r)) \<and> lexer_pos lang source (ps_lexer (snd (snd r)))"
          using IH [OF True] nf E'(1) one lang by blast
        then show ?thesis using goes_on_trans [OF E'(2)] by blast
      next
        case False
        then have "fst (snd r) = t" "snd (snd r) = q" using rest nt by (auto simp: Let_def split: if_splits)
        then show ?thesis using one by simp
      qed
    qed
  qed
  then show ?thesis using assms by auto
qed

lemma advance_versions_ok:
  assumes "advance_versions mem materialize version lo s p = Some (lo', s', p')" and "\<not> sp_failed s'"
    and "run_ok lang source E s" and "ps_lang p = lang" and "lexer_pos lang source (ps_lexer p)"
    and tables: "tables_ok lang" "speculates lang" "lexes_tokens lang" "lexes_end lang"
  shows "goes_on lang source s s' \<and> lexer_pos lang source (ps_lexer p')"
proof -
  let ?C = "\<lambda>s p r. \<forall>E. \<not> sp_failed (fst (snd r)) \<longrightarrow> run_ok lang source E s \<longrightarrow>
      ps_lang p = lang \<longrightarrow> lexer_pos lang source (ps_lexer p) \<longrightarrow>
      goes_on lang source s (fst (snd r)) \<and> lexer_pos lang source (ps_lexer (snd (snd r)))"
  have "materialize = materialize \<longrightarrow> ?C s p (lo', s', p')"
  proof (rule advance_versions.raw_induct [where P = "\<lambda>mem mat version lo s p r. mat = materialize \<longrightarrow> ?C s p r",
        OF _ assms(1)], intro impI allI)
    fix loop mem mat version lo s E and p :: "('a, 'b, 'c) TFParser" and r
    assume IH: "\<And>mem mat version lo s (p :: ('a, 'b, 'c) TFParser) r. loop mem mat version lo s p = Some r \<Longrightarrow>
        mat = materialize \<longrightarrow> ?C s p r"
      and eq: "(if \<not> version < length (sp_heads s) then Some (lo, s, p)
        else do {
          (lo, s, p) \<leftarrow> advance_version mem mat version lo s p;
          if sp_failed s then Some (lo, s, p) else loop mem mat (version + 1) lo s p
        }) = Some r"
      and mat: "mat = materialize" and nf: "\<not> sp_failed (fst (snd r))" and ok: "run_ok lang source E s"
      and p: "ps_lang p = lang" "lexer_pos lang source (ps_lexer p)"
    show "goes_on lang source s (fst (snd r)) \<and> lexer_pos lang source (ps_lexer (snd (snd r)))"
    proof (cases "version < length (sp_heads s)")
      case False
      then show ?thesis using eq goes_on_refl [OF ok] p by auto
    next
      case True
      then obtain l t q where t: "advance_version mem materialize version lo s p = Some (l, t, q)"
        and rest: "(if sp_failed t then Some (l, t, q) else loop mem materialize (version + 1) l t q) = Some r"
        using eq mat by (auto simp: bind_eq_Some_conv)
      have nt: "\<not> sp_failed t" using rest nf by (auto split: if_splits)
      note one = advance_version_ok [OF t nt ok True p tables]
      then obtain E' where E': "run_ok lang source E' t" "graph_grows s t" by (auto simp: goes_on_def)
      have lang: "ps_lang q = lang" using advance_version_parser [OF t] p(1) by auto
      have "goes_on lang source t (fst (snd r)) \<and> lexer_pos lang source (ps_lexer (snd (snd r)))"
        using IH [of mem materialize "version + 1" l t q r, rule_format, OF _ refl nf E'(1) lang] rest nt one by simp
      then show ?thesis using goes_on_trans [OF E'(2)] by blast
    qed
  qed
  then show ?thesis using assms by auto
qed

end

end
