(* ===== verification/Spec2Isabelle.thy ===== *)
theory Spec2Isabelle
  imports Language_Props Lexer_Props Parser_Props Visible_Props Lexer_End Spec_Advance
begin

text \<open>
  tree-feller: a streaming LR driver over the parse tables of tree-sitter grammars
  (\<^verbatim>\<open>src/lib\<close>). The library loads a generated \<^verbatim>\<open>TSLanguage\<close> into direct tables, lexes the input
  with the grammar's own lex functions, and drives an LR stack that reports every shift and
  reduction to a consumer (\<^verbatim>\<open>TFSink\<close>) instead of building a tree.

  Parts and theories. Names are the source's, with \<^verbatim>\<open>tf_parser__x\<close> written \<open>tf_parser_x\<close>.

  \<^item> \<open>Prelude\<close>: machine integers, points, and the lemmas on lists, folds and words that the
    components share.
  \<^item> \<open>Tables\<close>: the ABI types of \<^verbatim>\<open>tree_sitter/parser.h\<close>, the loaded language and every accessor
    of \<^verbatim>\<open>tf_language.h\<close>. Generated arrays are functions of the index; arrays the library
    allocates are lists.
  \<^item> \<open>Language\<close>: \<^verbatim>\<open>tf_language_load\<close> and its loops, against the packed tables they replace;
    \<open>Language_Props\<close> holds the properties. The allocator is a predicate on the allocation's
    site and size.
  \<^item> \<open>Demo\<close>, \<open>Demo_Run\<close>: a small grammar in the generator's format and one parse of it, worked
    out once for every consumer; the witnesses rest on it.
  \<^item> \<open>Utf8\<close>: \<^verbatim>\<open>tf_utf8_next\<close>, against the encoding of scalar values.
  \<^item> \<open>Lexer\<close>, \<open>Lexer_Props\<close>, \<open>Lexer_Progress\<close>: the callbacks of \<^verbatim>\<open>tf_lexer.c\<close>, a generated lex
    function as a table of rows run by the macros' loop, \<^verbatim>\<open>tf_lexer_next\<close> with the keyword
    re-lex. The interface between a lex function and the lexer is the locale \<open>ts_lexer\<close>.
  \<^item> \<open>Parser\<close>: the stack, the operations and the loop of \<^verbatim>\<open>tf_parser.c\<close>. The stack is a pair of
    lists, the loop a partial function over the places where the two nested loops stand; the
    resolution of a conflict is an argument.
  \<^item> \<open>Parser_Stack\<close>, \<open>Parser_Inv\<close>: what each operation does to the stack, and the invariant at
    the heads of the loop.
  \<^item> \<open>Sink\<close>: the interface of a consumer, the locale \<open>sink_client\<close>; \<open>Tree\<close> (a consumer that
    builds the tree) and \<open>Ledger\<close> (one that counts its values) interpret it.
  \<^item> \<open>Parser_Safe\<close>: a certificate on the tables under which the stack never underflows;
    \<open>Parser_Halt\<close>: a ranking under which every parse returns; \<open>Erase\<close>: the consumer has no
    influence; \<open>Parser_Error\<close>: the error reports; \<open>Parser_Props\<close>: the properties.
  \<^item> \<open>Visible\<close>: \<^verbatim>\<open>tf_visible.c\<close>, the filter between the parser and a consumer of visible nodes, with
    its in-place rewriting of one arena; \<open>Visible_Spec\<close>: what it computes, as a function, and that
    it does; \<open>Visible_Client\<close>: the interface of its consumer, a \<open>sink_client\<close> through the filter;
    \<open>Visible_Tree\<close>, \<open>Visible_Ledger\<close>: two consumers; \<open>Visible_Cells\<close>: the two layouts of a cell;
    \<open>Visible_Props\<close>: the properties.
  \<^item> \<open>Spec\<close>, \<open>Spec_Run\<close>: \<^verbatim>\<open>tf_parser_spec.h\<close>, the graph of stacks on which a conflict is worked out,
    and \<open>tf_parser_split\<close>, which advances its versions and replays the outcome on the real stack.
    \<open>tf_parse\<close> is the run with it.

  Bounds. Words have the source's widths. A read below the stack, a write past its capacity, a
  print of an unwritten buffer and a failed assertion are values (\<open>fault\<close>). Loops that may not
  end are \<open>partial_function (option)\<close>; that they return is a theorem (C11, C14, C19).

  The private replay that recovers the shapes of the stack below a fork is a run of the parser
  within the resolution of a conflict, which can meet conflicts of its own; the number of such
  runs within each other is bounded by the argument of \<open>private_split\<close>. Each stops at the fork it
  was started from, so it only meets earlier ones and their number is a sufficient bound.

  Not modelled: the operating-system calls of \<^verbatim>\<open>tf_file.c\<close>; \<^verbatim>\<open>tools/tf_diff.c\<close>, which drives the
  tree-sitter runtime, not part of the repository; \<^verbatim>\<open>tf_language_free\<close> and \<^verbatim>\<open>tf_spec__free\<close>, which
  only release memory.
\<close>

end
